(* ===== verification/Prelude.thy ===== *)
theory Prelude
  imports Main "HOL-Library.Word" "HOL-Library.Multiset" "HOL-Library.Monad_Syntax"
    "HOL-Library.List_Lexorder"
begin

text \<open>
  Shared vocabulary of the development: the machine integers the kernel is written with, the
  outcome of a fallible operation, slot vectors (the \<open>Vec<Option<T>>\<close> every pool of the kernel is
  built on) with their algebra, little-endian byte strings, and bounded insertion into sorted
  lists.
\<close>

unbundle bit_operations_syntax

section \<open>Machine integers and outcomes\<close>

type_synonym u8 = "8 word"
type_synonym u16 = "16 word"
type_synonym u32 = "32 word"
type_synonym u64 = "64 word"
type_synonym i32 = "32 word"
type_synonym i64 = "64 word"
type_synonym bytes = "8 word list"

named_theorems slot_simps \<open>the algebra of slot vectors\<close>
named_theorems le_simps \<open>little-endian encoding and its inverse\<close>
named_theorems kernel_defs \<open>definitions unfolded by the proofs about kernel steps\<close>

text \<open>
  A fallible operation returns, is rejected with an error of type \<open>'e\<close>, aborts the process (a Rust
  panic: an index out of range, an \<open>unwrap\<close> of \<open>None\<close>, a failed \<open>expect\<close>), or never returns.
\<close>

datatype ('e, 'a) res = Ok 'a | Err 'e | Panic | Diverges

fun res_bind :: "('e, 'a) res \<Rightarrow> ('a \<Rightarrow> ('e, 'b) res) \<Rightarrow> ('e, 'b) res" where
  "res_bind (Ok x) f = f x"
| "res_bind (Err e) f = Err e"
| "res_bind Panic f = Panic"
| "res_bind Diverges f = Diverges"

definition of_loop :: "('e, 'a) res option \<Rightarrow> ('e, 'a) res" where
  "of_loop r = (case r of None \<Rightarrow> Diverges | Some x \<Rightarrow> x)"

lemma of_loop_simps [simp]: "of_loop (Some x) = x" "of_loop None = Diverges"
  by (simp_all add: of_loop_def)

lemma res_bind_Ok_iff [simp]:
  "res_bind m f = Ok y \<longleftrightarrow> (\<exists>x. m = Ok x \<and> f x = Ok y)"
  by (cases m) simp_all

definition returns :: "('e, 'a) res \<Rightarrow> bool" where
  "returns r \<longleftrightarrow> (case r of Ok _ \<Rightarrow> True | Err _ \<Rightarrow> True | _ \<Rightarrow> False)"

lemma returns_simps [simp]:
  "returns (Ok x)" "returns (Err e)" "\<not> returns Panic" "\<not> returns Diverges"
  by (simp_all add: returns_def)

section \<open>Slot vectors\<close>

text \<open>
  \<open>slot xs i\<close> is \<open>xs.get(i).and_then(|s| s.as_ref())\<close>: \<open>None\<close> both for an index out of range and for
  an empty slot. \<open>upd_slot f i xs\<close> is the mutation \<open>if let Some(r) = xs.get_mut(i).and_then(|s|
  s.as_mut()) { *r = f(r) }\<close>, and \<open>clear_slot\<close> the assignment \<open>xs[i] = None\<close>.
\<close>

definition slot :: "'a option list \<Rightarrow> u32 \<Rightarrow> 'a option" where
  "slot xs i = (if unat i < length xs then xs ! unat i else None)"

definition upd_slot :: "('a \<Rightarrow> 'a) \<Rightarrow> u32 \<Rightarrow> 'a option list \<Rightarrow> 'a option list" where
  "upd_slot f i xs = (case slot xs i of None \<Rightarrow> xs | Some a \<Rightarrow> xs[unat i := Some (f a)])"

definition clear_slot :: "u32 \<Rightarrow> 'a option list \<Rightarrow> 'a option list" where
  "clear_slot i xs = xs[unat i := None]"

lemma length_upd_slot [simp]: "length (upd_slot f i xs) = length xs"
  by (simp add: upd_slot_def split: option.splits)

lemma length_clear_slot [simp]: "length (clear_slot i xs) = length xs"
  by (simp add: clear_slot_def)

lemma slot_Nil [simp]: "slot [] i = None"
  by (simp add: slot_def)

lemma slot_SomeD: "slot xs i = Some a \<Longrightarrow> unat i < length xs"
  by (simp add: slot_def split: if_splits)

lemma slot_upd_slot [slot_simps]:
  "slot (upd_slot f i xs) j = (if i = j then map_option f (slot xs i) else slot xs j)"
  by (auto simp: slot_def upd_slot_def nth_list_update word_unat_eq_iff split: option.splits)

lemma slot_clear_slot [slot_simps]:
  "slot (clear_slot i xs) j = (if i = j then None else slot xs j)"
  by (auto simp: slot_def clear_slot_def nth_list_update word_unat_eq_iff)

lemma upd_slot_None [simp]: "slot xs i = None \<Longrightarrow> upd_slot f i xs = xs"
  by (simp add: upd_slot_def)

lemma unat_bounds: "unat (w :: 'a::len word) < 2 ^ LENGTH('a)"
  by (rule unsigned_less)

lemma unat_of_nat_len: "n < 2 ^ 32 \<Longrightarrow> unat (of_nat n :: u32) = n"
  by (simp add: unat_of_nat take_bit_nat_eq_self)

text \<open>Appending to a pool: the new element is found under the id \<open>len as u32\<close>.\<close>

lemma slot_append_Some [slot_simps]:
  assumes "length xs < 2 ^ 32"
  shows "slot (xs @ [Some a]) j = (if j = of_nat (length xs) then Some a else slot xs j)"
proof -
  have "unat (of_nat (length xs) :: u32) = length xs"
    using assms by (rule unat_of_nat_len)
  moreover have "j = of_nat (length xs) \<longleftrightarrow> unat j = length xs"
    using calculation by (simp add: word_unat_eq_iff)
  ultimately show ?thesis
    by (auto simp: slot_def nth_append)
qed

lemma slot_new_None:
  assumes "length xs < 2 ^ 32"
  shows "slot xs (of_nat (length xs)) = None"
  using assms by (simp add: slot_def unat_of_nat_len)

lemma slot_nth: "i < length xs \<Longrightarrow> i < 2 ^ 32 \<Longrightarrow> slot xs (of_nat i) = xs ! i"
  by (simp add: slot_def unat_of_nat_len)

text \<open>The live entries of a pool in slot order.\<close>

definition live :: "'a option list \<Rightarrow> 'a list" where
  "live xs = List.map_filter (\<lambda>x. x) xs"

lemma live_simps [simp]:
  "live [] = []" "live (None # xs) = live xs" "live (Some a # xs) = a # live xs"
  "live (xs @ ys) = live xs @ live ys"
  by (simp_all add: live_def map_filter_def)

lemma set_live: "set (live xs) = {a. Some a \<in> set xs}"
  by (induction xs) (auto simp: live_def map_filter_def)

lemma set_live_slot:
  assumes "length xs \<le> 2 ^ 32"
  shows "set (live xs) = {a. \<exists>i. slot xs i = Some a}"
proof (intro set_eqI iffI)
  fix a assume "a \<in> set (live xs)"
  then obtain i where "i < length xs" "xs ! i = Some a"
    by (auto simp: set_live in_set_conv_nth)
  with assms show "a \<in> {a. \<exists>i. slot xs i = Some a}"
    by (auto intro!: exI [of _ "of_nat i"] simp: slot_nth)
next
  fix a assume "a \<in> {a. \<exists>i. slot xs i = Some a}"
  then show "a \<in> set (live xs)"
    by (auto simp: set_live slot_def split: if_splits) (metis nth_mem)
qed

section \<open>Little-endian bytes\<close>

text \<open>\<open>to_le_bytes\<close> and \<open>from_le_bytes\<close> of the unsigned integer types, by width in bytes.\<close>

fun le_nat :: "nat \<Rightarrow> nat \<Rightarrow> bytes" where
  "le_nat 0 x = []"
| "le_nat (Suc n) x = of_nat (x mod 256) # le_nat n (x div 256)"

fun nat_le :: "bytes \<Rightarrow> nat" where
  "nat_le [] = 0"
| "nat_le (b # bs) = unat b + 256 * nat_le bs"

definition le16 :: "u16 \<Rightarrow> bytes" where "le16 w = le_nat 2 (unat w)"
definition le32 :: "u32 \<Rightarrow> bytes" where "le32 w = le_nat 4 (unat w)"
definition le64 :: "u64 \<Rightarrow> bytes" where "le64 w = le_nat 8 (unat w)"

lemma length_le_nat [simp]: "length (le_nat n x) = n"
  by (induction n arbitrary: x) auto

lemma length_le [simp]: "length (le16 a) = 2" "length (le32 b) = 4" "length (le64 c) = 8"
  by (simp_all add: le16_def le32_def le64_def)

lemma nat_le_le_nat: "nat_le (le_nat n x) = x mod 256 ^ n"
proof (induction n arbitrary: x)
  case 0
  then show ?case by simp
next
  case (Suc n)
  have "unat (of_nat (x mod 256) :: u8) = x mod 256"
    by (simp add: unat_of_nat take_bit_eq_mod)
  then show ?case
    using mod_mult2_eq [of x 256 "256 ^ n"] by (simp add: Suc.IH)
qed

lemma nat_le_bound: "nat_le bs < 256 ^ length bs"
proof (induction bs)
  case (Cons b bs)
  have "unat b < 256" using unat_bounds [of b] by simp
  with Cons show ?case by simp
qed simp

lemma le_nat_nat_le: "length bs = n \<Longrightarrow> le_nat n (nat_le bs) = bs"
proof (induction bs arbitrary: n)
  case (Cons b bs)
  have "unat b < 256" using unat_bounds [of b] by simp
  with Cons show ?case by auto
qed simp

lemma nat_le_inverse [le_simps]:
  "of_nat (nat_le (le16 a)) = a" "of_nat (nat_le (le32 b)) = b" "of_nat (nat_le (le64 c)) = c"
  using unat_bounds [of a] unat_bounds [of b] unat_bounds [of c]
  by (simp_all add: le16_def le32_def le64_def nat_le_le_nat)

lemma le_inject [simp]:
  "le16 a = le16 a' \<longleftrightarrow> a = a'" "le32 b = le32 b' \<longleftrightarrow> b = b'" "le64 c = le64 c' \<longleftrightarrow> c = c'"
  by (metis nat_le_inverse)+

section \<open>UTF-8\<close>

text \<open>
  A Rust string is the list of its bytes; \<open>utf8_valid\<close> is the check of \<open>String::from_utf8\<close> (the table of
  well-formed byte sequences of the Unicode standard).
\<close>

definition in_range :: "nat \<Rightarrow> nat \<Rightarrow> u8 \<Rightarrow> bool" where
  "in_range lo hi b \<longleftrightarrow> lo \<le> unat b \<and> unat b \<le> hi"

definition cont :: "u8 \<Rightarrow> bool" where "cont = in_range 128 191"

function utf8_valid :: "bytes \<Rightarrow> bool" where
  "utf8_valid bs =
     (case bs of [] \<Rightarrow> True
      | b # r \<Rightarrow>
          if in_range 0 127 b then utf8_valid r
          else if in_range 194 223 b then
            (case r of c1 # r' \<Rightarrow> cont c1 \<and> utf8_valid r' | _ \<Rightarrow> False)
          else if in_range 224 239 b then
            (case r of c1 # c2 # r' \<Rightarrow>
               in_range (if unat b = 224 then 160 else 128) (if unat b = 237 then 159 else 191) c1
               \<and> cont c2 \<and> utf8_valid r'
             | _ \<Rightarrow> False)
          else if in_range 240 244 b then
            (case r of c1 # c2 # c3 # r' \<Rightarrow>
               in_range (if unat b = 240 then 144 else 128) (if unat b = 244 then 143 else 191) c1
               \<and> cont c2 \<and> cont c3 \<and> utf8_valid r'
             | _ \<Rightarrow> False)
          else False)"
  by pat_completeness auto
termination by (relation "measure length") auto

lemma utf8_valid_Nil [simp]: "utf8_valid []"
  by (subst utf8_valid.simps) simp

lemma utf8_valid_ascii: "(\<And>b. b \<in> set bs \<Longrightarrow> unat b < 128) \<Longrightarrow> utf8_valid bs"
proof (induction bs)
  case (Cons b bs)
  then have "unat b < 128" "utf8_valid bs" by auto
  then show ?case by (subst utf8_valid.simps) (simp add: in_range_def)
qed simp

declare utf8_valid.simps [simp del]

section \<open>Bounded insertion into sorted lists\<close>

lemma take_insort_take:
  assumes "sorted xs"
  shows "take k (insort x (take k xs)) = take k (insort x xs)"
  using assms
proof (induction xs arbitrary: k)
  case (Cons y ys)
  show ?case
  proof (cases k)
    case (Suc k')
    with Cons show ?thesis
      by (cases k') auto
  qed simp
qed simp

text \<open>The \<open>k\<close> least of a list of candidates, in order.\<close>

definition topk :: "nat \<Rightarrow> 'a::linorder list \<Rightarrow> 'a list" where
  "topk k xs = take k (sort xs)"

lemma topk_snoc: "topk k (xs @ [x]) = take k (insort x (topk k xs))"
proof -
  have "sort (xs @ [x]) = insort x (sort xs)"
    by (rule properties_for_sort) (simp_all add: sorted_insort)
  then show ?thesis
    by (simp add: topk_def take_insort_take)
qed

lemma topk_perm: "mset xs = mset ys \<Longrightarrow> topk k xs = topk k ys"
  by (metis topk_def properties_for_sort mset_sort sorted_sort)

lemma sorted_topk [simp]: "sorted (topk k xs)"
  by (simp add: topk_def sorted_wrt_take)

lemma length_topk [simp]: "length (topk k xs) = min k (length xs)"
  by (simp add: topk_def)

lemma set_topk_subset: "set (topk k xs) \<subseteq> set xs"
  by (metis topk_def set_sort set_take_subset)

lemma topk_least:
  assumes "x \<in> set (topk k xs)" "y \<in> set xs" "y \<notin> set (topk k xs)"
  shows "x \<le> y"
proof -
  have "sort xs = topk k xs @ drop k (sort xs)"
    by (simp add: topk_def)
  moreover from this assms have "y \<in> set (drop k (sort xs))"
    by (metis Un_iff set_append set_sort)
  ultimately show ?thesis
    using assms(1) by (metis sorted_append sorted_sort)
qed

section \<open>Ordered maps\<close>

text \<open>A \<open>BTreeMap\<close> is the list of its entries in the order of the keys.\<close>

fun btree_insert :: "'k::linorder \<Rightarrow> 'v \<Rightarrow> ('k \<times> 'v) list \<Rightarrow> ('k \<times> 'v) list" where
  "btree_insert k v [] = [(k, v)]"
| "btree_insert k v ((k', v') # m) =
     (if k < k' then (k, v) # (k', v') # m
      else if k = k' then (k, v) # m
      else (k', v') # btree_insert k v m)"

definition btree_ok :: "('k::linorder \<times> 'v) list \<Rightarrow> bool" where
  "btree_ok m \<longleftrightarrow> sorted_wrt (<) (map fst m)"

lemma btree_insert_keys: "set (map fst (btree_insert k v m)) = insert k (set (map fst m))"
  by (induction k v m rule: btree_insert.induct) (simp_all add: insert_commute)

lemma btree_insert_ok [simp]: "btree_ok m \<Longrightarrow> btree_ok (btree_insert k v m)"
proof (induction m)
  case (Cons p m)
  obtain k' v' where p: "p = (k', v')" by fastforce
  have "\<forall>x \<in> set (map fst (btree_insert k v m)). k' < x" if "k' < k"
    using Cons.prems p that unfolding btree_insert_keys by (auto simp: btree_ok_def)
  with Cons p show ?case
    by (auto simp: btree_ok_def not_less)
qed (simp add: btree_ok_def)

lemma map_of_btree_insert: "btree_ok m \<Longrightarrow> map_of (btree_insert k v m) = (map_of m)(k \<mapsto> v)"
proof (induction m)
  case (Cons p m)
  obtain k' v' where p: "p = (k', v')" by fastforce
  with Cons show ?case by (auto simp: btree_ok_def fun_eq_iff)
qed simp

lemma btree_insert_map: "map (map_prod id f) (btree_insert k v m) = btree_insert k (f v) (map (map_prod id f) m)"
  by (induction k v m rule: btree_insert.induct) simp_all

lemma btree_filter_ok: "btree_ok m \<Longrightarrow> btree_ok (filter (\<lambda>p. P (fst p)) m)"
  by (induction m) (auto simp: btree_ok_def)

lemma map_of_filter_keys: "map_of (filter (\<lambda>p. P (fst p)) m) k = (if P k then map_of m k else None)"
  by (induction m) auto

lemma btree_last_key: "btree_ok m \<Longrightarrow> m \<noteq> [] \<Longrightarrow> map_of m k \<noteq> None \<Longrightarrow> k \<le> fst (last m)"
proof -
  assume ok: "btree_ok m" and m: "m \<noteq> []" and k: "map_of m k \<noteq> None"
  obtain v where v: "(k, v) \<in> set m" using k by (auto dest: map_of_SomeD)
  have split: "m = butlast m @ [last m]" using m by simp
  have "sorted_wrt (<) (map fst (butlast m) @ [fst (last m)])" using ok m by (metis btree_ok_def append_butlast_last_id list.simps(8,9) map_append)
  then have "\<forall>x \<in> set (butlast m). fst x < fst (last m)" by (auto simp: sorted_wrt_append)
  moreover have "(k, v) \<in> set (butlast m) \<or> (k, v) = last m" using v split by (metis Un_iff empty_iff empty_set set_ConsD set_append)
  ultimately show ?thesis by (metis fst_conv less_imp_le order_refl)
qed

lemma btree_last_value: "btree_ok m \<Longrightarrow> m \<noteq> [] \<Longrightarrow> map_of m (fst (last m)) = Some (snd (last m))"
proof (induction m)
  case (Cons p m)
  then show ?case by (cases p; cases "m = []") (auto simp: btree_ok_def)
qed simp

end
