(* ===== verification/Valori_Core.thy ===== *)
theory Valori_Core
  imports Prelude
begin

text \<open>
  The crate \<open>valori-core\<close> and the leaf modules of \<open>valori-kernel\<close> everything else is written with:
  identifiers and their sentinels (\<open>id.rs\<close>), graph kinds (\<open>enums.rs\<close>), the version counter
  (\<open>version.rs\<close>), execution ids with their byte and text forms, the limits of \<open>config.rs\<close>, the
  error type of \<open>error.rs\<close>, and the fixed-point formats and scalar operations of \<open>fxp/\<close>.
  Transparent newtypes (\<open>RecordId(u32)\<close>, \<open>Version(u64)\<close>, \<open>FxpScalar(i32)\<close>) are the integer they wrap.
\<close>

section \<open>Identifiers\<close>

type_synonym RecordId = u32
type_synonym NodeId = u32
type_synonym EdgeId = u32
type_synonym NamespaceId = u16
type_synonym KeyId = bytes
type_synonym FxpScalar = i32
type_synonym FxpVector = "i32 list"

definition DEFAULT_NS :: NamespaceId where "DEFAULT_NS = 0"
definition NS_LIST_NIL :: u32 where "NS_LIST_NIL = 4294967295"
definition MAX_NAMESPACES :: nat where "MAX_NAMESPACES = 1024"

lemma unat_NS_LIST_NIL [simp]: "unat NS_LIST_NIL = 4294967295"
  by (simp add: NS_LIST_NIL_def)

text \<open>\<open>Version::next\<close> and \<open>ClusterEpoch::next\<close>: \<open>checked_add(1).expect(..)\<close>, so \<open>None\<close> is a panic.\<close>

definition version_next :: "u64 \<Rightarrow> u64 option" where
  "version_next v = (if unat v + 1 < 2 ^ 64 then Some (v + 1) else None)"

definition epoch_next :: "u64 \<Rightarrow> u64 option" where
  "epoch_next e = (if unat e + 1 < 2 ^ 64 then Some (e + 1) else None)"

lemma version_next_Some:
  assumes "version_next v = Some w"
  shows "unat w = unat v + 1"
proof -
  have "unat v + 1 < 2 ^ 64" "w = v + 1"
    using assms by (simp_all add: version_next_def split: if_splits)
  then show ?thesis
    by (simp add: unat_word_ariths)
qed

section \<open>Graph kinds\<close>

datatype NodeKind = NK_Record | NK_Concept | NK_Agent | NK_User | NK_Tool | NK_Document | NK_Chunk

datatype EdgeKind = EK_Relation | EK_Follows | EK_InEpisode | EK_ByAgent | EK_Mentions
  | EK_RefersTo | EK_ParentOf | EK_Supersedes | EK_Contradicts

fun node_kind_u8 :: "NodeKind \<Rightarrow> u8" where
  "node_kind_u8 NK_Record = 0"
| "node_kind_u8 NK_Concept = 1"
| "node_kind_u8 NK_Agent = 2"
| "node_kind_u8 NK_User = 3"
| "node_kind_u8 NK_Tool = 4"
| "node_kind_u8 NK_Document = 5"
| "node_kind_u8 NK_Chunk = 6"

fun edge_kind_u8 :: "EdgeKind \<Rightarrow> u8" where
  "edge_kind_u8 EK_Relation = 0"
| "edge_kind_u8 EK_Follows = 1"
| "edge_kind_u8 EK_InEpisode = 2"
| "edge_kind_u8 EK_ByAgent = 3"
| "edge_kind_u8 EK_Mentions = 4"
| "edge_kind_u8 EK_RefersTo = 5"
| "edge_kind_u8 EK_ParentOf = 6"
| "edge_kind_u8 EK_Supersedes = 7"
| "edge_kind_u8 EK_Contradicts = 8"

definition node_kind_from_u8 :: "u8 \<Rightarrow> NodeKind option" where
  "node_kind_from_u8 v =
     (if v = 0 then Some NK_Record else if v = 1 then Some NK_Concept
      else if v = 2 then Some NK_Agent else if v = 3 then Some NK_User
      else if v = 4 then Some NK_Tool else if v = 5 then Some NK_Document
      else if v = 6 then Some NK_Chunk else None)"

definition edge_kind_from_u8 :: "u8 \<Rightarrow> EdgeKind option" where
  "edge_kind_from_u8 v =
     (if v = 0 then Some EK_Relation else if v = 1 then Some EK_Follows
      else if v = 2 then Some EK_InEpisode else if v = 3 then Some EK_ByAgent
      else if v = 4 then Some EK_Mentions else if v = 5 then Some EK_RefersTo
      else if v = 6 then Some EK_ParentOf else if v = 7 then Some EK_Supersedes
      else if v = 8 then Some EK_Contradicts else None)"

lemma node_kind_roundtrip [simp]: "node_kind_from_u8 (node_kind_u8 k) = Some k"
  by (cases k) (simp_all add: node_kind_from_u8_def)

lemma edge_kind_roundtrip [simp]: "edge_kind_from_u8 (edge_kind_u8 k) = Some k"
  by (cases k) (simp_all add: edge_kind_from_u8_def)

section \<open>Limits and errors\<close>

definition FRAC_BITS :: nat where "FRAC_BITS = 16"
definition SCALE :: i32 where "SCALE = push_bit FRAC_BITS 1"
definition MAX_METADATA_SIZE :: nat where "MAX_METADATA_SIZE = 64 * 1024"
definition MAX_DIM :: nat where "MAX_DIM = 65536"
definition MAX_RECORDS :: nat where "MAX_RECORDS = 10000000"
definition MAX_NODES :: nat where "MAX_NODES = 50000000"
definition MAX_EDGES :: nat where "MAX_EDGES = 200000000"
definition MAX_META_ENTRIES :: nat where "MAX_META_ENTRIES = 1000000"

datatype KernelError = InvalidCommand u8 | DimensionMismatch nat nat
  | InvalidPayloadLength nat nat | IoError | DistanceOverflow | QueryOutOfRange i32
  | CapacityExceeded | NotFound | Overflow | InvalidInput | InvalidOperation
  | MetadataTooLarge | NotImplemented

type_synonym 'a kres = "(KernelError, 'a) res"

section \<open>Execution ids\<close>

record ExecutionId =
  hi :: u64
  lo :: u64

definition be64 :: "u64 \<Rightarrow> bytes" where "be64 w = rev (le64 w)"
definition of_be64 :: "bytes \<Rightarrow> u64" where "of_be64 bs = of_nat (nat_le (rev bs))"

definition exec_id_from_bytes :: "bytes \<Rightarrow> ExecutionId" where
  "exec_id_from_bytes b = \<lparr>hi = of_be64 (take 8 b), lo = of_be64 (take 8 (drop 8 b))\<rparr>"

definition exec_id_to_bytes :: "ExecutionId \<Rightarrow> bytes" where
  "exec_id_to_bytes e = be64 (hi e) @ be64 (lo e)"

definition hex_digit :: "nat \<Rightarrow> char" where
  "hex_digit d = ''0123456789abcdef'' ! d"

fun hex_nat :: "nat \<Rightarrow> nat \<Rightarrow> string" where
  "hex_nat 0 x = []"
| "hex_nat (Suc n) x = hex_nat n (x div 16) @ [hex_digit (x mod 16)]"

definition exec_id_display :: "ExecutionId \<Rightarrow> string" where
  "exec_id_display e = hex_nat 16 (unat (hi e)) @ hex_nat 16 (unat (lo e))"

definition digit_value :: "char \<Rightarrow> nat option" where
  "digit_value c =
     (let v = of_char c :: nat in
      if 48 \<le> v \<and> v \<le> 57 then Some (v - 48)
      else if 97 \<le> v \<and> v \<le> 102 then Some (v - 87)
      else if 65 \<le> v \<and> v \<le> 70 then Some (v - 55)
      else None)"

fun digits_value :: "nat \<Rightarrow> string \<Rightarrow> nat option" where
  "digits_value acc [] = Some acc"
| "digits_value acc (c # cs) =
     (case digit_value c of None \<Rightarrow> None | Some d \<Rightarrow> digits_value (16 * acc + d) cs)"

text \<open>
  \<open>u64::from_str_radix(s, 16)\<close> of the standard library: an optional leading plus sign, then at
  least one digit, rejecting values of more than 64 bits.
\<close>

definition from_str_radix16 :: "string \<Rightarrow> u64 option" where
  "from_str_radix16 s =
     (let ds = (if s \<noteq> [] \<and> hd s = CHR ''+'' then tl s else s) in
      if ds = [] then None
      else case digits_value 0 ds of
             None \<Rightarrow> None
           | Some v \<Rightarrow> if v < 2 ^ 64 then Some (of_nat v) else None)"

definition exec_id_from_str :: "string \<Rightarrow> ExecutionId option" where
  "exec_id_from_str s =
     (if length s \<noteq> 32 \<or> \<not> list_all (\<lambda>c. of_char c < (128 :: nat)) s then None
      else case (from_str_radix16 (take 16 s), from_str_radix16 (drop 16 s)) of
             (Some h, Some l) \<Rightarrow> Some \<lparr>hi = h, lo = l\<rparr>
           | _ \<Rightarrow> None)"

lemma of_be64_be64 [simp]: "of_be64 (be64 w) = w"
  by (simp add: of_be64_def be64_def le_simps)

lemma exec_id_bytes_roundtrip: "exec_id_from_bytes (exec_id_to_bytes e) = e"
  by (simp add: exec_id_from_bytes_def exec_id_to_bytes_def be64_def of_be64_def le_simps)

lemma hex_digit_props:
  assumes "d < 16"
  shows "digit_value (hex_digit d) = Some d \<and> of_char (hex_digit d) < (128 :: nat)
    \<and> hex_digit d \<noteq> CHR ''+''"
proof -
  have "d \<in> set [0..<16]" using assms by simp
  moreover have "\<forall>d\<in>set [0..<16]. digit_value (hex_digit d) = Some d
      \<and> of_char (hex_digit d) < (128 :: nat) \<and> hex_digit d \<noteq> CHR ''+''"
    by (simp add: upt_rec hex_digit_def digit_value_def)
  ultimately show ?thesis by blast
qed

lemma digits_value_append:
  "digits_value acc (s @ t) = (case digits_value acc s of None \<Rightarrow> None | Some v \<Rightarrow> digits_value v t)"
  by (induction s arbitrary: acc) (auto split: option.splits)

lemma length_hex_nat [simp]: "length (hex_nat n x) = n"
  by (induction n arbitrary: x) auto

lemma hex_nat_chars:
  "c \<in> set (hex_nat n x) \<Longrightarrow> of_char c < (128 :: nat) \<and> c \<noteq> CHR ''+''"
  by (induction n arbitrary: x) (auto simp: hex_digit_props)

lemma digits_value_hex_nat: "digits_value 0 (hex_nat n x) = Some (x mod 16 ^ n)"
proof (induction n arbitrary: x)
  case (Suc n)
  have "digits_value 0 (hex_nat (Suc n) x) = Some (16 * ((x div 16) mod 16 ^ n) + x mod 16)"
    using hex_digit_props [of "x mod 16"] by (simp add: digits_value_append Suc.IH)
  also have "16 * ((x div 16) mod 16 ^ n) + x mod 16 = x mod 16 ^ Suc n"
    using mod_mult2_eq [of x 16 "16 ^ n"] by simp
  finally show ?case .
qed simp

lemma from_str_radix16_hex: "from_str_radix16 (hex_nat 16 (unat (w :: u64))) = Some w"
proof -
  let ?s = "hex_nat 16 (unat w)"
  have ne: "?s \<noteq> []" by (metis length_hex_nat list.size(3) zero_neq_numeral)
  then have "hd ?s \<noteq> CHR ''+''"
    using hex_nat_chars [of "hd ?s" 16 "unat w"] by simp
  with ne have "from_str_radix16 ?s =
      (case digits_value 0 ?s of None \<Rightarrow> None
       | Some v \<Rightarrow> if v < 2 ^ 64 then Some (of_nat v) else None)"
    by (simp add: from_str_radix16_def Let_def)
  moreover have "unat w < 18446744073709551616" using unat_bounds [of w] by simp
  ultimately show ?thesis
    by (simp add: digits_value_hex_nat)
qed

lemma exec_id_text_roundtrip: "exec_id_from_str (exec_id_display e) = Some e"
proof -
  have "list_all (\<lambda>c. of_char c < (128 :: nat)) (exec_id_display e)"
    by (auto simp: list_all_iff exec_id_display_def dest: hex_nat_chars)
  then show ?thesis
    by (simp add: exec_id_from_str_def exec_id_display_def from_str_radix16_hex)
qed

section \<open>Fixed-point formats and scalar operations\<close>

text \<open>Strings of configuration values are lists of Unicode code points.\<close>

definition Q16_16_ID :: u8 where "Q16_16_ID = 1"
definition Q8_8_ID :: u8 where "Q8_8_ID = 2"
definition Q32_32_ID :: u8 where "Q32_32_ID = 3"
definition ACTIVE_FORMAT_ID :: u8 where "ACTIVE_FORMAT_ID = Q16_16_ID"

definition codepoints :: "string \<Rightarrow> nat list" where "codepoints s = map of_char s"

definition format_name :: "u8 \<Rightarrow> nat list option" where
  "format_name i =
     (if i = 1 then Some (codepoints ''q16.16'')
      else if i = 2 then Some (codepoints ''q8.8'')
      else if i = 3 then Some (codepoints ''q32.32'')
      else None)"

definition is_whitespace :: "nat \<Rightarrow> bool" where
  "is_whitespace c \<longleftrightarrow> (9 \<le> c \<and> c \<le> 13) \<or> c = 32 \<or> c = 133 \<or> c = 160 \<or> c = 5760
     \<or> (8192 \<le> c \<and> c \<le> 8202) \<or> c = 8232 \<or> c = 8233 \<or> c = 8239 \<or> c = 8287 \<or> c = 12288"

definition trim :: "nat list \<Rightarrow> nat list" where
  "trim s = rev (dropWhile is_whitespace (rev (dropWhile is_whitespace s)))"

definition to_ascii_lowercase :: "nat list \<Rightarrow> nat list" where
  "to_ascii_lowercase = map (\<lambda>c. if 65 \<le> c \<and> c \<le> 90 then c + 32 else c)"

definition parse_format :: "nat list \<Rightarrow> u8 option" where
  "parse_format name =
     (let s = to_ascii_lowercase (trim name) in
      if s = codepoints ''q16.16'' then Some Q16_16_ID
      else if s = codepoints ''q8.8'' then Some Q8_8_ID
      else if s = codepoints ''q32.32'' then Some Q32_32_ID
      else None)"

lemma format_name_parse: "format_name i = Some n \<Longrightarrow> parse_format n = Some i"
  by (auto simp: format_name_def parse_format_def Let_def codepoints_def trim_def
      to_ascii_lowercase_def is_whitespace_def Q16_16_ID_def Q8_8_ID_def Q32_32_ID_def
      split: if_splits)

definition I32_MAX :: int where "I32_MAX = 2 ^ 31 - 1"
definition I32_MIN :: int where "I32_MIN = - (2 ^ 31)"
definition I64_MAX :: int where "I64_MAX = 2 ^ 63 - 1"
definition I64_MIN :: int where "I64_MIN = - (2 ^ 63)"

definition clamp_i32 :: "int \<Rightarrow> int" where
  "clamp_i32 x = max I32_MIN (min I32_MAX x)"

definition fxp_add :: "FxpScalar \<Rightarrow> FxpScalar \<Rightarrow> FxpScalar" where
  "fxp_add a b = word_of_int (clamp_i32 (sint a + sint b))"

definition fxp_sub :: "FxpScalar \<Rightarrow> FxpScalar \<Rightarrow> FxpScalar" where
  "fxp_sub a b = word_of_int (clamp_i32 (sint a - sint b))"

definition fxp_mul :: "FxpScalar \<Rightarrow> FxpScalar \<Rightarrow> FxpScalar" where
  "fxp_mul a b =
     (let product = (scast a :: i64) * scast b;
          shifted = signed_drop_bit FRAC_BITS product
      in if sint shifted > I32_MAX then word_of_int I32_MAX
         else if sint shifted < I32_MIN then word_of_int I32_MIN
         else scast shifted)"

lemmas i_bounds = I32_MAX_def I32_MIN_def I64_MAX_def I64_MIN_def

lemma sint_i32_bounds: "- (2 ^ 31) \<le> sint (a :: i32)" "sint (a :: i32) < 2 ^ 31"
  using sint_ge [of a] sint_lt [of a] by simp_all

lemma sint_word_of_int_i32: "- (2 ^ 31) \<le> x \<Longrightarrow> x < 2 ^ 31 \<Longrightarrow> sint (word_of_int x :: i32) = x"
  by (simp add: sint_sbintrunc' signed_take_bit_int_eq_self)

lemma sint_word_of_int_i64: "- (2 ^ 63) \<le> x \<Longrightarrow> x < 2 ^ 63 \<Longrightarrow> sint (word_of_int x :: i64) = x"
  by (simp add: sint_sbintrunc' signed_take_bit_int_eq_self)

lemma sint_scast_i64 [simp]: "sint (scast (a :: i32) :: i64) = sint a"
  by (rule sint_up_scast) (simp add: is_up)

lemma abs_mult_bound:
  fixes x y :: int
  assumes "\<bar>x\<bar> \<le> a" "\<bar>y\<bar> \<le> b"
  shows "\<bar>x * y\<bar> \<le> a * b"
  using assms by (simp add: abs_mult mult_mono')

lemma sint_mul_i64: "sint ((scast (a :: i32) :: i64) * scast (b :: i32)) = sint a * sint b"
proof -
  have "\<bar>sint a * sint b\<bar> \<le> 2 ^ 31 * 2 ^ 31"
    using sint_i32_bounds [of a] sint_i32_bounds [of b] by (intro abs_mult_bound) auto
  then have "- (2 ^ 63) \<le> sint a * sint b \<and> sint a * sint b < 2 ^ 63"
    by (simp add: abs_le_iff)
  then show ?thesis
    by (simp add: sint_word_mult signed_take_bit_int_eq_self)
qed

lemma clamp_i32_range: "- (2 ^ 31) \<le> clamp_i32 x" "clamp_i32 x < 2 ^ 31"
  by (auto simp: clamp_i32_def i_bounds)

lemma sint_clamp_i32 [simp]: "sint (word_of_int (clamp_i32 x) :: i32) = clamp_i32 x"
  using clamp_i32_range by (rule sint_word_of_int_i32)

lemma scast_i64_i32: "- (2 ^ 31) \<le> sint w \<Longrightarrow> sint w < 2 ^ 31 \<Longrightarrow> sint (scast (w :: i64) :: i32) = sint w"
  by (simp add: signed_scast_eq signed_take_bit_int_eq_self)

text \<open>C29: Fixed-point multiplication is the exact product, floored to 16 fractional bits and clamped
  to the range of a 32-bit scalar: it never wraps.\<close>

theorem fxp_mul_exact: "sint (fxp_mul a b) = clamp_i32 ((sint a * sint b) div 2 ^ 16)"
proof -
  let ?p = "signed_drop_bit FRAC_BITS ((scast a :: i64) * scast b)"
  have "sint ?p = drop_bit 16 (sint a * sint b)"
    by (simp add: sint_signed_drop_bit_eq sint_mul_i64 FRAC_BITS_def)
  then have p: "sint ?p = (sint a * sint b) div 2 ^ 16"
    by (simp only: drop_bit_eq_div)
  show ?thesis
    unfolding fxp_mul_def Let_def p
    using scast_i64_i32 [of ?p] p by (auto simp: clamp_i32_def i_bounds)
qed

end
