(* ===== verification/Ns_List.thy ===== *)
theory Ns_List
  imports Valori_Core
begin

text \<open>
  The intrusive, doubly linked per-namespace lists of the kernel (\<open>next_in_ns\<close>/\<open>prev_in_ns\<close> of
  records and of graph nodes, with one head per namespace). The two mutations of such a list,
  linking a freshly allocated slot in front and unlinking a slot by its stored neighbours, are
  written in \<open>state/kernel.rs\<close> once for records and once for nodes; \<open>link_front\<close> and \<open>unlink_slots\<close>
  are their common text, over the field setters of the slot type. The locale \<open>links\<close> states what
  the setters of a slot type have to satisfy and proves once that both mutations maintain the list.
\<close>

section \<open>List segments\<close>

text \<open>
  \<open>dseg h p c xs m\<close>: starting at cursor \<open>c\<close>, whose predecessor is \<open>p\<close>, the links \<open>h\<close> (next and
  previous of every live slot) run through exactly \<open>xs\<close> and arrive at \<open>m\<close>.
\<close>

fun dseg :: "(u32 \<Rightarrow> (u32 \<times> u32) option) \<Rightarrow> u32 \<Rightarrow> u32 \<Rightarrow> u32 list \<Rightarrow> u32 \<Rightarrow> bool" where
  "dseg h p c [] m \<longleftrightarrow> c = m"
| "dseg h p c (x # xs) m \<longleftrightarrow> c = x \<and> x \<noteq> NS_LIST_NIL \<and> (\<exists>n. h x = Some (n, p) \<and> dseg h x n xs m)"

abbreviation dll :: "(u32 \<Rightarrow> (u32 \<times> u32) option) \<Rightarrow> u32 \<Rightarrow> u32 list \<Rightarrow> bool" where
  "dll h c xs \<equiv> dseg h NS_LIST_NIL c xs NS_LIST_NIL"

lemma dseg_append:
  "dseg h p c (xs @ ys) m \<longleftrightarrow> (\<exists>k. dseg h p c xs k \<and> dseg h (last (p # xs)) k ys m)"
  by (induction xs arbitrary: p c) auto

lemma dseg_cong:
  "(\<And>x. x \<in> set xs \<Longrightarrow> h x = h' x) \<Longrightarrow> dseg h p c xs m \<longleftrightarrow> dseg h' p c xs m"
  by (induction xs arbitrary: p c) auto

lemma dseg_members: "dseg h p c xs m \<Longrightarrow> x \<in> set xs \<Longrightarrow> x \<noteq> NS_LIST_NIL \<and> h x \<noteq> None"
  by (induction xs arbitrary: p c) auto

lemma dll_Nil [simp]: "dll h NS_LIST_NIL xs \<longleftrightarrow> xs = []"
  by (cases xs) auto

lemma dll_unique: "dseg h p c xs NS_LIST_NIL \<Longrightarrow> dseg h q c ys NS_LIST_NIL \<Longrightarrow> xs = ys"
proof (induction xs arbitrary: p q c ys)
  case Nil
  then show ?case by (cases ys) auto
next
  case (Cons x xs)
  then obtain y ys' where ys: "ys = y # ys'" by (cases ys) auto
  from Cons.prems(1) obtain n where n: "c = x" "h x = Some (n, p)" "dseg h x n xs NS_LIST_NIL"
    by auto
  with Cons.prems(2) ys have "y = x" "dseg h x n ys' NS_LIST_NIL"
    by auto
  with Cons.IH [OF n(3)] ys show ?case by simp
qed

definition relink_next :: "u32 \<Rightarrow> u32 \<Rightarrow> (u32 \<Rightarrow> (u32 \<times> u32) option) \<Rightarrow> u32 \<Rightarrow> (u32 \<times> u32) option"
  where "relink_next p n h = h(p := map_option (\<lambda>(_, b). (n, b)) (h p))"

definition relink_prev :: "u32 \<Rightarrow> u32 \<Rightarrow> (u32 \<Rightarrow> (u32 \<times> u32) option) \<Rightarrow> u32 \<Rightarrow> (u32 \<times> u32) option"
  where "relink_prev n p h = h(n := map_option (\<lambda>(a, _). (a, p)) (h n))"

lemma dseg_relink_prev:
  assumes "dseg h x n ys m" "distinct ys" "n \<noteq> m"
  shows "dseg (relink_prev n p h) p n ys m"
proof (cases ys)
  case (Cons y ys')
  with assms obtain k where "n = y" "y \<noteq> NS_LIST_NIL" "h y = Some (k, x)" "dseg h y k ys' m"
    by auto
  moreover have "dseg (relink_prev y p h) y k ys' m \<longleftrightarrow> dseg h y k ys' m"
    using assms(2) Cons by (intro dseg_cong) (auto simp: relink_prev_def)
  ultimately show ?thesis
    using Cons by (simp add: relink_prev_def)
qed (use assms in simp)

lemma dseg_relink_next:
  assumes "dseg h p c (xs @ [q]) m" "distinct (xs @ [q])"
  shows "dseg (relink_next q n h) p c (xs @ [q]) n"
proof -
  from assms(1) have xs: "dseg h p c xs q" and q: "q \<noteq> NS_LIST_NIL" "h q = Some (m, last (p # xs))"
    by (auto simp: dseg_append split: if_splits)
  have "dseg (relink_next q n h) p c xs q"
    using xs assms(2) by (subst dseg_cong [where h' = h]) (auto simp: relink_next_def)
  with q show ?thesis
    by (auto simp: dseg_append relink_next_def)
qed

text \<open>Unlinking one element, at the level of the links.\<close>

definition unlink_links :: "u32 \<Rightarrow> u32 \<Rightarrow> (u32 \<Rightarrow> (u32 \<times> u32) option) \<Rightarrow> u32 \<Rightarrow> (u32 \<times> u32) option"
  where "unlink_links p n h =
    (let h' = (if p \<noteq> NS_LIST_NIL then relink_next p n h else h)
     in if n \<noteq> NS_LIST_NIL then relink_prev n p h' else h')"

lemma unlink_links_other: "x \<noteq> p \<Longrightarrow> x \<noteq> n \<Longrightarrow> unlink_links p n h x = h x"
  by (simp add: unlink_links_def Let_def relink_next_def relink_prev_def)

lemma dll_unlink:
  assumes "dll h c (xs @ x # ys)" "distinct (xs @ x # ys)" "h x = Some (n, p)"
  shows "dll (unlink_links p n h) (if p = NS_LIST_NIL then n else c) (xs @ ys)"
    and "p \<in> insert NS_LIST_NIL (set xs)" "n \<in> insert NS_LIST_NIL (set ys)"
proof -
  from assms(1,3) have xs: "dseg h NS_LIST_NIL c xs x" and p: "p = last (NS_LIST_NIL # xs)"
    and ys: "dseg h x n ys NS_LIST_NIL"
    by (auto simp: dseg_append)
  have n: "n = NS_LIST_NIL \<longleftrightarrow> ys = []" "ys \<noteq> [] \<Longrightarrow> n = hd ys"
    using ys by (cases ys; auto)+
  have p': "p = NS_LIST_NIL \<longleftrightarrow> xs = []"
    using dseg_members [OF xs, of "last xs"] p by (cases "xs = []") auto
  show "p \<in> insert NS_LIST_NIL (set xs)" "n \<in> insert NS_LIST_NIL (set ys)"
    using p n by auto
  let ?h1 = "if p \<noteq> NS_LIST_NIL then relink_next p n h else h"
  have disj: "set xs \<inter> set ys = {}" and pin: "p = NS_LIST_NIL \<or> p \<in> set xs"
    and nin: "ys \<noteq> [] \<Longrightarrow> n \<in> set ys"
    using assms(2) p n by auto
  have pys: "p \<notin> set ys" and nxs: "ys \<noteq> [] \<Longrightarrow> n \<notin> set xs"
    using disj pin nin dseg_members [OF ys, of p] by blast+
  have ys1: "dseg ?h1 x n ys NS_LIST_NIL"
    using ys pys by (subst dseg_cong [where h' = h]) (auto simp: relink_next_def)
  have xs1: "dseg ?h1 NS_LIST_NIL (if p = NS_LIST_NIL then n else c) xs n"
  proof (cases xs rule: rev_cases)
    case (snoc as q)
    with p p' xs assms(2) show ?thesis
      using dseg_relink_next [of h NS_LIST_NIL c as q x n] by auto
  qed (use p' in simp)
  show "dll (unlink_links p n h) (if p = NS_LIST_NIL then n else c) (xs @ ys)"
  proof (cases "ys = []")
    case True
    with xs1 n show ?thesis by (simp add: unlink_links_def split: if_splits)
  next
    case False
    then have "dseg (relink_prev n p ?h1) p n ys NS_LIST_NIL"
      using ys1 n assms(2) by (intro dseg_relink_prev) auto
    moreover have "dseg (relink_prev n p ?h1) NS_LIST_NIL (if p = NS_LIST_NIL then n else c) xs n"
      using xs1 nxs False by (subst dseg_cong [where h' = ?h1]) (auto simp: relink_prev_def)
    ultimately show ?thesis
      using False n p by (auto simp: unlink_links_def dseg_append)
  qed
qed

lemma dll_push:
  assumes "dll h old xs" "x \<notin> set xs" "distinct xs" "x \<noteq> NS_LIST_NIL"
    and "h' = (if old = NS_LIST_NIL then h else relink_prev old x h)(x \<mapsto> (old, NS_LIST_NIL))"
  shows "dll h' x (x # xs)"
proof (cases "xs = []")
  case True
  with assms show ?thesis by simp
next
  case False
  with assms(1) have old: "old \<noteq> NS_LIST_NIL" "old \<in> set xs"
    by (cases xs; auto)+
  have "dseg (relink_prev old x h) x old xs NS_LIST_NIL"
    using assms(1,3) old by (intro dseg_relink_prev) auto
  then have "dseg h' x old xs NS_LIST_NIL"
    using assms(2,5) old by (subst dseg_cong [where h' = "relink_prev old x h"]) auto
  then show ?thesis
    using assms(4,5) by simp
qed

section \<open>The two mutations\<close>

definition link_front :: "(u32 \<Rightarrow> 'a \<Rightarrow> 'a) \<Rightarrow> (u32 \<Rightarrow> 'a \<Rightarrow> 'a) \<Rightarrow> u32 \<Rightarrow> u32 \<Rightarrow> 'a option list
    \<Rightarrow> 'a option list kres" where
  "link_front set_nxt set_prv i old_head xs =
     (case slot xs i of
        None \<Rightarrow> Panic
      | Some _ \<Rightarrow>
          (let ys = upd_slot (\<lambda>r. set_prv NS_LIST_NIL (set_nxt old_head r)) i xs in
           if old_head \<noteq> NS_LIST_NIL
           then (if unat old_head < length ys then Ok (upd_slot (set_prv i) old_head ys) else Panic)
           else Ok ys))"

definition unlink_slots :: "(u32 \<Rightarrow> 'a \<Rightarrow> 'a) \<Rightarrow> (u32 \<Rightarrow> 'a \<Rightarrow> 'a) \<Rightarrow> u32 \<Rightarrow> u32 \<Rightarrow> 'a option list
    \<Rightarrow> 'a option list" where
  "unlink_slots set_nxt set_prv prev next xs =
     (let ys = (if prev \<noteq> NS_LIST_NIL then upd_slot (set_nxt next) prev xs else xs)
      in if next \<noteq> NS_LIST_NIL then upd_slot (set_prv prev) next ys else ys)"

lemma length_unlink_slots [simp]: "length (unlink_slots sn sp p n xs) = length xs"
  by (simp add: unlink_slots_def Let_def)

lemma link_front_length: "link_front sn sp i old xs = Ok ys \<Longrightarrow> length ys = length xs"
  by (auto simp: link_front_def Let_def split: option.splits if_splits)

text \<open>Every field the setters leave alone keeps its value in every slot.\<close>

lemma link_front_frame:
  assumes "link_front sn sp i old xs = Ok ys" "\<And>n a. f (sn n a) = f a" "\<And>n a. f (sp n a) = f a"
  shows "map_option f (slot ys j) = map_option f (slot xs j)"
  using assms by (auto simp: link_front_def Let_def slot_simps option.map_comp comp_def
      split: option.splits if_splits)

lemma unlink_slots_frame:
  assumes "\<And>n a. f (sn n a) = f a" "\<And>n a. f (sp n a) = f a"
  shows "map_option f (slot (unlink_slots sn sp p n xs) j) = map_option f (slot xs j)"
  using assms by (auto simp: unlink_slots_def Let_def slot_simps option.map_comp comp_def)

section \<open>The interface of a slot type with links\<close>

definition ptrs :: "('a \<Rightarrow> u32) \<Rightarrow> ('a \<Rightarrow> u32) \<Rightarrow> 'a option list \<Rightarrow> u32 \<Rightarrow> (u32 \<times> u32) option" where
  "ptrs nxt prv xs i = map_option (\<lambda>a. (nxt a, prv a)) (slot xs i)"

locale links =
  fixes nxt prv :: "'a \<Rightarrow> u32" and set_nxt set_prv :: "u32 \<Rightarrow> 'a \<Rightarrow> 'a"
  assumes nxt_set_nxt [simp]: "nxt (set_nxt n a) = n"
    and prv_set_nxt [simp]: "prv (set_nxt n a) = prv a"
    and nxt_set_prv [simp]: "nxt (set_prv n a) = nxt a"
    and prv_set_prv [simp]: "prv (set_prv n a) = n"
begin

lemma ptrs_upd_nxt: "ptrs nxt prv (upd_slot (set_nxt n) p xs) = relink_next p n (ptrs nxt prv xs)"
  by (rule ext) (auto simp: ptrs_def relink_next_def slot_simps option.map_comp comp_def)

lemma ptrs_upd_prv: "ptrs nxt prv (upd_slot (set_prv p) n xs) = relink_prev n p (ptrs nxt prv xs)"
  by (rule ext) (auto simp: ptrs_def relink_prev_def slot_simps option.map_comp comp_def)

lemma ptrs_unlink_slots:
  "ptrs nxt prv (unlink_slots set_nxt set_prv p n xs) = unlink_links p n (ptrs nxt prv xs)"
  by (simp add: unlink_slots_def unlink_links_def Let_def ptrs_upd_nxt ptrs_upd_prv)

text \<open>Unlinking by the stored neighbours removes exactly that element.\<close>

lemma unlink_slots_dll:
  assumes "dll (ptrs nxt prv xs) c (as @ x # bs)" "distinct (as @ x # bs)" "slot xs x = Some a"
  shows "dll (ptrs nxt prv (unlink_slots set_nxt set_prv (prv a) (nxt a) xs))
           (if prv a = NS_LIST_NIL then nxt a else c) (as @ bs)"
  unfolding ptrs_unlink_slots
  by (rule dll_unlink(1) [OF assms(1,2)]) (simp add: ptrs_def assms(3))

lemma unlink_neighbours:
  assumes "dll (ptrs nxt prv xs) c (as @ x # bs)" "distinct (as @ x # bs)" "slot xs x = Some a"
  shows "prv a \<in> insert NS_LIST_NIL (set as)" "nxt a \<in> insert NS_LIST_NIL (set bs)"
  using dll_unlink(2,3) [OF assms(1,2), of "nxt a" "prv a"] by (simp_all add: ptrs_def assms(3))

text \<open>A list that shares no element with the neighbours is not affected.\<close>

lemma unlink_slots_dll_other:
  assumes "dll (ptrs nxt prv xs) c ys" "p \<notin> set ys" "n \<notin> set ys"
  shows "dll (ptrs nxt prv (unlink_slots set_nxt set_prv p n xs)) c ys"
  unfolding ptrs_unlink_slots using assms
  by (subst dseg_cong [where h' = "ptrs nxt prv xs"]) (auto intro: unlink_links_other)

text \<open>Linking a slot in front of a list that does not contain it.\<close>

lemma link_front_ok:
  assumes "slot xs i = Some a" "dll (ptrs nxt prv xs) old ids"
  shows "\<exists>ys. link_front set_nxt set_prv i old xs = Ok ys"
proof (cases "old = NS_LIST_NIL")
  case False
  with assms(2) have "old \<in> set ids" by (cases ids) auto
  then have "slot xs old \<noteq> None"
    using dseg_members [OF assms(2), of old] by (auto simp: ptrs_def)
  then show ?thesis
    using assms(1) False by (auto simp: link_front_def Let_def dest: slot_SomeD)
qed (use assms in \<open>simp add: link_front_def Let_def\<close>)

lemma link_front_ptrs:
  assumes "link_front set_nxt set_prv i old xs = Ok ys" "i \<noteq> old"
  shows "ptrs nxt prv ys = (if old = NS_LIST_NIL then ptrs nxt prv xs
           else relink_prev old i (ptrs nxt prv xs))(i \<mapsto> (old, NS_LIST_NIL))"
  using assms by (auto simp: link_front_def Let_def ptrs_def slot_simps relink_prev_def fun_eq_iff
      option.map_comp comp_def split: option.splits if_splits)

lemma link_front_dll:
  assumes "link_front set_nxt set_prv i old xs = Ok ys" "dll (ptrs nxt prv xs) old ids"
    and "i \<notin> set ids" "distinct ids" "i \<noteq> NS_LIST_NIL"
  shows "dll (ptrs nxt prv ys) i (i # ids)"
proof -
  have "i \<noteq> old"
    using assms(2,3,5) by (cases ids) auto
  then show ?thesis
    using assms link_front_ptrs by (intro dll_push) auto
qed

lemma link_front_dll_other:
  assumes "link_front set_nxt set_prv i old xs = Ok ys" "dll (ptrs nxt prv xs) c jds"
    and "i \<notin> set jds" "old \<notin> set jds" "i \<noteq> old"
  shows "dll (ptrs nxt prv ys) c jds"
  using assms link_front_ptrs [OF assms(1,5)]
  by (subst dseg_cong [where h' = "ptrs nxt prv xs"]) (auto simp: relink_prev_def)

end

section \<open>One list per namespace\<close>

text \<open>
  \<open>ns_lists h heads M\<close>: for every namespace \<open>ns\<close> the list from \<open>heads ! ns\<close> runs through exactly the
  slots \<open>M ns\<close>, each once, and no slot belongs to two namespaces.
\<close>

definition ns_lists :: "(u32 \<Rightarrow> (u32 \<times> u32) option) \<Rightarrow> u32 list \<Rightarrow> (nat \<Rightarrow> u32 set) \<Rightarrow> bool" where
  "ns_lists h heads M \<longleftrightarrow> length heads = MAX_NAMESPACES \<and>
     (\<forall>a b. a \<noteq> b \<longrightarrow> M a \<inter> M b = {}) \<and>
     (\<forall>ns < MAX_NAMESPACES. \<exists>xs. distinct xs \<and> dll h (heads ! ns) xs \<and> set xs = M ns)"

lemma ns_listsE:
  assumes "ns_lists h heads M" "ns < MAX_NAMESPACES"
  obtains xs where "distinct xs" "dll h (heads ! ns) xs" "set xs = M ns"
  using assms unfolding ns_lists_def by blast

lemma ns_lists_length: "ns_lists h heads M \<Longrightarrow> length heads = MAX_NAMESPACES"
  by (simp add: ns_lists_def)

lemma ns_lists_disjoint: "ns_lists h heads M \<Longrightarrow> a \<noteq> b \<Longrightarrow> M a \<inter> M b = {}"
  by (simp add: ns_lists_def)

lemma ns_lists_cong:
  assumes "ns_lists h heads M" "\<And>ns x. ns < MAX_NAMESPACES \<Longrightarrow> x \<in> M ns \<Longrightarrow> h' x = h x" "M' = M"
  shows "ns_lists h' heads M'"
proof -
  have "\<exists>xs. distinct xs \<and> dll h' (heads ! ns) xs \<and> set xs = M ns" if ns: "ns < MAX_NAMESPACES" for ns
  proof -
    obtain xs where xs: "distinct xs" "dll h (heads ! ns) xs" "set xs = M ns"
      using ns_listsE [OF assms(1) ns] .
    then have "dll h' (heads ! ns) xs"
      using assms(2) [OF ns] by (subst dseg_cong [where h' = h]) auto
    with xs show ?thesis by blast
  qed
  with assms show ?thesis by (simp add: ns_lists_def)
qed

context links
begin

lemma ns_lists_link:
  assumes L: "ns_lists (ptrs nxt prv xs) heads M" and ns: "ns < MAX_NAMESPACES"
    and a: "slot xs i = Some a" and fresh: "\<And>m. i \<notin> M m" "i \<noteq> NS_LIST_NIL"
  shows "\<exists>ys. link_front set_nxt set_prv i (heads ! ns) xs = Ok ys \<and>
    ns_lists (ptrs nxt prv ys) (heads[ns := i]) (M(ns := insert i (M ns)))"
proof -
  obtain ids where ids: "distinct ids" "dll (ptrs nxt prv xs) (heads ! ns) ids" "set ids = M ns"
    using ns_listsE [OF L ns] .
  obtain ys where ys: "link_front set_nxt set_prv i (heads ! ns) xs = Ok ys"
    using link_front_ok [OF a ids(2)] by blast
  have old: "heads ! ns = NS_LIST_NIL \<or> heads ! ns \<in> M ns"
    using ids(2,3) by (cases ids) auto
  have ne: "i \<noteq> heads ! ns" using old fresh by metis
  have "\<exists>zs. distinct zs \<and> dll (ptrs nxt prv ys) (heads[ns := i] ! m) zs
      \<and> set zs = (M(ns := insert i (M ns))) m" if m: "m < MAX_NAMESPACES" for m
  proof (cases "m = ns")
    case True
    have "dll (ptrs nxt prv ys) i (i # ids)"
      using ids fresh by (intro link_front_dll [OF ys]) auto
    then show ?thesis
      using True ids fresh ns_lists_length [OF L] ns by (intro exI [of _ "i # ids"]) auto
  next
    case False
    obtain zs where zs: "distinct zs" "dll (ptrs nxt prv xs) (heads ! m) zs" "set zs = M m"
      using ns_listsE [OF L m] .
    have "heads ! ns \<notin> set zs"
      using old ns_lists_disjoint [OF L, of m ns] False zs(3) dseg_members [OF zs(2), of NS_LIST_NIL]
      by auto
    then have "dll (ptrs nxt prv ys) (heads ! m) zs"
      using zs fresh ne by (intro link_front_dll_other [OF ys]) auto
    then show ?thesis using False zs by auto
  qed
  moreover have "\<forall>c d. c \<noteq> d \<longrightarrow> (M(ns := insert i (M ns))) c \<inter> (M(ns := insert i (M ns))) d = {}"
    using ns_lists_disjoint [OF L] fresh by auto
  ultimately have "ns_lists (ptrs nxt prv ys) (heads[ns := i]) (M(ns := insert i (M ns)))"
    using ns_lists_length [OF L] by (simp add: ns_lists_def)
  with ys show ?thesis by blast
qed

lemma ns_lists_unlink:
  assumes L: "ns_lists (ptrs nxt prv xs) heads M" and ns: "ns < MAX_NAMESPACES"
    and a: "slot xs i = Some a" and i: "i \<in> M ns"
  shows "ns_lists (ptrs nxt prv (unlink_slots set_nxt set_prv (prv a) (nxt a) xs))
    (if prv a = NS_LIST_NIL then heads[ns := nxt a] else heads) (M(ns := M ns - {i}))"
proof -
  let ?ys = "unlink_slots set_nxt set_prv (prv a) (nxt a) xs"
  let ?heads = "if prv a = NS_LIST_NIL then heads[ns := nxt a] else heads"
  obtain ids where ids: "distinct ids" "dll (ptrs nxt prv xs) (heads ! ns) ids" "set ids = M ns"
    using ns_listsE [OF L ns] .
  then obtain as bs where split: "ids = as @ i # bs" using i by (metis split_list)
  note nb = unlink_neighbours [OF ids(2) [unfolded split] ids(1) [unfolded split] a]
  have "\<exists>zs. distinct zs \<and> dll (ptrs nxt prv ?ys) (?heads ! m) zs \<and> set zs = (M(ns := M ns - {i})) m"
    if m: "m < MAX_NAMESPACES" for m
  proof (cases "m = ns")
    case True
    have "dll (ptrs nxt prv ?ys) (if prv a = NS_LIST_NIL then nxt a else heads ! ns) (as @ bs)"
      using unlink_slots_dll [OF ids(2) [unfolded split] ids(1) [unfolded split] a] .
    moreover have "set (as @ bs) = M ns - {i}" "distinct (as @ bs)"
      using ids split by auto
    ultimately show ?thesis
      using True ns ns_lists_length [OF L] by (intro exI [of _ "as @ bs"]) auto
  next
    case False
    obtain zs where zs: "distinct zs" "dll (ptrs nxt prv xs) (heads ! m) zs" "set zs = M m"
      using ns_listsE [OF L m] .
    have "set as \<union> set bs \<subseteq> M ns" using ids(3) split by auto
    then have "prv a \<notin> set zs" "nxt a \<notin> set zs"
      using nb ns_lists_disjoint [OF L, of m ns] False zs(3) dseg_members [OF zs(2), of NS_LIST_NIL]
      by auto
    then have "dll (ptrs nxt prv ?ys) (heads ! m) zs"
      using zs(2) by (intro unlink_slots_dll_other)
    with False zs show ?thesis by auto
  qed
  moreover have "\<forall>c d. c \<noteq> d \<longrightarrow> (M(ns := M ns - {i})) c \<inter> (M(ns := M ns - {i})) d = {}"
    using ns_lists_disjoint [OF L] by auto
  ultimately show ?thesis
    using ns_lists_length [OF L] by (simp add: ns_lists_def)
qed

end

end
