(* ===== verification/Graph.thy ===== *)
theory Graph
  imports Ns_List
begin

text \<open>
  \<open>valori-kernel/src/graph\<close> and the edge and node deletion of \<open>state/kernel.rs\<close>: node and edge pools,
  the two singly linked adjacency lists (outgoing edges of a node through \<open>next_out\<close>, incoming edges
  through \<open>next_in\<close>), insertion, unlinking and cascading deletion. The loops that chase pointers are
  \<open>partial_function\<close>s, so a cyclic list makes them diverge as the source would. The two directions
  are two instances of one interface, the locale \<open>adjacency\<close>.
\<close>

section \<open>Nodes and edges\<close>

record GraphNode =
  n_id :: NodeId
  n_kind :: NodeKind
  n_record :: "RecordId option"
  n_first_out :: "EdgeId option"
  n_first_in :: "EdgeId option"
  n_namespace_id :: u16
  n_next_in_ns :: u32
  n_prev_in_ns :: u32

definition node_new :: "NodeId \<Rightarrow> NodeKind \<Rightarrow> RecordId option \<Rightarrow> u16 \<Rightarrow> GraphNode" where
  "node_new i kind rec ns =
     \<lparr>n_id = i, n_kind = kind, n_record = rec, n_first_out = None, n_first_in = None,
      n_namespace_id = ns, n_next_in_ns = NS_LIST_NIL, n_prev_in_ns = NS_LIST_NIL\<rparr>"

record GraphEdge =
  e_id :: EdgeId
  e_kind :: EdgeKind
  e_from :: NodeId
  e_to :: NodeId
  e_next_out :: "EdgeId option"
  e_next_in :: "EdgeId option"

definition edge_new :: "EdgeId \<Rightarrow> EdgeKind \<Rightarrow> NodeId \<Rightarrow> NodeId \<Rightarrow> GraphEdge" where
  "edge_new i kind from to =
     \<lparr>e_id = i, e_kind = kind, e_from = from, e_to = to, e_next_out = None, e_next_in = None\<rparr>"

type_synonym NodePool = "GraphNode option list"
type_synonym EdgePool = "GraphEdge option list"

definition node_pool_insert :: "GraphNode \<Rightarrow> NodePool \<Rightarrow> NodeId \<times> NodePool" where
  "node_pool_insert n p = (let i = of_nat (length p) in (i, p @ [Some (n\<lparr>n_id := i\<rparr>)]))"

definition edge_pool_insert :: "GraphEdge \<Rightarrow> EdgePool \<Rightarrow> EdgeId \<times> EdgePool" where
  "edge_pool_insert e p = (let i = of_nat (length p) in (i, p @ [Some (e\<lparr>e_id := i\<rparr>)]))"

definition node_pool_delete :: "NodeId \<Rightarrow> NodePool \<Rightarrow> NodePool kres" where
  "node_pool_delete i p =
     (if unat i \<ge> length p \<or> p ! unat i = None then Err NotFound else Ok (clear_slot i p))"

definition edge_pool_delete :: "EdgeId \<Rightarrow> EdgePool \<Rightarrow> EdgePool kres" where
  "edge_pool_delete i p =
     (if unat i \<ge> length p \<or> p ! unat i = None then Err NotFound else Ok (clear_slot i p))"

definition is_allocated :: "'a option list \<Rightarrow> u32 \<Rightarrow> bool" where
  "is_allocated p i \<longleftrightarrow> unat i < length p \<and> p ! unat i \<noteq> None"

definition live_count :: "'a option list \<Rightarrow> nat" where
  "live_count p = length (filter (\<lambda>s. s \<noteq> None) p)"

lemma node_pool_delete_slot:
  "node_pool_delete i p = (case slot p i of None \<Rightarrow> Err NotFound | Some _ \<Rightarrow> Ok (clear_slot i p))"
  by (auto simp: node_pool_delete_def slot_def split: option.splits)

lemma edge_pool_delete_slot:
  "edge_pool_delete i p = (case slot p i of None \<Rightarrow> Err NotFound | Some _ \<Rightarrow> Ok (clear_slot i p))"
  by (auto simp: edge_pool_delete_def slot_def split: option.splits)

lemma is_allocated_slot: "is_allocated p i \<longleftrightarrow> slot p i \<noteq> None"
  by (simp add: is_allocated_def slot_def)

lemma live_count_live: "live_count p = length (live p)"
proof (induction p)
  case (Cons s p)
  then show ?case by (cases s) (simp_all add: live_count_def)
qed (simp add: live_count_def)

definition set_n_next :: "u32 \<Rightarrow> GraphNode \<Rightarrow> GraphNode" where
  "set_n_next v n = n\<lparr>n_next_in_ns := v\<rparr>"
definition set_n_prev :: "u32 \<Rightarrow> GraphNode \<Rightarrow> GraphNode" where
  "set_n_prev v n = n\<lparr>n_prev_in_ns := v\<rparr>"
definition set_first_out :: "EdgeId option \<Rightarrow> GraphNode \<Rightarrow> GraphNode" where
  "set_first_out c n = n\<lparr>n_first_out := c\<rparr>"
definition set_first_in :: "EdgeId option \<Rightarrow> GraphNode \<Rightarrow> GraphNode" where
  "set_first_in c n = n\<lparr>n_first_in := c\<rparr>"
definition set_next_out :: "EdgeId option \<Rightarrow> GraphEdge \<Rightarrow> GraphEdge" where
  "set_next_out c e = e\<lparr>e_next_out := c\<rparr>"
definition set_next_in :: "EdgeId option \<Rightarrow> GraphEdge \<Rightarrow> GraphEdge" where
  "set_next_in c e = e\<lparr>e_next_in := c\<rparr>"

lemmas graph_setters = set_n_next_def set_n_prev_def set_first_out_def set_first_in_def
  set_next_out_def set_next_in_def

interpretation nl: links n_next_in_ns n_prev_in_ns set_n_next set_n_prev
  by unfold_locales (simp_all add: graph_setters)

section \<open>Adjacency lists\<close>

text \<open>\<open>add_edge\<close>: both endpoints must exist; the edge is prepended to both lists.\<close>

definition add_edge :: "EdgeKind \<Rightarrow> NodeId \<Rightarrow> NodeId \<Rightarrow> NodePool \<Rightarrow> EdgePool
    \<Rightarrow> (EdgeId \<times> NodePool \<times> EdgePool) kres" where
  "add_edge kind from to nodes edges =
     (if slot nodes from = None \<or> slot nodes to = None then Err NotFound
      else
        let head_out = Option.bind (slot nodes from) n_first_out;
            head_in = Option.bind (slot nodes to) n_first_in;
            edge = (edge_new 0 kind from to)\<lparr>e_next_out := head_out, e_next_in := head_in\<rparr>;
            (edge_id, edges') = edge_pool_insert edge edges;
            nodes' = upd_slot (set_first_out (Some edge_id)) from nodes;
            nodes'' = upd_slot (set_first_in (Some edge_id)) to nodes'
        in Ok (edge_id, nodes'', edges'))"

text \<open>One step of \<open>OutEdgeIterator\<close>/\<open>InEdgeIterator\<close>: the edge yielded and the next cursor.\<close>

definition edge_iter_next :: "(GraphEdge \<Rightarrow> EdgeId option) \<Rightarrow> EdgePool \<Rightarrow> EdgeId option
    \<Rightarrow> (GraphEdge \<times> EdgeId option) option" where
  "edge_iter_next nxt edges current =
     (case current of None \<Rightarrow> None
      | Some c \<Rightarrow> (case slot edges c of None \<Rightarrow> None | Some e \<Rightarrow> Some (e, nxt e)))"

text \<open>
  The loops of \<open>_delete_node\<close> and \<open>_delete_edge\<close>: collecting a list from its head, and looking for an
  edge while remembering its predecessor (\<open>Some None\<close>: the end was reached without finding it).
\<close>

partial_function (option) collect_edges :: "EdgeId option \<Rightarrow> (GraphEdge \<Rightarrow> EdgeId option)
    \<Rightarrow> EdgePool \<Rightarrow> EdgeId list \<Rightarrow> EdgeId list option" where
  "collect_edges cur nxt edges acc =
     (case cur of None \<Rightarrow> Some acc
      | Some eid \<Rightarrow> collect_edges (Option.bind (slot edges eid) nxt) nxt edges (acc @ [eid]))"

partial_function (option) scan_edges :: "EdgeId option \<Rightarrow> EdgeId option \<Rightarrow> (GraphEdge \<Rightarrow> EdgeId option)
    \<Rightarrow> EdgePool \<Rightarrow> EdgeId \<Rightarrow> EdgeId option option option" where
  "scan_edges cur prev nxt edges edge_id =
     (case cur of None \<Rightarrow> Some None
      | Some c \<Rightarrow>
          if c = edge_id then Some (Some prev)
          else scan_edges (Option.bind (slot edges c) nxt) (Some c) nxt edges edge_id)"

text \<open>One of the two symmetric blocks of \<open>_delete_edge\<close>: unlink the edge from its owner's list.\<close>

definition detach :: "(GraphEdge \<Rightarrow> EdgeId option) \<Rightarrow> (EdgeId option \<Rightarrow> GraphEdge \<Rightarrow> GraphEdge)
    \<Rightarrow> (GraphNode \<Rightarrow> EdgeId option) \<Rightarrow> (EdgeId option \<Rightarrow> GraphNode \<Rightarrow> GraphNode)
    \<Rightarrow> EdgeId \<Rightarrow> NodeId \<Rightarrow> NodePool \<times> EdgePool \<Rightarrow> (NodePool \<times> EdgePool) kres" where
  "detach nxt set_nxt first set_first edge_id owner g =
     (case g of (nodes, edges) \<Rightarrow>
        (case scan_edges (Option.bind (slot nodes owner) first) None nxt edges edge_id of
           None \<Rightarrow> Diverges
         | Some None \<Rightarrow> Ok (nodes, edges)
         | Some (Some prev) \<Rightarrow>
             (let next = Option.bind (slot edges edge_id) nxt in
              case prev of
                Some p \<Rightarrow> (if slot edges p = None then Panic
                            else Ok (nodes, upd_slot (set_nxt next) p edges))
              | None \<Rightarrow> (if slot nodes owner = None then Panic
                          else Ok (upd_slot (set_first next) owner nodes, edges)))))"

definition delete_edge :: "EdgeId \<Rightarrow> NodePool \<times> EdgePool \<Rightarrow> (NodePool \<times> EdgePool) kres" where
  "delete_edge edge_id g =
     (case slot (snd g) edge_id of
        None \<Rightarrow> Err NotFound
      | Some edge \<Rightarrow>
          res_bind (detach e_next_out set_next_out n_first_out set_first_out edge_id (e_from edge) g)
            (\<lambda>g. res_bind (detach e_next_in set_next_in n_first_in set_first_in edge_id (e_to edge) g)
            (\<lambda>(nodes, edges). res_bind (edge_pool_delete edge_id edges)
            (\<lambda>edges. Ok (nodes, edges)))))"

fun delete_edges :: "EdgeId list \<Rightarrow> NodePool \<times> EdgePool \<Rightarrow> (NodePool \<times> EdgePool) kres" where
  "delete_edges [] g = Ok g"
| "delete_edges (eid # eids) g =
     (if slot (snd g) eid \<noteq> None then res_bind (delete_edge eid g) (delete_edges eids)
      else delete_edges eids g)"

section \<open>Chains\<close>

fun chain :: "(u32 \<Rightarrow> u32 option option) \<Rightarrow> u32 option \<Rightarrow> u32 list \<Rightarrow> bool" where
  "chain h c [] \<longleftrightarrow> c = None"
| "chain h c (x # xs) \<longleftrightarrow> c = Some x \<and> (\<exists>n. h x = Some n \<and> chain h n xs)"

fun chain_to :: "(u32 \<Rightarrow> u32 option option) \<Rightarrow> u32 option \<Rightarrow> u32 list \<Rightarrow> u32 option \<Rightarrow> bool" where
  "chain_to h c [] m \<longleftrightarrow> c = m"
| "chain_to h c (x # xs) m \<longleftrightarrow> c = Some x \<and> (\<exists>n. h x = Some n \<and> chain_to h n xs m)"

definition nexts :: "(GraphEdge \<Rightarrow> EdgeId option) \<Rightarrow> EdgePool \<Rightarrow> u32 \<Rightarrow> u32 option option" where
  "nexts nxt edges x = map_option nxt (slot edges x)"

lemma chain_append: "chain h c (xs @ ys) \<longleftrightarrow> (\<exists>m. chain_to h c xs m \<and> chain h m ys)"
  by (induction xs arbitrary: c) auto

lemma chain_to_append: "chain_to h c (xs @ ys) k \<longleftrightarrow> (\<exists>m. chain_to h c xs m \<and> chain_to h m ys k)"
  by (induction xs arbitrary: c) auto

lemma chain_cong: "(\<And>x. x \<in> set xs \<Longrightarrow> h x = h' x) \<Longrightarrow> chain h c xs \<longleftrightarrow> chain h' c xs"
  by (induction xs arbitrary: c) auto

lemma chain_to_cong: "(\<And>x. x \<in> set xs \<Longrightarrow> h x = h' x) \<Longrightarrow> chain_to h c xs m \<longleftrightarrow> chain_to h' c xs m"
  by (induction xs arbitrary: c) auto

lemma nexts_bind: "nexts nxt es x = Some n \<Longrightarrow> Option.bind (slot es x) nxt = n"
  by (auto simp: nexts_def)

lemma collect_edges_chain:
  "chain (nexts nxt es) c xs \<Longrightarrow> collect_edges c nxt es acc = Some (acc @ xs)"
proof (induction xs arbitrary: acc c)
  case Nil
  then show ?case by (simp add: collect_edges.simps)
next
  case (Cons x xs)
  then obtain n where "c = Some x" "nexts nxt es x = Some n" "chain (nexts nxt es) n xs"
    by auto
  with Cons.IH [of n "acc @ [x]"] show ?case
    by (subst collect_edges.simps) (simp add: nexts_bind)
qed

lemma scan_edges_chain:
  assumes "chain (nexts nxt es) c (as @ x # bs)" "x \<notin> set as"
  shows "scan_edges c p nxt es x = Some (Some (if as = [] then p else Some (last as)))"
  using assms
proof (induction as arbitrary: p c)
  case Nil
  then show ?case by (simp add: scan_edges.simps)
next
  case (Cons a as)
  then obtain n where "c = Some a" "nexts nxt es a = Some n" "chain (nexts nxt es) n (as @ x # bs)"
    by auto
  with Cons.IH [of n "Some a"] Cons.prems(2) show ?case
    by (subst scan_edges.simps) (auto simp: nexts_bind)
qed

section \<open>The interface of one direction of adjacency\<close>

text \<open>
  \<open>adj own nxt first D nodes edges\<close>: from the head \<open>first\<close> of every live node, the links \<open>nxt\<close> run
  through exactly the live edges the node owns, those in \<open>D\<close> excepted, each once.
\<close>

definition owned :: "(GraphEdge \<Rightarrow> NodeId) \<Rightarrow> EdgePool \<Rightarrow> NodeId \<Rightarrow> EdgeId set" where
  "owned own es i = {x. \<exists>e. slot es x = Some e \<and> own e = i}"

definition adj :: "(GraphEdge \<Rightarrow> NodeId) \<Rightarrow> (GraphEdge \<Rightarrow> EdgeId option) \<Rightarrow> (GraphNode \<Rightarrow> EdgeId option)
    \<Rightarrow> EdgeId set \<Rightarrow> NodePool \<Rightarrow> EdgePool \<Rightarrow> bool" where
  "adj own nxt first D ns es \<longleftrightarrow>
     (\<forall>i n. slot ns i = Some n \<longrightarrow>
        (\<exists>xs. distinct xs \<and> chain (nexts nxt es) (first n) xs \<and> set xs = owned own es i - D))"

lemma adjE:
  assumes "adj own nxt first D ns es" "slot ns i = Some n"
  obtains xs where "distinct xs" "chain (nexts nxt es) (first n) xs" "set xs = owned own es i - D"
  using assms unfolding adj_def by blast

lemma adj_frame:
  assumes "\<And>i. map_option first (slot ns' i) = map_option first (slot ns i)"
    and "\<And>x. map_option (\<lambda>e. (own e, nxt e)) (slot es' x) = map_option (\<lambda>e. (own e, nxt e)) (slot es x)"
    and "adj own nxt first D ns es"
  shows "adj own nxt first D ns' es'"
proof -
  have "nexts nxt es' = nexts nxt es"
  proof
    fix x
    show "nexts nxt es' x = nexts nxt es x"
      using assms(2) [of x, THEN arg_cong, of "map_option snd"]
      by (simp add: nexts_def option.map_comp comp_def)
  qed
  moreover have "owned own es' i = owned own es i" for i
  proof -
    have "(\<exists>e. slot es' x = Some e \<and> own e = i) \<longleftrightarrow> (\<exists>e. slot es x = Some e \<and> own e = i)" for x
      using assms(2) [of x] by (cases "slot es x"; cases "slot es' x") auto
    then show ?thesis by (simp add: owned_def)
  qed
  moreover have "\<exists>n. slot ns i = Some n \<and> first n = first n'" if "slot ns' i = Some n'" for i n'
    using that assms(1) [of i] by (cases "slot ns i") auto
  ultimately show ?thesis
    using assms(3) unfolding adj_def by metis
qed

lemma adj_clear_node: "adj own nxt first D ns es \<Longrightarrow> adj own nxt first D (clear_slot i ns) es"
  by (auto simp: adj_def slot_simps)

lemma adj_new_node:
  assumes "adj own nxt first D ns es" "length ns < 2 ^ 32" "first n = None"
    and "owned own es (of_nat (length ns)) = {}"
  shows "adj own nxt first D (ns @ [Some n]) es"
  using assms by (auto simp: adj_def slot_simps intro!: exI [of _ "[]"])

lemma adj_clear_edge:
  assumes "adj own nxt first {x} ns es"
  shows "adj own nxt first {} ns (clear_slot x es)"
  unfolding adj_def
proof (intro allI impI)
  fix i n assume "slot ns i = Some n"
  with assms obtain xs where xs: "distinct xs" "chain (nexts nxt es) (first n) xs"
    "set xs = owned own es i - {x}" by (rule adjE)
  have "chain (nexts nxt (clear_slot x es)) (first n) xs"
    using xs by (subst chain_cong [where h' = "nexts nxt es"]) (auto simp: nexts_def slot_simps)
  moreover have "owned own (clear_slot x es) i = owned own es i - {x}"
    by (auto simp: owned_def slot_simps split: if_splits)
  ultimately show "\<exists>xs. distinct xs \<and> chain (nexts nxt (clear_slot x es)) (first n) xs
      \<and> set xs = owned own (clear_slot x es) i - {}"
    using xs by auto
qed

text \<open>Fields a direction does not touch keep their value in every slot.\<close>

lemma detach_frame:
  assumes "detach nxt sn first sf eid o' (ns, es) = Ok (ns', es')"
    and "\<And>c e. f (sn c e) = f e" "\<And>c n. g (sf c n) = g n"
  shows "map_option f (slot es' x) = map_option f (slot es x)"
    and "map_option g (slot ns' i) = map_option g (slot ns i)"
    and "length ns' = length ns" "length es' = length es"
  using assms by (auto simp: detach_def Let_def slot_simps option.map_comp comp_def
      split: option.splits if_splits)

locale adjacency =
  fixes own :: "GraphEdge \<Rightarrow> NodeId"
    and nxt :: "GraphEdge \<Rightarrow> EdgeId option" and set_nxt :: "EdgeId option \<Rightarrow> GraphEdge \<Rightarrow> GraphEdge"
    and first :: "GraphNode \<Rightarrow> EdgeId option" and set_first :: "EdgeId option \<Rightarrow> GraphNode \<Rightarrow> GraphNode"
  assumes nxt_set [simp]: "nxt (set_nxt c e) = c"
    and own_set [simp]: "own (set_nxt c e) = own e"
    and first_set [simp]: "first (set_first c n) = c"
begin

lemma owned_upd [simp]: "owned own (upd_slot (set_nxt c) p es) i = owned own es i"
  by (auto simp: owned_def slot_simps split: if_splits)

lemma nexts_upd: "slot es p \<noteq> None \<Longrightarrow> nexts nxt (upd_slot (set_nxt c) p es) = (nexts nxt es)(p \<mapsto> c)"
  by (auto simp: nexts_def slot_simps fun_eq_iff)

text \<open>Detaching an edge that is not first: its predecessor takes over the successor.\<close>

lemma chain_bypass:
  assumes "chain h c (as @ p # x # bs)" "distinct (as @ p # x # bs)" "h x = Some m"
  shows "chain (h(p \<mapsto> m)) c (as @ p # bs)"
proof -
  from assms obtain k where as: "chain_to h c as k" "k = Some p" and bs: "chain h m bs"
    by (auto simp: chain_append)
  have "chain_to (h(p \<mapsto> m)) c as k"
    using as(1) by (rule chain_to_cong [THEN iffD1, rotated]) (use assms(2) in auto)
  moreover have "chain (h(p \<mapsto> m)) m bs"
    using bs by (rule chain_cong [THEN iffD1, rotated]) (use assms(2) in auto)
  ultimately show ?thesis using as(2) by (auto simp: chain_append)
qed

lemma detach_ok:
  assumes adj: "adj own nxt first {} ns es" and e: "slot es eid = Some e"
    and n: "slot ns (own e) = Some n"
  shows "\<exists>ns' es'. detach nxt set_nxt first set_first eid (own e) (ns, es) = Ok (ns', es')
           \<and> adj own nxt first {eid} ns' es'"
proof -
  obtain xs where xs: "distinct xs" "chain (nexts nxt es) (first n) xs" "set xs = owned own es (own e)"
    using adjE [OF adj n] by auto
  have "eid \<in> set xs" using xs(3) e by (auto simp: owned_def)
  then obtain as bs where split: "xs = as @ eid # bs" "eid \<notin> set as"
    by (meson split_list_first)
  have scan: "scan_edges (first n) None nxt es eid
      = Some (Some (if as = [] then None else Some (last as)))"
    using scan_edges_chain [of nxt es "first n" as eid bs None] xs(2) split by auto
  have other: "\<exists>ys. distinct ys \<and> chain (nexts nxt es) (first m) ys \<and> set ys = owned own es i - {eid}
      \<and> eid \<notin> set ys" if "slot ns i = Some m" "i \<noteq> own e" for i m
    using adjE [OF adj that(1)] that(2) e by (fastforce simp: owned_def)
  have nx: "nexts nxt es eid = Some (nxt e)" using e by (simp add: nexts_def)
  show ?thesis
  proof (cases as rule: rev_cases)
    case Nil
    then have bs: "chain (nexts nxt es) (nxt e) bs" "set bs = owned own es (own e) - {eid}"
      using xs split nx by auto
    have "adj own nxt first {eid} (upd_slot (set_first (nxt e)) (own e) ns) es"
      unfolding adj_def
    proof (intro allI impI)
      fix i m assume "slot (upd_slot (set_first (nxt e)) (own e) ns) i = Some m"
      then show "\<exists>ys. distinct ys \<and> chain (nexts nxt es) (first m) ys \<and> set ys = owned own es i - {eid}"
        using other [of i m] bs xs(1) split n by (cases "i = own e") (auto simp: slot_simps)
    qed
    with Nil scan e n show ?thesis
      by (auto simp: detach_def Let_def)
  next
    case (snoc as' p)
    have p: "slot es p \<noteq> None" "p \<in> owned own es (own e)"
      using xs(3) split snoc by (auto simp: owned_def)
    let ?es = "upd_slot (set_nxt (nxt e)) p es"
    have "adj own nxt first {eid} ns ?es"
      unfolding adj_def
    proof (intro allI impI)
      fix i m assume m: "slot ns i = Some m"
      show "\<exists>ys. distinct ys \<and> chain (nexts nxt ?es) (first m) ys \<and> set ys = owned own ?es i - {eid}"
      proof (cases "i = own e")
        case True
        have "chain (nexts nxt ?es) (first m) (as' @ p # bs)"
          unfolding nexts_upd [OF p(1)] using xs split snoc nx True m n
          by (intro chain_bypass) auto
        moreover have "set (as' @ p # bs) = owned own ?es i - {eid}" "distinct (as' @ p # bs)"
          using xs split snoc True by auto
        ultimately show ?thesis by blast
      next
        case False
        then obtain ys where ys: "distinct ys" "chain (nexts nxt es) (first m) ys"
          "set ys = owned own es i - {eid}" using other [OF m] by auto
        with False p have "p \<notin> set ys" by (auto simp: owned_def)
        then have "chain (nexts nxt ?es) (first m) ys"
          using ys unfolding nexts_upd [OF p(1)]
          by (subst chain_cong [where h' = "nexts nxt es"]) auto
        with ys show ?thesis by auto
      qed
    qed
    with snoc scan e n p show ?thesis
      by (auto simp: detach_def Let_def)
  qed
qed

text \<open>Prepending a new edge to its owner's list.\<close>

lemma adj_prepend:
  assumes adj: "adj own nxt first {} ns es" and len: "length es < 2 ^ 32"
    and n: "slot ns (own e) = Some n" and head: "nxt e = first n"
  shows "adj own nxt first {} (upd_slot (set_first (Some (of_nat (length es)))) (own e) ns) (es @ [Some e])"
  unfolding adj_def
proof (intro allI impI)
  let ?x = "of_nat (length es) :: u32"
  let ?es = "es @ [Some e]"
  have fresh: "slot es ?x = None" using len by (rule slot_new_None)
  have nx: "nexts nxt ?es = (nexts nxt es)(?x \<mapsto> nxt e)"
    using len by (auto simp: nexts_def slot_simps fun_eq_iff)
  have ow: "owned own ?es i = (if i = own e then insert ?x (owned own es i) else owned own es i)" for i
    using len fresh by (auto simp: owned_def slot_simps)
  fix i m assume m: "slot (upd_slot (set_first (Some ?x)) (own e) ns) i = Some m"
  then obtain m' where m': "slot ns i = Some m'"
    by (auto simp: slot_simps split: if_splits)
  with adj obtain ys where ys: "distinct ys" "chain (nexts nxt es) (first m') ys"
    "set ys = owned own es i" by (auto elim: adjE)
  then have "?x \<notin> set ys" using fresh by (auto simp: owned_def)
  then have ys': "chain (nexts nxt ?es) (first m') ys"
    using ys unfolding nx by (subst chain_cong [where h' = "nexts nxt es"]) auto
  show "\<exists>ys. distinct ys \<and> chain (nexts nxt ?es) (first m) ys \<and> set ys = owned own ?es i - {}"
  proof (cases "i = own e")
    case True
    then have "chain (nexts nxt ?es) (first m) (?x # ys)"
      using m m' n ys' head by (auto simp: nx slot_simps)
    with True ys \<open>?x \<notin> set ys\<close> ow show ?thesis
      by (intro exI [of _ "?x # ys"]) auto
  next
    case False
    with m m' ys ys' ow show ?thesis by (auto simp: slot_simps)
  qed
qed

end

interpretation out: adjacency e_from e_next_out set_next_out n_first_out set_first_out
  by unfold_locales (simp_all add: graph_setters)

interpretation inc: adjacency e_to e_next_in set_next_in n_first_in set_first_in
  by unfold_locales (simp_all add: graph_setters)

section \<open>The graph invariant\<close>

definition n_core :: "GraphNode \<Rightarrow> GraphNode" where
  "n_core n = n\<lparr>n_first_out := None, n_first_in := None\<rparr>"

definition e_core :: "GraphEdge \<Rightarrow> GraphEdge" where
  "e_core e = e\<lparr>e_next_out := None, e_next_in := None\<rparr>"

definition n_graph :: "GraphNode \<Rightarrow> NodeId \<times> EdgeId option \<times> EdgeId option \<times> u16" where
  "n_graph n = (n_id n, n_first_out n, n_first_in n, n_namespace_id n)"

definition node_ns :: "NodePool \<Rightarrow> NodeId \<Rightarrow> u16 option" where
  "node_ns ns i = map_option n_namespace_id (slot ns i)"

text \<open>
  Slots hold the node and edge of their own id, every edge joins two live nodes of one namespace, and
  the two adjacency lists of every node are exactly its outgoing and its incoming edges.
\<close>

definition graph_inv :: "NodePool \<Rightarrow> EdgePool \<Rightarrow> bool" where
  "graph_inv ns es \<longleftrightarrow>
     (\<forall>i n. slot ns i = Some n \<longrightarrow> n_id n = i) \<and>
     (\<forall>x e. slot es x = Some e \<longrightarrow> e_id e = x \<and>
        node_ns ns (e_from e) \<noteq> None \<and> node_ns ns (e_to e) = node_ns ns (e_from e)) \<and>
     adj e_from e_next_out n_first_out {} ns es \<and>
     adj e_to e_next_in n_first_in {} ns es"

lemma map_option_lift:
  assumes "map_option f x = map_option f y" "\<And>a b. f a = f b \<Longrightarrow> g a = g b"
  shows "map_option g x = map_option g y"
  using assms(1) by (cases x; cases y) (auto intro: assms(2))

lemma graph_inv_empty [simp]: "graph_inv [] []"
  by (simp add: graph_inv_def adj_def slot_def)

lemma graph_inv_frame:
  assumes same: "\<And>i. map_option n_graph (slot ns' i) = map_option n_graph (slot ns i)"
    and inv: "graph_inv ns es"
  shows "graph_inv ns' es"
proof -
  note lift = map_option_lift [OF same]
  have "node_ns ns' i = node_ns ns i" for i
    unfolding node_ns_def by (rule lift) (simp add: n_graph_def)
  moreover have "n_id n' = i" if "slot ns' i = Some n'" for i n'
    using that same [of i] inv by (cases "slot ns i") (auto simp: n_graph_def graph_inv_def)
  moreover have "adj e_from e_next_out n_first_out {} ns' es"
    by (rule adj_frame [where ns = ns and es = es], rule lift)
      (use inv in \<open>simp_all add: n_graph_def graph_inv_def\<close>)
  moreover have "adj e_to e_next_in n_first_in {} ns' es"
    by (rule adj_frame [where ns = ns and es = es], rule lift)
      (use inv in \<open>simp_all add: n_graph_def graph_inv_def\<close>)
  ultimately show ?thesis
    using inv by (simp add: graph_inv_def)
qed

lemma graph_inv_edgeD:
  "graph_inv ns es \<Longrightarrow> slot es x = Some e \<Longrightarrow>
     e_id e = x \<and> slot ns (e_from e) \<noteq> None \<and> slot ns (e_to e) \<noteq> None"
  unfolding graph_inv_def node_ns_def by (metis option.map_disc_iff)

lemma graph_inv_new_node:
  assumes "graph_inv ns es" "length ns < 2 ^ 32" "n_id n = of_nat (length ns)"
    "n_first_out n = None" "n_first_in n = None"
  shows "graph_inv (ns @ [Some n]) es"
proof -
  have fresh: "slot ns (of_nat (length ns)) = None" using assms(2) by (rule slot_new_None)
  then have "owned e_from es (of_nat (length ns)) = {}" "owned e_to es (of_nat (length ns)) = {}"
    by (auto simp: owned_def dest!: graph_inv_edgeD [OF assms(1)])
  moreover have "node_ns (ns @ [Some n]) i = node_ns ns i" if "node_ns ns i \<noteq> None" for i
    using that fresh assms(2) by (auto simp: node_ns_def slot_simps)
  ultimately show ?thesis
    using assms unfolding graph_inv_def
    by (auto simp: slot_simps intro!: adj_new_node)
qed

lemma graph_inv_add_edge:
  assumes inv: "graph_inv ns es" and len: "length es < 2 ^ 32"
    and ends: "slot ns a = Some na" "slot ns b = Some nb" "n_namespace_id na = n_namespace_id nb"
  obtains ns' es' e where "add_edge k a b ns es = Ok (of_nat (length es), ns', es')"
    "graph_inv ns' es'" "length ns' = length ns"
    "\<And>i. map_option n_core (slot ns' i) = map_option n_core (slot ns i)"
    "es' = es @ [Some e]" "e_core e = e_core (edge_new (of_nat (length es)) k a b)"
proof -
  define x where "x = (of_nat (length es) :: u32)"
  define e where "e = (edge_new x k a b)\<lparr>e_next_out := n_first_out na, e_next_in := n_first_in nb\<rparr>"
  define n1 where "n1 = upd_slot (set_first_out (Some x)) a ns"
  define n2 where "n2 = upd_slot (set_first_in (Some x)) b n1"
  have run: "add_edge k a b ns es = Ok (x, n2, es @ [Some e])"
    using ends by (simp add: add_edge_def edge_pool_insert_def n1_def n2_def e_def x_def edge_new_def Let_def)
  have e: "e_from e = a" "e_to e = b" "e_next_out e = n_first_out na" "e_next_in e = n_first_in nb"
    "e_id e = x" "e_core e = e_core (edge_new x k a b)"
    by (simp_all add: e_def edge_new_def e_core_def)
  have core: "map_option n_core (slot n2 i) = map_option n_core (slot ns i)" for i
    by (auto simp: n2_def n1_def slot_simps graph_setters n_core_def [abs_def] option.map_comp comp_def)
  note lift = map_option_lift [OF core]
  have nsn: "node_ns n2 i = node_ns ns i" for i
    unfolding node_ns_def by (rule lift) (auto simp: n_core_def dest: arg_cong [of _ _ n_namespace_id])
  have ids: "map_option n_id (slot n2 i) = map_option n_id (slot ns i)" for i
    by (rule lift) (auto simp: n_core_def dest: arg_cong [of _ _ n_id])
  have out: "adj e_from e_next_out n_first_out {} n2 (es @ [Some e])"
  proof (rule adj_frame)
    show "adj e_from e_next_out n_first_out {} n1 (es @ [Some e])"
      using out.adj_prepend [of ns es e na] inv len ends e by (simp add: graph_inv_def n1_def x_def)
  qed (simp_all add: n2_def slot_simps graph_setters option.map_comp comp_def)
  have "adj e_to e_next_in n_first_in {} (upd_slot (set_first_in (Some x)) b ns) (es @ [Some e])"
    using inc.adj_prepend [of ns es e nb] inv len ends e by (simp add: graph_inv_def x_def)
  then have inc: "adj e_to e_next_in n_first_in {} n2 (es @ [Some e])"
    by (rule adj_frame [rotated 2])
      (auto simp: n2_def n1_def slot_simps graph_setters option.map_comp comp_def)
  have "n_id n = i" if "slot n2 i = Some n" for i n
    using ids [of i] that inv by (cases "slot ns i") (auto simp: graph_inv_def)
  moreover have "node_ns ns a = node_ns ns b" "node_ns ns a \<noteq> None"
    using ends by (simp_all add: node_ns_def)
  ultimately have "graph_inv n2 (es @ [Some e])"
    using inv len out inc e
    by (auto simp: graph_inv_def nsn slot_simps x_def [symmetric] split: if_splits)
  moreover have "length n2 = length ns" by (simp add: n2_def n1_def)
  ultimately show thesis using run core e that unfolding x_def by blast
qed

section \<open>Deleting edges\<close>

lemma n_core_setters [simp]: "n_core (set_first_out c n) = n_core n" "n_core (set_first_in c n) = n_core n"
  by (simp_all add: n_core_def graph_setters)

lemma e_core_setters [simp]: "e_core (set_next_out c e) = e_core e" "e_core (set_next_in c e) = e_core e"
  by (simp_all add: e_core_def graph_setters)

lemma e_coreD: "e_core e = e_core e' \<Longrightarrow> e_id e = e_id e' \<and> e_from e = e_from e' \<and> e_to e = e_to e' \<and> e_kind e = e_kind e'"
  by (auto simp: e_core_def dest: arg_cong [of _ _ e_id] arg_cong [of _ _ e_from]
      arg_cong [of _ _ e_to] arg_cong [of _ _ e_kind])

lemma n_coreD: "n_core n = n_core n' \<Longrightarrow> n_id n = n_id n' \<and> n_namespace_id n = n_namespace_id n'
    \<and> n_kind n = n_kind n' \<and> n_record n = n_record n'
    \<and> n_next_in_ns n = n_next_in_ns n' \<and> n_prev_in_ns n = n_prev_in_ns n'"
  by (auto simp: n_core_def dest: arg_cong [of _ _ n_id] arg_cong [of _ _ n_namespace_id]
      arg_cong [of _ _ n_kind] arg_cong [of _ _ n_record] arg_cong [of _ _ n_next_in_ns]
      arg_cong [of _ _ n_prev_in_ns])

text \<open>\<open>same_nodes\<close>: nodes differ at most in their adjacency heads.\<close>

definition same_nodes :: "NodePool \<Rightarrow> NodePool \<Rightarrow> bool" where
  "same_nodes ns' ns \<longleftrightarrow> length ns' = length ns \<and>
     (\<forall>i. map_option n_core (slot ns' i) = map_option n_core (slot ns i))"

definition edges_minus :: "EdgeId set \<Rightarrow> EdgePool \<Rightarrow> EdgePool \<Rightarrow> bool" where
  "edges_minus X es' es \<longleftrightarrow> length es' = length es \<and>
     (\<forall>y. map_option e_core (slot es' y) = (if y \<in> X then None else map_option e_core (slot es y)))"

lemma same_nodes_refl [simp]: "same_nodes ns ns"
  by (simp add: same_nodes_def)

lemma same_nodes_trans: "same_nodes ns'' ns' \<Longrightarrow> same_nodes ns' ns \<Longrightarrow> same_nodes ns'' ns"
  by (simp add: same_nodes_def)

lemma same_nodes_None: "same_nodes ns' ns \<Longrightarrow> slot ns' i = None \<longleftrightarrow> slot ns i = None"
  unfolding same_nodes_def by (metis option.map_disc_iff)

lemma same_nodes_ns: "same_nodes ns' ns \<Longrightarrow> node_ns ns' i = node_ns ns i"
  unfolding same_nodes_def node_ns_def
  by (erule conjE, erule allE [of _ i], erule map_option_lift) (auto dest: n_coreD)

lemma same_nodes_slot: "same_nodes ns' ns \<Longrightarrow> slot ns' i = Some n' \<Longrightarrow> \<exists>n. slot ns i = Some n \<and> n_core n' = n_core n"
  unfolding same_nodes_def by (metis map_option_eq_Some)

lemma edges_minus_slot:
  "edges_minus X es' es \<Longrightarrow> slot es' y = Some e' \<Longrightarrow> y \<notin> X \<and> (\<exists>e. slot es y = Some e \<and> e_core e' = e_core e)"
  unfolding edges_minus_def by (metis map_option_eq_Some option.distinct(1) option.simps(8))

lemma edges_minus_trans:
  "edges_minus Y es'' es' \<Longrightarrow> edges_minus X es' es \<Longrightarrow> edges_minus (X \<union> Y) es'' es"
  by (auto simp: edges_minus_def)

lemma delete_edge_ok:
  assumes inv: "graph_inv ns es" and e: "slot es x = Some e"
  obtains ns' es' where "delete_edge x (ns, es) = Ok (ns', es')" "graph_inv ns' es'"
    "same_nodes ns' ns" "edges_minus {x} es' es"
proof -
  have ends: "slot ns (e_from e) \<noteq> None" "slot ns (e_to e) \<noteq> None"
    using graph_inv_edgeD [OF inv e] by auto
  obtain n1 e1 where d1: "detach e_next_out set_next_out n_first_out set_first_out x (e_from e) (ns, es) = Ok (n1, e1)"
    and out1: "adj e_from e_next_out n_first_out {x} n1 e1"
    using out.detach_ok [of ns es x e] inv e ends by (auto simp: graph_inv_def)
  have s1: "same_nodes n1 ns"
    using detach_frame(2,3) [OF d1, where g = n_core and f = e_core] by (simp add: same_nodes_def)
  have f1: "map_option e_core (slot e1 y) = map_option e_core (slot es y)" "length e1 = length es" for y
    using detach_frame(1,4) [OF d1, where g = n_core and f = e_core] by simp_all
  have in1: "adj e_to e_next_in n_first_in {} n1 e1"
  proof (rule adj_frame)
    show "adj e_to e_next_in n_first_in {} ns es" using inv by (simp add: graph_inv_def)
  qed (use detach_frame(1,2) [OF d1, where g = n_first_in and f = "\<lambda>e. (e_to e, e_next_in e)"]
      in \<open>simp_all add: graph_setters\<close>)
  obtain e' where e': "slot e1 x = Some e'" "e_core e' = e_core e"
    using f1(1) [of x] e by auto
  then have to: "e_to e' = e_to e" by (auto dest: e_coreD)
  obtain n' where n': "slot n1 (e_to e') = Some n'"
    using same_nodes_None [OF s1, of "e_to e"] ends to by auto
  obtain n2 e2 where d2: "detach e_next_in set_next_in n_first_in set_first_in x (e_to e) (n1, e1) = Ok (n2, e2)"
    and in2: "adj e_to e_next_in n_first_in {x} n2 e2"
    using inc.detach_ok [OF in1 e'(1) n'] to by auto
  have s2: "same_nodes n2 ns"
    using detach_frame(2,3) [OF d2, where g = n_core and f = e_core] s1
    by (simp add: same_nodes_def)
  have f2: "map_option e_core (slot e2 y) = map_option e_core (slot es y)" "length e2 = length es" for y
    using detach_frame(1,4) [OF d2, where g = n_core and f = e_core] f1 by simp_all
  have out2: "adj e_from e_next_out n_first_out {x} n2 e2"
    by (rule adj_frame [OF _ _ out1])
      (use detach_frame(1,2) [OF d2, where g = n_first_out and f = "\<lambda>e. (e_from e, e_next_out e)"]
       in \<open>simp_all add: graph_setters\<close>)
  have x2: "slot e2 x \<noteq> None" using f2(1) [of x] e by auto
  define e3 where "e3 = clear_slot x e2"
  have minus: "edges_minus {x} e3 es"
    using f2 by (auto simp: edges_minus_def e3_def slot_simps)
  have "delete_edge x (ns, es) = Ok (n2, e3)"
    using e d1 d2 x2 by (auto simp: delete_edge_def edge_pool_delete_slot e3_def split: option.splits)
  moreover have "graph_inv n2 e3"
    unfolding graph_inv_def
  proof (intro conjI allI impI)
    show "n_id n = i" if "slot n2 i = Some n" for i n
      using same_nodes_slot [OF s2 that] inv by (auto simp: graph_inv_def dest!: n_coreD)
  next
    fix y f assume "slot e3 y = Some f"
    then obtain f' where f': "slot es y = Some f'" "e_core f = e_core f'"
      using edges_minus_slot [OF minus] by blast
    then show "e_id f = y" "node_ns n2 (e_from f) \<noteq> None" "node_ns n2 (e_to f) = node_ns n2 (e_from f)"
      using inv e_coreD [OF f'(2)] by (auto simp: graph_inv_def same_nodes_ns [OF s2])
  qed (use adj_clear_edge [OF out2] adj_clear_edge [OF in2] in \<open>simp_all add: e3_def\<close>)
  ultimately show thesis using s2 minus that by blast
qed

lemma delete_edges_ok:
  assumes "graph_inv ns es"
  shows "\<exists>ns' es'. delete_edges xs (ns, es) = Ok (ns', es') \<and> graph_inv ns' es' \<and>
    same_nodes ns' ns \<and> edges_minus (set xs) es' es"
  using assms
proof (induction xs arbitrary: ns es)
  case Nil
  then show ?case by (auto simp: edges_minus_def)
next
  case (Cons x xs)
  show ?case
  proof (cases "slot es x")
    case None
    obtain n2 e2 where ds: "delete_edges xs (ns, es) = Ok (n2, e2)" "graph_inv n2 e2"
      "same_nodes n2 ns" "edges_minus (set xs) e2 es"
      using Cons.IH [OF Cons.prems] by blast
    moreover have "edges_minus (set (x # xs)) e2 es"
      using ds(4) None by (auto simp: edges_minus_def)
    ultimately show ?thesis using None by simp
  next
    case (Some e)
    obtain n1 e1 where d: "delete_edge x (ns, es) = Ok (n1, e1)" "graph_inv n1 e1"
      "same_nodes n1 ns" "edges_minus {x} e1 es"
      using delete_edge_ok [OF Cons.prems Some] .
    obtain n2 e2 where ds: "delete_edges xs (n1, e1) = Ok (n2, e2)" "graph_inv n2 e2"
      "same_nodes n2 n1" "edges_minus (set xs) e2 e1"
      using Cons.IH [OF d(2)] by blast
    moreover have "edges_minus (set (x # xs)) e2 es"
      using edges_minus_trans [OF ds(4) d(4)] by simp
    ultimately show ?thesis
      using Some d(1) same_nodes_trans [OF ds(3) d(3)] by simp
  qed
qed

text \<open>The edge loops and the final pool deletion of \<open>_delete_node\<close>.\<close>

definition incident :: "EdgePool \<Rightarrow> NodeId \<Rightarrow> EdgeId set" where
  "incident es i = owned e_from es i \<union> owned e_to es i"

lemma delete_node_graph_ok:
  assumes inv: "graph_inv ns es" and n: "slot ns i = Some n"
  obtains outs ins ns' es' where
    "collect_edges (n_first_out n) e_next_out es [] = Some outs"
    "collect_edges (n_first_in n) e_next_in es [] = Some ins"
    "delete_edges (outs @ ins) (ns, es) = Ok (ns', es')"
    "same_nodes ns' ns" "graph_inv (clear_slot i ns') es'" "edges_minus (incident es i) es' es"
proof -
  obtain outs where outs: "chain (nexts e_next_out es) (n_first_out n) outs" "set outs = owned e_from es i"
    using inv n by (auto simp: graph_inv_def elim: adjE)
  obtain ins where ins: "chain (nexts e_next_in es) (n_first_in n) ins" "set ins = owned e_to es i"
    using inv n by (auto simp: graph_inv_def elim: adjE)
  obtain ns' es' where d: "delete_edges (outs @ ins) (ns, es) = Ok (ns', es')" "graph_inv ns' es'"
    "same_nodes ns' ns" "edges_minus (set (outs @ ins)) es' es"
    using delete_edges_ok [OF inv] by blast
  have minus: "edges_minus (incident es i) es' es"
    using d(4) outs(2) ins(2) by (simp add: incident_def)
  have away: "e_from e \<noteq> i \<and> e_to e \<noteq> i" if "slot es' y = Some e" for y e
    using edges_minus_slot [OF minus that] by (auto simp: incident_def owned_def dest!: e_coreD)
  have "graph_inv (clear_slot i ns') es'"
    unfolding graph_inv_def
  proof (intro conjI allI impI)
    fix y e assume y: "slot es' y = Some e"
    have keep: "node_ns (clear_slot i ns') j = node_ns ns' j" if "j \<noteq> i" for j
      using that by (simp add: node_ns_def slot_simps)
    have "e_id e = y \<and> node_ns ns' (e_from e) \<noteq> None \<and> node_ns ns' (e_to e) = node_ns ns' (e_from e)"
      using d(2) y unfolding graph_inv_def by blast
    then show "e_id e = y" "node_ns (clear_slot i ns') (e_from e) \<noteq> None"
      "node_ns (clear_slot i ns') (e_to e) = node_ns (clear_slot i ns') (e_from e)"
      using away [OF y] by (simp_all add: keep)
  next
    show "n_id m = j" if "slot (clear_slot i ns') j = Some m" for j m
      using d(2) that by (simp add: graph_inv_def slot_simps split: if_splits)
  qed (use d(2) adj_clear_node in \<open>unfold graph_inv_def, blast+\<close>)
  with collect_edges_chain [OF outs(1), of "[]"] collect_edges_chain [OF ins(1), of "[]"] d(1,3) minus
  show thesis using that by simp
qed

text \<open>
  The iterators over a node's edges yield every edge once: the outgoing edges of a live node are
  exactly the live edges leaving it, and likewise the incoming ones.
\<close>

lemma collect_out_ok:
  assumes "graph_inv ns es" "slot ns i = Some n"
  shows "\<exists>xs. collect_edges (n_first_out n) e_next_out es [] = Some xs \<and> distinct xs
    \<and> set xs = owned e_from es i"
proof -
  have "adj e_from e_next_out n_first_out {} ns es" using assms(1) by (simp add: graph_inv_def)
  from this assms(2) show ?thesis
    by (rule adjE) (auto dest: collect_edges_chain [where acc = "[]"])
qed

lemma collect_in_ok:
  assumes "graph_inv ns es" "slot ns i = Some n"
  shows "\<exists>xs. collect_edges (n_first_in n) e_next_in es [] = Some xs \<and> distinct xs
    \<and> set xs = owned e_to es i"
proof -
  have "adj e_to e_next_in n_first_in {} ns es" using assms(1) by (simp add: graph_inv_def)
  from this assms(2) show ?thesis
    by (rule adjE) (auto dest: collect_edges_chain [where acc = "[]"])
qed

end
