(* ===== verification/Vec_Math.thy ===== *)
theory Vec_Math
  imports Valori_Core
begin

text \<open>
  The distance and dot-product routines of \<open>valori-kernel/src/math\<close>. Every routine has a scalar
  path and three SIMD paths (NEON, AVX2, SSE4.1), of which \<open>l2_sq_i32\<close> and \<open>dot_i32\<close> pick one by
  target and CPU. A SIMD register is the list of its lanes: 32-bit lane arithmetic wraps at 32
  bits, 64-bit lane arithmetic at 64 bits, as do \<open>+\<close> and \<open>*\<close> on \<open>i64\<close> in the release profile.
  The main loops consume the slices from the front; all callers pass slices cut to one length.
\<close>

section \<open>Scalar paths\<close>

definition sat_add_i64 :: "i64 \<Rightarrow> i64 \<Rightarrow> i64" where
  "sat_add_i64 x y = word_of_int (max I64_MIN (min I64_MAX (sint x + sint y)))"

definition diff_sq :: "i32 \<Rightarrow> i32 \<Rightarrow> i64" where
  "diff_sq x y = (let diff = (scast x :: i64) - scast y in diff * diff)"

definition prod64 :: "i32 \<Rightarrow> i32 \<Rightarrow> i64" where
  "prod64 x y = (scast x :: i64) * scast y"

definition l2_sq_scalar :: "i32 list \<Rightarrow> i32 list \<Rightarrow> i64" where
  "l2_sq_scalar a b = foldl (\<lambda>sum (x, y). sat_add_i64 sum (diff_sq x y)) 0 (zip a b)"

definition dot_scalar :: "i32 list \<Rightarrow> i32 list \<Rightarrow> i64" where
  "dot_scalar a b = foldl (\<lambda>sum (x, y). sum + prod64 x y) 0 (zip a b)"

section \<open>SIMD paths\<close>

text \<open>
  One lane of the vector bodies: \<open>sub_epi32\<close>/\<open>vsubq_s32\<close> wraps at 32 bits before the widening
  square; the widening product of \<open>mul_epi32\<close>/\<open>vmull_s32\<close> is exact.
\<close>

definition lane_sq :: "i32 \<Rightarrow> i32 \<Rightarrow> i64" where
  "lane_sq x y = (let diff = x - y in (scast diff :: i64) * scast diff)"

text \<open>
  The vector loops, for a lane operation \<open>f\<close>: NEON keeps lanes 0,1 and lanes 2,3 of each group of
  four in two accumulators; AVX2 adds lanes \<open>j\<close> and \<open>j + 4\<close> of each group of eight to accumulator
  \<open>j\<close>; SSE4.1 adds lanes \<open>j\<close> and \<open>j + 2\<close> of each group of four to accumulator \<open>j\<close>. Each returns the
  accumulators and what is left of the slices.
\<close>

function neon_loop :: "(i32 \<Rightarrow> i32 \<Rightarrow> i64) \<Rightarrow> i64 list \<Rightarrow> i64 list \<Rightarrow> i32 list \<Rightarrow> i32 list
    \<Rightarrow> i64 list \<times> i64 list \<times> i32 list \<times> i32 list" where
  "neon_loop f acc0 acc1 a b =
     (if 4 \<le> length a
      then neon_loop f (map2 (+) acc0 (map2 f (take 2 a) (take 2 b)))
             (map2 (+) acc1 (map2 f (take 2 (drop 2 a)) (take 2 (drop 2 b)))) (drop 4 a) (drop 4 b)
      else (acc0, acc1, a, b))"
  by pat_completeness auto
termination
  by (relation "measure (\<lambda>(f, acc0, acc1, a, b). length a)") auto

function avx2_loop :: "(i32 \<Rightarrow> i32 \<Rightarrow> i64) \<Rightarrow> i64 list \<Rightarrow> i32 list \<Rightarrow> i32 list
    \<Rightarrow> i64 list \<times> i32 list \<times> i32 list" where
  "avx2_loop f acc a b =
     (if 8 \<le> length a
      then avx2_loop f (map2 (+) acc
             (map2 (+) (map2 f (take 4 a) (take 4 b))
                       (map2 f (take 4 (drop 4 a)) (take 4 (drop 4 b))))) (drop 8 a) (drop 8 b)
      else (acc, a, b))"
  by pat_completeness auto
termination
  by (relation "measure (\<lambda>(f, acc, a, b). length a)") auto

function sse41_loop :: "(i32 \<Rightarrow> i32 \<Rightarrow> i64) \<Rightarrow> i64 list \<Rightarrow> i32 list \<Rightarrow> i32 list
    \<Rightarrow> i64 list \<times> i32 list \<times> i32 list" where
  "sse41_loop f acc a b =
     (if 4 \<le> length a
      then sse41_loop f (map2 (+) acc
             (map2 (+) (map2 f (take 2 a) (take 2 b))
                       (map2 f (take 2 (drop 2 a)) (take 2 (drop 2 b))))) (drop 4 a) (drop 4 b)
      else (acc, a, b))"
  by pat_completeness auto
termination
  by (relation "measure (\<lambda>(f, acc, a, b). length a)") auto

declare neon_loop.simps [simp del] avx2_loop.simps [simp del] sse41_loop.simps [simp del]

definition tail_loop :: "(i32 \<Rightarrow> i32 \<Rightarrow> i64) \<Rightarrow> i64 \<Rightarrow> i32 list \<Rightarrow> i32 list \<Rightarrow> i64" where
  "tail_loop g tot a b = foldl (\<lambda>t (x, y). t + g x y) tot (zip a b)"

definition neon_kernel :: "(i32 \<Rightarrow> i32 \<Rightarrow> i64) \<Rightarrow> (i32 \<Rightarrow> i32 \<Rightarrow> i64) \<Rightarrow> i32 list \<Rightarrow> i32 list \<Rightarrow> i64"
  where "neon_kernel f g a b =
     (case neon_loop f [0, 0] [0, 0] a b of (acc0, acc1, a', b') \<Rightarrow>
        let acc = map2 (+) acc0 acc1 in tail_loop g (acc ! 0 + acc ! 1) a' b')"

definition avx2_kernel :: "(i32 \<Rightarrow> i32 \<Rightarrow> i64) \<Rightarrow> (i32 \<Rightarrow> i32 \<Rightarrow> i64) \<Rightarrow> i32 list \<Rightarrow> i32 list \<Rightarrow> i64"
  where "avx2_kernel f g a b =
     (case avx2_loop f [0, 0, 0, 0] a b of (acc, a', b') \<Rightarrow>
        let sum128 = map2 (+) (take 2 acc) (drop 2 acc) in
        tail_loop g (sum128 ! 0 + sum128 ! 1) a' b')"

definition sse41_kernel :: "(i32 \<Rightarrow> i32 \<Rightarrow> i64) \<Rightarrow> (i32 \<Rightarrow> i32 \<Rightarrow> i64) \<Rightarrow> i32 list \<Rightarrow> i32 list \<Rightarrow> i64"
  where "sse41_kernel f g a b =
     (case sse41_loop f [0, 0] a b of (acc, a', b') \<Rightarrow> tail_loop g (acc ! 0 + acc ! 1) a' b')"

definition l2_sq_neon :: "i32 list \<Rightarrow> i32 list \<Rightarrow> i64" where
  "l2_sq_neon = neon_kernel lane_sq diff_sq"

definition l2_sq_avx2 :: "i32 list \<Rightarrow> i32 list \<Rightarrow> i64" where
  "l2_sq_avx2 = avx2_kernel lane_sq diff_sq"

definition l2_sq_sse41 :: "i32 list \<Rightarrow> i32 list \<Rightarrow> i64" where
  "l2_sq_sse41 = sse41_kernel lane_sq diff_sq"

definition dot_neon :: "i32 list \<Rightarrow> i32 list \<Rightarrow> i64" where
  "dot_neon = neon_kernel prod64 prod64"

definition dot_avx2 :: "i32 list \<Rightarrow> i32 list \<Rightarrow> i64" where
  "dot_avx2 = avx2_kernel prod64 prod64"

definition dot_sse41 :: "i32 list \<Rightarrow> i32 list \<Rightarrow> i64" where
  "dot_sse41 = sse41_kernel prod64 prod64"

section \<open>Dispatch and entry points\<close>

datatype target = Aarch64 | X86_Avx2 | X86_Sse41 | Portable

definition l2_sq_i32 :: "target \<Rightarrow> i32 list \<Rightarrow> i32 list \<Rightarrow> i64" where
  "l2_sq_i32 cpu a b =
     (let len = min (length a) (length b); a' = take len a; b' = take len b in
      case cpu of Aarch64 \<Rightarrow> l2_sq_neon a' b'
      | X86_Avx2 \<Rightarrow> l2_sq_avx2 a' b'
      | X86_Sse41 \<Rightarrow> l2_sq_sse41 a' b'
      | Portable \<Rightarrow> l2_sq_scalar a' b')"

definition fxp_l2_sq :: "target \<Rightarrow> FxpVector \<Rightarrow> FxpVector \<Rightarrow> i64" where
  "fxp_l2_sq cpu a b =
     (let len = min (length a) (length b) in l2_sq_i32 cpu (take len a) (take len b))"

definition dot_i32 :: "target \<Rightarrow> i32 list \<Rightarrow> i32 list \<Rightarrow> i64" where
  "dot_i32 cpu a b =
     (case cpu of Aarch64 \<Rightarrow> dot_neon a b
      | X86_Avx2 \<Rightarrow> dot_avx2 a b
      | X86_Sse41 \<Rightarrow> dot_sse41 a b
      | Portable \<Rightarrow> dot_scalar a b)"

definition fxp_dot :: "target \<Rightarrow> FxpVector \<Rightarrow> FxpVector \<Rightarrow> FxpScalar" where
  "fxp_dot cpu a b =
     (let len = min (length a) (length b);
          raw = dot_i32 cpu (take len a) (take len b);
          shifted = signed_drop_bit FRAC_BITS raw
      in word_of_int (clamp_i32 (sint shifted)))"

section \<open>Wrapping sums of lanes\<close>

text \<open>All paths compute, modulo \<open>2 ^ 64\<close>, the same sum of lane values.\<close>

definition lane_sum :: "(i32 \<Rightarrow> i32 \<Rightarrow> i64) \<Rightarrow> i32 list \<Rightarrow> i32 list \<Rightarrow> i64" where
  "lane_sum f a b = sum_list (map2 f a b)"

lemma lane_sum_simps [simp]:
  "lane_sum f [] b = 0" "lane_sum f a [] = 0" "lane_sum f (x # a) (y # b) = f x y + lane_sum f a b"
  by (simp_all add: lane_sum_def)

lemma lane_sum_split:
  assumes "length a = length b"
  shows "lane_sum f a b = lane_sum f (take n a) (take n b) + lane_sum f (drop n a) (drop n b)"
  using assms
proof (induction n arbitrary: a b)
  case (Suc n)
  show ?case
  proof (cases a)
    case (Cons x a')
    with Suc.prems obtain y b' where "b = y # b'" "length a' = length b'"
      by (cases b) auto
    with Cons Suc.IH [of a' b'] show ?thesis by (simp add: add.assoc)
  qed simp
qed simp

lemma lane_sum_cong:
  "(\<And>x y. (x, y) \<in> set (zip a b) \<Longrightarrow> f x y = g x y) \<Longrightarrow> lane_sum f a b = lane_sum g a b"
  unfolding lane_sum_def by (rule arg_cong [where f = sum_list]) (auto intro!: map_cong)

lemma sum_list_map2_add:
  "length xs = length ys \<Longrightarrow> sum_list (map2 (+) xs ys) = sum_list xs + sum_list (ys :: i64 list)"
  by (induction xs ys rule: list_induct2) (simp_all add: algebra_simps)

lemma tail_loop_sum: "tail_loop g tot a b = tot + lane_sum g a b"
proof -
  have "foldl (\<lambda>t (x, y). t + g x y) tot zs = tot + sum_list (map (\<lambda>(x, y). g x y) zs)" for zs
    by (induction zs arbitrary: tot) (auto simp: add.assoc)
  then show ?thesis by (simp add: tail_loop_def lane_sum_def)
qed

lemma chunk_sum:
  assumes "length (a :: i32 list) = length b" "2 * w \<le> length a"
  shows "sum_list (map2 (+) (map2 f (take w a) (take w b))
           (map2 f (take w (drop w a)) (take w (drop w b)))) + lane_sum f (drop (2 * w) a) (drop (2 * w) b)
         = lane_sum f a b"
proof -
  have "lane_sum f a b = lane_sum f (take w a) (take w b)
      + (lane_sum f (take w (drop w a)) (take w (drop w b))
         + lane_sum f (drop w (drop w a)) (drop w (drop w b)))"
    using assms lane_sum_split [of a b f w] lane_sum_split [of "drop w a" "drop w b" f w] by simp
  then show ?thesis
    using assms by (simp add: sum_list_map2_add lane_sum_def mult_2 add.assoc)
qed

lemma list2_sum: "length xs = 2 \<Longrightarrow> xs ! 0 + xs ! 1 = sum_list (xs :: i64 list)"
  by (auto simp: length_Suc_conv numeral_2_eq_2)

lemma neon_loop_sum:
  assumes "length a = length b" "length acc0 = 2" "length acc1 = 2"
    and "neon_loop f acc0 acc1 a b = (acc0', acc1', a', b')"
  shows "sum_list acc0' + sum_list acc1' + lane_sum f a' b'
           = sum_list acc0 + sum_list acc1 + lane_sum f a b
         \<and> length acc0' = 2 \<and> length acc1' = 2 \<and> set (zip a' b') \<subseteq> set (zip a b)"
  using assms
proof (induction f acc0 acc1 a b rule: neon_loop.induct)
  case (1 f acc0 acc1 a b)
  show ?case
  proof (cases "4 \<le> length a")
    case True
    have "sum_list (map2 (+) acc0 (map2 f (take 2 a) (take 2 b)))
        + sum_list (map2 (+) acc1 (map2 f (take 2 (drop 2 a)) (take 2 (drop 2 b))))
        + lane_sum f (drop 4 a) (drop 4 b) = sum_list acc0 + sum_list acc1 + lane_sum f a b"
      using True "1.prems" chunk_sum [of a b 2 f] by (simp add: sum_list_map2_add algebra_simps)
    moreover have "set (zip (drop 4 a) (drop 4 b)) \<subseteq> set (zip a b)"
      by (metis drop_zip set_drop_subset)
    ultimately show ?thesis
      using True "1.prems" "1.IH" by (auto simp: neon_loop.simps [of f acc0 acc1 a b])
  next
    case False
    with "1.prems" show ?thesis by (simp add: neon_loop.simps [of f acc0 acc1 a b])
  qed
qed

lemma avx2_loop_sum:
  assumes "length a = length b" "length acc = 4" "avx2_loop f acc a b = (acc', a', b')"
  shows "sum_list acc' + lane_sum f a' b' = sum_list acc + lane_sum f a b
         \<and> length acc' = 4 \<and> set (zip a' b') \<subseteq> set (zip a b)"
  using assms
proof (induction f acc a b rule: avx2_loop.induct)
  case (1 f acc a b)
  show ?case
  proof (cases "8 \<le> length a")
    case True
    have "sum_list (map2 (+) acc (map2 (+) (map2 f (take 4 a) (take 4 b))
            (map2 f (take 4 (drop 4 a)) (take 4 (drop 4 b)))))
        + lane_sum f (drop 8 a) (drop 8 b) = sum_list acc + lane_sum f a b"
      using True "1.prems" chunk_sum [of a b 4 f] by (simp add: sum_list_map2_add algebra_simps)
    moreover have "set (zip (drop 8 a) (drop 8 b)) \<subseteq> set (zip a b)"
      by (metis drop_zip set_drop_subset)
    ultimately show ?thesis
      using True "1.prems" "1.IH" by (auto simp: avx2_loop.simps [of f acc a b])
  next
    case False
    with "1.prems" show ?thesis by (simp add: avx2_loop.simps [of f acc a b])
  qed
qed

lemma sse41_loop_sum:
  assumes "length a = length b" "length acc = 2" "sse41_loop f acc a b = (acc', a', b')"
  shows "sum_list acc' + lane_sum f a' b' = sum_list acc + lane_sum f a b
         \<and> length acc' = 2 \<and> set (zip a' b') \<subseteq> set (zip a b)"
  using assms
proof (induction f acc a b rule: sse41_loop.induct)
  case (1 f acc a b)
  show ?case
  proof (cases "4 \<le> length a")
    case True
    have "sum_list (map2 (+) acc (map2 (+) (map2 f (take 2 a) (take 2 b))
            (map2 f (take 2 (drop 2 a)) (take 2 (drop 2 b)))))
        + lane_sum f (drop 4 a) (drop 4 b) = sum_list acc + lane_sum f a b"
      using True "1.prems" chunk_sum [of a b 2 f] by (simp add: sum_list_map2_add algebra_simps)
    moreover have "set (zip (drop 4 a) (drop 4 b)) \<subseteq> set (zip a b)"
      by (metis drop_zip set_drop_subset)
    ultimately show ?thesis
      using True "1.prems" "1.IH" by (auto simp: sse41_loop.simps [of f acc a b])
  next
    case False
    with "1.prems" show ?thesis by (simp add: sse41_loop.simps [of f acc a b])
  qed
qed

text \<open>A vector kernel whose tail operation agrees with its lane operation is a plain lane sum.\<close>

lemma neon_kernel_sum:
  assumes "length a = length b" "\<And>x y. (x, y) \<in> set (zip a b) \<Longrightarrow> g x y = f x y"
  shows "neon_kernel f g a b = lane_sum f a b"
proof -
  obtain acc0 acc1 a' b' where r: "neon_loop f [0, 0] [0, 0] a b = (acc0, acc1, a', b')"
    by (metis prod_cases4)
  note inv = neon_loop_sum [OF assms(1) _ _ r]
  have "lane_sum g a' b' = lane_sum f a' b'"
    using inv assms(2) by (intro lane_sum_cong) auto
  moreover have "map2 (+) acc0 acc1 ! 0 + map2 (+) acc0 acc1 ! 1 = sum_list acc0 + sum_list acc1"
    using inv list2_sum [of "map2 (+) acc0 acc1"] by (simp add: sum_list_map2_add)
  ultimately show ?thesis
    using inv by (simp add: neon_kernel_def r Let_def tail_loop_sum)
qed

lemma avx2_kernel_sum:
  assumes "length a = length b" "\<And>x y. (x, y) \<in> set (zip a b) \<Longrightarrow> g x y = f x y"
  shows "avx2_kernel f g a b = lane_sum f a b"
proof -
  obtain acc a' b' where r: "avx2_loop f [0, 0, 0, 0] a b = (acc, a', b')"
    by (metis prod_cases3)
  note inv = avx2_loop_sum [OF assms(1) _ r]
  let ?h = "map2 (+) (take 2 acc) (drop 2 acc)"
  have "lane_sum g a' b' = lane_sum f a' b'"
    using inv assms(2) by (intro lane_sum_cong) auto
  moreover have "?h ! 0 + ?h ! 1 = sum_list acc"
    using inv list2_sum [of ?h] sum_list_append [of "take 2 acc" "drop 2 acc"]
    by (simp add: sum_list_map2_add)
  ultimately show ?thesis
    using inv by (simp add: avx2_kernel_def r Let_def tail_loop_sum)
qed

lemma sse41_kernel_sum:
  assumes "length a = length b" "\<And>x y. (x, y) \<in> set (zip a b) \<Longrightarrow> g x y = f x y"
  shows "sse41_kernel f g a b = lane_sum f a b"
proof -
  obtain acc a' b' where r: "sse41_loop f [0, 0] a b = (acc, a', b')"
    by (metis prod_cases3)
  note inv = sse41_loop_sum [OF assms(1) _ r]
  have "lane_sum g a' b' = lane_sum f a' b'"
    using inv assms(2) by (intro lane_sum_cong) auto
  then show ?thesis
    using inv list2_sum [of acc] by (simp add: sse41_kernel_def r tail_loop_sum)
qed

lemmas kernel_sums = neon_kernel_sum avx2_kernel_sum sse41_kernel_sum

lemma dot_scalar_sum: "dot_scalar a b = lane_sum prod64 a b"
  using tail_loop_sum [of prod64 0 a b] by (simp add: dot_scalar_def tail_loop_def)

section \<open>Path independence\<close>

text \<open>The dot product is the same on every instruction set, for all inputs.\<close>

lemma dot_i32_target_independent:
  assumes "length a = length b"
  shows "dot_i32 cpu a b = dot_scalar a b"
  using assms
  by (cases cpu) (simp_all add: dot_i32_def dot_scalar_sum dot_neon_def dot_avx2_def dot_sse41_def
      kernel_sums)

section \<open>Exactness of the distance\<close>

text \<open>The squared distance over the integers, without any width.\<close>

definition l2_exact :: "FxpVector \<Rightarrow> FxpVector \<Rightarrow> int" where
  "l2_exact a b = sum_list (map2 (\<lambda>x y. (sint x - sint y)\<^sup>2) a b)"

definition dot_exact :: "FxpVector \<Rightarrow> FxpVector \<Rightarrow> int" where
  "dot_exact a b = sum_list (map2 (\<lambda>x y. sint x * sint y) a b)"

definition diffs_fit :: "FxpVector \<Rightarrow> FxpVector \<Rightarrow> bool" where
  "diffs_fit a b \<longleftrightarrow> list_all (\<lambda>(x, y). \<bar>sint x - sint y\<bar> < 2 ^ 31) (zip a b)"

lemma scast_eq_word_of_int: "(scast (x :: i32) :: i64) = word_of_int (sint x)"
  by simp

lemma diff_sq_word: "diff_sq x y = word_of_int ((sint x - sint y)\<^sup>2)"
  by (simp add: diff_sq_def Let_def power2_eq_square)

lemma lane_sq_word:
  assumes "\<bar>sint x - sint y\<bar> < 2 ^ 31"
  shows "lane_sq x y = word_of_int ((sint x - sint y)\<^sup>2)"
proof -
  have "sint (x - y) = sint x - sint y"
    using assms by (simp add: sint_word_diff signed_take_bit_int_eq_self abs_less_iff)
  then show ?thesis
    by (simp add: lane_sq_def Let_def power2_eq_square scast_eq_word_of_int del: of_int_sint)
qed

lemma sum_list_word_of_int: "sum_list (map (\<lambda>z. word_of_int (h z) :: i64) zs)
    = word_of_int (sum_list (map h zs))"
  by (induction zs) simp_all

lemma lane_sum_word_of_int:
  assumes "\<And>x y. (x, y) \<in> set (zip a b) \<Longrightarrow> f x y = word_of_int (h x y)"
  shows "lane_sum f a b = word_of_int (sum_list (map2 h a b))"
proof -
  have "lane_sum f a b = sum_list (map (\<lambda>z. word_of_int (case_prod h z)) (zip a b))"
    unfolding lane_sum_def
    by (rule arg_cong [where f = sum_list]) (auto intro!: map_cong simp: assms)
  then show ?thesis
    by (simp only: sum_list_word_of_int)
qed

lemma sat_add_i64_nonneg:
  assumes "0 \<le> sint x" "0 \<le> sint y"
  shows "sint (sat_add_i64 x y) = min I64_MAX (sint x + sint y)"
  using assms by (simp add: sat_add_i64_def i_bounds sint_word_of_int_i64)

lemma sq_bound:
  assumes "\<bar>d :: int\<bar> < 2 ^ 31"
  shows "d\<^sup>2 < 2 ^ 63"
proof -
  have "d\<^sup>2 \<le> (2 ^ 31)\<^sup>2"
    using assms by (intro power2_le_iff_abs_le [THEN iffD2]) auto
  then show ?thesis by simp
qed

lemma scalar_loop_exact:
  assumes "list_all (\<lambda>(x, y). \<bar>sint x - sint y\<bar> < 2 ^ 31) zs" "0 \<le> sint acc"
  shows "sint (foldl (\<lambda>sum (x, y). sat_add_i64 sum (diff_sq x y)) acc zs)
    = min I64_MAX (sint acc + sum_list (map (\<lambda>(x, y). (sint x - sint y)\<^sup>2) zs))"
  using assms
proof (induction zs arbitrary: acc)
  case Nil
  then show ?case using sint_lt [of acc] by (simp add: i_bounds)
next
  case (Cons z zs)
  obtain x y where z: "z = (x, y)" by force
  let ?d = "(sint x - sint y)\<^sup>2"
  have d: "sint (diff_sq x y) = ?d"
    using Cons.prems(1) z sq_bound [of "sint x - sint y"]
    unfolding diff_sq_word by (intro sint_word_of_int_i64) (simp_all add: order_trans [of _ 0])
  have rest: "0 \<le> sum_list (map (\<lambda>(x, y). (sint x - sint y)\<^sup>2) zs)"
    by (rule sum_list_nonneg) auto
  have step: "sint (sat_add_i64 acc (diff_sq x y)) = min I64_MAX (sint acc + ?d)"
    using Cons.prems(2) d by (simp add: sat_add_i64_nonneg)
  then have "0 \<le> sint (sat_add_i64 acc (diff_sq x y))"
    using Cons.prems(2) by (simp add: i_bounds)
  with Cons.IH Cons.prems(1) step rest z show ?case
    by (auto simp: min_def)
qed

lemma l2_scalar_exact:
  assumes "diffs_fit a b"
  shows "sint (l2_sq_scalar a b) = min I64_MAX (l2_exact a b)"
  using scalar_loop_exact [of "zip a b" 0] assms
  by (simp add: l2_sq_scalar_def l2_exact_def diffs_fit_def)

lemma l2_simd_word:
  assumes "diffs_fit a b" "length a = length b"
  shows "l2_sq_neon a b = word_of_int (l2_exact a b)"
    and "l2_sq_avx2 a b = word_of_int (l2_exact a b)"
    and "l2_sq_sse41 a b = word_of_int (l2_exact a b)"
proof -
  have eq: "diff_sq x y = lane_sq x y" if "(x, y) \<in> set (zip a b)" for x y
    using that assms(1) by (auto simp: diffs_fit_def list_all_iff lane_sq_word diff_sq_word)
  have "lane_sum lane_sq a b = word_of_int (l2_exact a b)"
    unfolding l2_exact_def using assms(1)
    by (intro lane_sum_word_of_int) (auto simp: diffs_fit_def list_all_iff lane_sq_word)
  with eq assms(2) show "l2_sq_neon a b = word_of_int (l2_exact a b)"
    and "l2_sq_avx2 a b = word_of_int (l2_exact a b)"
    and "l2_sq_sse41 a b = word_of_int (l2_exact a b)"
    by (simp_all add: l2_sq_neon_def l2_sq_avx2_def l2_sq_sse41_def kernel_sums)
qed

lemma zip_take_min: "zip (take (min (length a) (length b)) a) (take (min (length a) (length b)) b)
    = zip a b"
  by (induction a b rule: list_induct2') simp_all

lemma l2_exact_nonneg: "0 \<le> l2_exact a b"
  unfolding l2_exact_def by (rule sum_list_nonneg) auto

text \<open>C30: On every target the distance of two vectors is the exact integer sum of squared
  differences, provided each difference fits a 32-bit lane and the sum fits 64 bits: the SIMD paths
  are then interchangeable with the scalar path, which is what makes the kernel's search results
  independent of the CPU.\<close>

theorem fxp_l2_sq_exact:
  assumes "diffs_fit a b" "l2_exact a b < 2 ^ 63"
  shows "sint (fxp_l2_sq cpu a b) = l2_exact a b"
proof -
  let ?n = "min (length a) (length b)"
  let ?a = "take ?n a" and ?b = "take ?n b"
  have fit: "diffs_fit ?a ?b" and ex: "l2_exact ?a ?b = l2_exact a b"
    using assms(1) by (simp_all add: diffs_fit_def l2_exact_def zip_take_min)
  have word: "sint (word_of_int (l2_exact a b) :: i64) = l2_exact a b"
    using assms(2) l2_exact_nonneg [of a b] by (intro sint_word_of_int_i64) simp_all
  have "fxp_l2_sq cpu a b = (case cpu of Aarch64 \<Rightarrow> l2_sq_neon ?a ?b | X86_Avx2 \<Rightarrow> l2_sq_avx2 ?a ?b
      | X86_Sse41 \<Rightarrow> l2_sq_sse41 ?a ?b | Portable \<Rightarrow> l2_sq_scalar ?a ?b)"
    by (cases "length a \<le> length b"; cases cpu)
      (simp_all add: fxp_l2_sq_def l2_sq_i32_def Let_def min_absorb1 min_absorb2)
  then show ?thesis
    using l2_simd_word [OF fit] l2_scalar_exact [OF fit] word assms(2)
    by (cases cpu) (simp_all add: ex i_bounds)
qed

theorem fxp_l2_sq_exact_witness:
  "sint (fxp_l2_sq X86_Avx2 [65536, 0, 131072] [0, 65536, 65536]) = 12884901888"
proof -
  have "diffs_fit [65536, 0, 131072] [0, 65536, 65536]"
    by (simp add: diffs_fit_def)
  moreover have "l2_exact [65536, 0, 131072] [0, 65536, 65536] = 12884901888"
    by (simp add: l2_exact_def)
  ultimately show ?thesis
    using fxp_l2_sq_exact [of "[65536, 0, 131072]" "[0, 65536, 65536]" X86_Avx2] by simp
qed

text \<open>Outside that range the paths are not interchangeable: for two vectors with a component
  difference of 2 to the power 31 plus 1, the vector body of NEON and SSE4.1 (which subtracts in 32
  bits) and the scalar tail that AVX2 uses for a four-dimensional vector (which subtracts in 64 bits)
  return different distances.\<close>

theorem l2_targets_disagree:
  "l2_sq_i32 X86_Avx2 [2147483647, 0, 0, 0] [- 2, 0, 0, 0] = 4611686022722355201
   \<and> l2_sq_i32 X86_Sse41 [2147483647, 0, 0, 0] [- 2, 0, 0, 0] = 4611686014132420609
   \<and> l2_sq_i32 Aarch64 [2147483647, 0, 0, 0] [- 2, 0, 0, 0] = 4611686014132420609"
  by code_simp

section \<open>Exactness of the dot product\<close>

text \<open>The dot product returns the same scalar on every target, for all vectors; and whenever the
  sum of products fits 64 bits it is the exact sum, floored to 16 fractional bits and clamped to the
  32-bit range.\<close>

theorem fxp_dot_exact:
  "fxp_dot cpu a b = fxp_dot Portable a b
   \<and> (\<bar>dot_exact a b\<bar> < 2 ^ 63 \<longrightarrow> sint (fxp_dot cpu a b) = clamp_i32 (dot_exact a b div 2 ^ 16))"
proof -
  let ?n = "min (length a) (length b)"
  let ?a = "take ?n a" and ?b = "take ?n b"
  have path: "dot_i32 c ?a ?b = dot_scalar ?a ?b" for c
    by (rule dot_i32_target_independent) simp
  have word: "dot_scalar ?a ?b = word_of_int (dot_exact a b)"
    using lane_sum_word_of_int [of ?a ?b prod64 "\<lambda>x y. sint x * sint y"]
    by (simp add: dot_scalar_sum dot_exact_def prod64_def zip_take_min)
  have "sint (word_of_int (dot_exact a b) :: i64) = dot_exact a b" if "\<bar>dot_exact a b\<bar> < 2 ^ 63"
    using that by (intro sint_word_of_int_i64) (simp_all add: abs_less_iff)
  then show ?thesis
    by (simp add: fxp_dot_def Let_def path word sint_signed_drop_bit_eq FRAC_BITS_def
        drop_bit_eq_div)
qed

theorem fxp_dot_exact_witness:
  "sint (fxp_dot X86_Sse41 [131072, 196608] [262144, 327680]) = 1507328"
proof -
  have "dot_exact [131072, 196608] [262144, 327680] = 98784247808"
    by (simp add: dot_exact_def)
  then show ?thesis
    using fxp_dot_exact [of X86_Sse41 "[131072, 196608]" "[262144, 327680]", THEN conjunct2]
    by (simp add: clamp_i32_def i_bounds)
qed

end
