(* ===== verification/Record_Pool.thy ===== *)
theory Record_Pool
  imports Ns_List
begin

text \<open>
  \<open>valori-kernel/src/storage\<close>: a record, its flags, and the record pool, a slot vector whose index is
  the record id. A pool is the vector itself (\<open>RecordPool\<close> has this one field).
\<close>

section \<open>Records\<close>

definition FLAG_SOFT_DELETED :: u8 where "FLAG_SOFT_DELETED = 1"
definition FLAG_ENCRYPTED :: u8 where "FLAG_ENCRYPTED = 2"
definition FLAG_SHREDDED :: u8 where "FLAG_SHREDDED = 4"

record Record =
  r_id :: RecordId
  r_vector :: FxpVector
  r_metadata :: "bytes option"
  r_tag :: u64
  r_flags :: u8
  r_namespace_id :: u16
  r_next_in_ns :: u32
  r_prev_in_ns :: u32

definition record_new :: "RecordId \<Rightarrow> FxpVector \<Rightarrow> bytes option \<Rightarrow> u64 \<Rightarrow> u16 \<Rightarrow> Record" where
  "record_new i vec md tag ns =
     \<lparr>r_id = i, r_vector = vec, r_metadata = md, r_tag = tag, r_flags = 0, r_namespace_id = ns,
      r_next_in_ns = NS_LIST_NIL, r_prev_in_ns = NS_LIST_NIL\<rparr>"

definition is_active :: "Record \<Rightarrow> bool" where
  "is_active r \<longleftrightarrow> r_flags r AND (FLAG_SOFT_DELETED OR FLAG_SHREDDED) = 0"

definition is_searchable :: "Record \<Rightarrow> bool" where
  "is_searchable r \<longleftrightarrow> r_flags r AND (FLAG_SOFT_DELETED OR FLAG_ENCRYPTED OR FLAG_SHREDDED) = 0"

definition soft_deleted :: "Record \<Rightarrow> bool" where
  "soft_deleted r \<longleftrightarrow> r_flags r AND FLAG_SOFT_DELETED \<noteq> 0"

definition encrypted :: "Record \<Rightarrow> bool" where
  "encrypted r \<longleftrightarrow> r_flags r AND FLAG_ENCRYPTED \<noteq> 0"

definition shredded :: "Record \<Rightarrow> bool" where
  "shredded r \<longleftrightarrow> r_flags r AND FLAG_SHREDDED \<noteq> 0"

lemmas flag_defs = FLAG_SOFT_DELETED_def FLAG_ENCRYPTED_def FLAG_SHREDDED_def

lemma is_active_iff: "is_active r \<longleftrightarrow> \<not> soft_deleted r \<and> \<not> shredded r"
  by (simp add: is_active_def soft_deleted_def shredded_def bit.conj_disj_distrib or_eq_0_iff)

lemma is_searchable_iff: "is_searchable r \<longleftrightarrow> is_active r \<and> \<not> encrypted r"
  by (auto simp: is_searchable_def is_active_def encrypted_def bit.conj_disj_distrib or_eq_0_iff)

lemma record_new_flags [simp]:
  "\<not> soft_deleted (record_new i v m t n)" "\<not> encrypted (record_new i v m t n)"
  "\<not> shredded (record_new i v m t n)"
  by (simp_all add: soft_deleted_def encrypted_def shredded_def record_new_def)

lemma record_new_sel [simp]:
  "r_id (record_new i v m t n) = i" "r_vector (record_new i v m t n) = v"
  "r_metadata (record_new i v m t n) = m" "r_tag (record_new i v m t n) = t"
  "r_namespace_id (record_new i v m t n) = n"
  by (simp_all add: record_new_def)

text \<open>What a record is, apart from its place in a namespace list.\<close>

definition r_core :: "Record \<Rightarrow> RecordId \<times> FxpVector \<times> bytes option \<times> u64 \<times> u8 \<times> u16" where
  "r_core r = (r_id r, r_vector r, r_metadata r, r_tag r, r_flags r, r_namespace_id r)"

lemma r_core_eqD:
  assumes "r_core r = r_core r'"
  shows "r_id r = r_id r'" "r_vector r = r_vector r'" "r_metadata r = r_metadata r'"
    "r_tag r = r_tag r'" "r_flags r = r_flags r'" "r_namespace_id r = r_namespace_id r'"
    "is_active r = is_active r'" "is_searchable r = is_searchable r'"
    "soft_deleted r = soft_deleted r'" "encrypted r = encrypted r'" "shredded r = shredded r'"
  using assms by (simp_all add: r_core_def is_active_def is_searchable_def soft_deleted_def
      encrypted_def shredded_def)

definition set_r_next :: "u32 \<Rightarrow> Record \<Rightarrow> Record" where
  "set_r_next n r = r\<lparr>r_next_in_ns := n\<rparr>"

definition set_r_prev :: "u32 \<Rightarrow> Record \<Rightarrow> Record" where
  "set_r_prev p r = r\<lparr>r_prev_in_ns := p\<rparr>"

lemma r_core_set_links [simp]:
  "r_core (set_r_next n r) = r_core r" "r_core (set_r_prev n r) = r_core r"
  by (simp_all add: r_core_def set_r_next_def set_r_prev_def)

interpretation rl: links r_next_in_ns r_prev_in_ns set_r_next set_r_prev
  by unfold_locales (simp_all add: set_r_next_def set_r_prev_def)

section \<open>The record pool\<close>

type_synonym RecordPool = "Record option list"

definition pool_next_id :: "RecordPool \<Rightarrow> RecordId" where
  "pool_next_id p = of_nat (length p)"

definition pool_insert :: "FxpVector \<Rightarrow> bytes option \<Rightarrow> u64 \<Rightarrow> u16 \<Rightarrow> RecordPool
    \<Rightarrow> RecordId \<times> RecordPool" where
  "pool_insert vec md tag ns p =
     (let i = of_nat (length p) in (i, p @ [Some (record_new i vec md tag ns)]))"

definition pool_get :: "RecordPool \<Rightarrow> RecordId \<Rightarrow> Record option" where
  "pool_get p i = (if unat i \<ge> length p then None else p ! unat i)"

definition pool_delete :: "RecordId \<Rightarrow> RecordPool \<Rightarrow> RecordPool kres" where
  "pool_delete i p =
     (if unat i \<ge> length p then Err NotFound
      else if p ! unat i \<noteq> None then Ok (clear_slot i p)
      else Err NotFound)"

definition pool_update_metadata :: "RecordId \<Rightarrow> bytes option \<Rightarrow> RecordPool \<Rightarrow> RecordPool kres" where
  "pool_update_metadata i md p =
     (case slot p i of
        Some _ \<Rightarrow> Ok (upd_slot (\<lambda>r. r\<lparr>r_metadata := md\<rparr>) i p)
      | None \<Rightarrow> Err NotFound)"

definition pool_soft_delete :: "RecordId \<Rightarrow> RecordPool \<Rightarrow> RecordPool kres" where
  "pool_soft_delete i p =
     (if unat i \<ge> length p then Err NotFound
      else case p ! unat i of
             Some _ \<Rightarrow> Ok (upd_slot (\<lambda>r. r\<lparr>r_flags := r_flags r OR FLAG_SOFT_DELETED\<rparr>) i p)
           | None \<Rightarrow> Err NotFound)"

definition pool_mark_encrypted :: "RecordId \<Rightarrow> RecordPool \<Rightarrow> RecordPool kres" where
  "pool_mark_encrypted i p =
     (case slot p i of
        Some _ \<Rightarrow> Ok (upd_slot (\<lambda>r. r\<lparr>r_flags := r_flags r OR FLAG_ENCRYPTED\<rparr>) i p)
      | None \<Rightarrow> Err NotFound)"

definition pool_mark_shredded :: "RecordId \<Rightarrow> RecordPool \<Rightarrow> RecordPool kres" where
  "pool_mark_shredded i p =
     (case slot p i of
        Some _ \<Rightarrow> Ok (upd_slot (\<lambda>r. r\<lparr>r_flags := r_flags r OR FLAG_SHREDDED, r_metadata := None\<rparr>) i p)
      | None \<Rightarrow> Err NotFound)"

definition pool_iter :: "RecordPool \<Rightarrow> Record list" where
  "pool_iter p = filter is_active (live p)"

definition pool_total_slots :: "RecordPool \<Rightarrow> nat" where
  "pool_total_slots p = length p"

lemma pool_get_slot [simp]: "pool_get p i = slot p i"
  by (simp add: pool_get_def slot_def)

lemma pool_delete_slot:
  "pool_delete i p = (case slot p i of None \<Rightarrow> Err NotFound | Some _ \<Rightarrow> Ok (clear_slot i p))"
  by (auto simp: pool_delete_def slot_def split: option.splits)

lemma pool_soft_delete_slot:
  "pool_soft_delete i p = (case slot p i of None \<Rightarrow> Err NotFound
     | Some _ \<Rightarrow> Ok (upd_slot (\<lambda>r. r\<lparr>r_flags := r_flags r OR FLAG_SOFT_DELETED\<rparr>) i p))"
  by (auto simp: pool_soft_delete_def slot_def split: option.splits)

lemma flags_or_soft_deleted:
  "soft_deleted (r\<lparr>r_flags := r_flags r OR FLAG_SOFT_DELETED\<rparr>)"
  "encrypted (r\<lparr>r_flags := r_flags r OR FLAG_SOFT_DELETED\<rparr>) = encrypted r"
  "shredded (r\<lparr>r_flags := r_flags r OR FLAG_SOFT_DELETED\<rparr>) = shredded r"
  by (simp_all add: soft_deleted_def encrypted_def shredded_def bit.conj_disj_distrib2 flag_defs
      or_eq_0_iff)

lemma flags_or_encrypted:
  "soft_deleted (r\<lparr>r_flags := r_flags r OR FLAG_ENCRYPTED\<rparr>) = soft_deleted r"
  "encrypted (r\<lparr>r_flags := r_flags r OR FLAG_ENCRYPTED\<rparr>)"
  "shredded (r\<lparr>r_flags := r_flags r OR FLAG_ENCRYPTED\<rparr>) = shredded r"
  by (simp_all add: soft_deleted_def encrypted_def shredded_def bit.conj_disj_distrib2 flag_defs
      or_eq_0_iff)

lemma flags_or_shredded:
  "soft_deleted (r\<lparr>r_flags := r_flags r OR FLAG_SHREDDED, r_metadata := m\<rparr>) = soft_deleted r"
  "encrypted (r\<lparr>r_flags := r_flags r OR FLAG_SHREDDED, r_metadata := m\<rparr>) = encrypted r"
  "shredded (r\<lparr>r_flags := r_flags r OR FLAG_SHREDDED, r_metadata := m\<rparr>)"
  by (simp_all add: soft_deleted_def encrypted_def shredded_def bit.conj_disj_distrib2 flag_defs
      or_eq_0_iff)

end
