(* ===== verification/Vector_Index.thy ===== *)
theory Vector_Index
  imports Vec_Math Record_Pool "HOL-Library.Product_Lexorder"
begin

text \<open>
  \<open>valori-kernel/src/index\<close>: search results and their order, the brute-force index, the 1-bit
  quantisation index with exact rescoring, and the \<open>ActiveIndex\<close> that dispatches between them. The
  trait \<open>VectorIndex\<close> is the locale \<open>vector_index\<close>; both indexes and the dispatcher are instances. A
  search writes into the caller's buffer, so it is a function from the buffer to the number of
  results and the new buffer; its length is the \<open>k\<close> of the search.
\<close>

section \<open>Search results\<close>

datatype SearchResult = SearchResult (score: i64) (sr_id: RecordId)

text \<open>\<open>Ord::cmp\<close> does not return \<open>Greater\<close>.\<close>

definition sr_cmp_le :: "SearchResult \<Rightarrow> SearchResult \<Rightarrow> bool" where
  "sr_cmp_le a b \<longleftrightarrow> sint (score a) < sint (score b)
     \<or> sint (score a) = sint (score b) \<and> sr_id a \<le> sr_id b"

instantiation SearchResult :: linorder
begin

definition less_eq_SearchResult :: "SearchResult \<Rightarrow> SearchResult \<Rightarrow> bool" where
  "less_eq_SearchResult = sr_cmp_le"

definition less_SearchResult :: "SearchResult \<Rightarrow> SearchResult \<Rightarrow> bool" where
  "less_SearchResult a b \<longleftrightarrow> sint (score a) < sint (score b)
     \<or> sint (score a) = sint (score b) \<and> sr_id a < sr_id b"

instance
proof
  show "a = b" if "a \<le> b" "b \<le> a" for a b :: SearchResult
    using that by (cases a; cases b) (auto simp: less_eq_SearchResult_def sr_cmp_le_def intro: signed_word_eqI)
qed (auto simp: less_eq_SearchResult_def sr_cmp_le_def less_SearchResult_def)

end

definition sr_default :: SearchResult where "sr_default = SearchResult 0 0"

text \<open>The filler that \<open>search_l2_ns\<close> and the quantised search put into the buffer first.\<close>

definition sr_worst :: SearchResult where "sr_worst = SearchResult 9223372036854775807 4294967295"

section \<open>Insertion into a bounded buffer\<close>

text \<open>
  The insertion loop of \<open>search_l2_ns\<close> shifts larger entries right and then stores the candidate; the
  loop of the quantised search stores it first and swaps it left.
\<close>

fun shift_in :: "'a::linorder \<Rightarrow> nat \<Rightarrow> 'a list \<Rightarrow> 'a list" where
  "shift_in c 0 rs = rs[0 := c]"
| "shift_in c (Suc p) rs =
     (if rs ! p > c then shift_in c p (rs[Suc p := rs ! p]) else rs[Suc p := c])"

fun swap_down :: "nat \<Rightarrow> 'a::linorder list \<Rightarrow> 'a list" where
  "swap_down 0 rs = rs"
| "swap_down (Suc p) rs =
     (if rs ! p > rs ! Suc p then swap_down p (rs[Suc p := rs ! p, p := rs ! Suc p]) else rs)"

definition swap_in :: "'a::linorder \<Rightarrow> nat \<Rightarrow> 'a list \<Rightarrow> 'a list" where
  "swap_in c p rs = swap_down p (rs[p := c])"

text \<open>One candidate offered to a buffer of \<open>k\<close> entries of which \<open>found\<close> are filled.\<close>

definition offer :: "('a::linorder \<Rightarrow> nat \<Rightarrow> 'a list \<Rightarrow> 'a list) \<Rightarrow> nat \<Rightarrow> 'a \<Rightarrow> nat \<times> 'a list
    \<Rightarrow> nat \<times> 'a list" where
  "offer place k c b =
     (case b of (found, rs) \<Rightarrow>
        if found < k then (found + 1, place c found rs)
        else if c < rs ! (k - 1) then (found, place c (k - 1) rs)
        else (found, rs))"

lemma sorted_eqI: "sorted xs \<Longrightarrow> sorted ys \<Longrightarrow> mset xs = mset ys \<Longrightarrow> xs = (ys :: 'a::linorder list)"
  by (metis properties_for_sort)

lemma insort_butlast:
  assumes "sorted T" "T \<noteq> []" "c < last T"
  shows "take (length T) (insort c T) = insort c (butlast T)"
proof -
  obtain B l where T: "T = B @ [l]" using assms(2) by (metis append_butlast_last_id)
  have "sorted (insort c B @ [l])"
    using assms T by (auto simp: sorted_append sorted_insort set_insort_key)
  then have "insort c T = insort c B @ [l]"
    using assms(1) T by (intro sorted_eqI) (auto simp: sorted_insort)
  then show ?thesis using T by simp
qed

lemma insort_last:
  assumes "sorted T" "T \<noteq> []" "last T \<le> c"
  shows "take (length T) (insort c T) = T"
proof -
  have "x \<le> c" if "x \<in> set T" for x
    using that assms by (metis append_butlast_last_id order_trans sorted_append list.set_intros(1)
        set_append Un_iff set_ConsD empty_iff list.set(1))
  then have "sorted (T @ [c])" using assms by (auto simp: sorted_append)
  then have "insort c T = T @ [c]"
    using assms(1) by (intro sorted_eqI) (auto simp: sorted_insort)
  then show ?thesis by simp
qed

locale placement =
  fixes place :: "'a::linorder \<Rightarrow> nat \<Rightarrow> 'a list \<Rightarrow> 'a list"
  assumes place_insort:
    "sorted (take pos rs) \<Longrightarrow> pos < length rs
       \<Longrightarrow> place c pos rs = insort c (take pos rs) @ drop (Suc pos) rs"
begin

lemma offer_topk:
  assumes "0 < k" "length rs0 = k"
  shows "offer place k c (min k (length cs), topk k cs @ drop (length cs) rs0)
       = (min k (length (cs @ [c])), topk k (cs @ [c]) @ drop (length (cs @ [c])) rs0)"
proof (cases "length cs < k")
  case True
  then have "place c (length cs) (topk k cs @ drop (length cs) rs0)
      = insort c (topk k cs) @ drop (Suc (length cs)) rs0"
    using assms by (subst place_insort) (auto simp: min_def)
  moreover have "topk k (cs @ [c]) = insort c (topk k cs)"
    using True by (simp add: topk_snoc min_def)
  ultimately show ?thesis
    using True by (simp add: offer_def min_def)
next
  case False
  then have T: "length (topk k cs) = k" "drop (length cs) rs0 = []"
    using assms by auto
  then have ne: "topk k cs \<noteq> []" using assms(1) by (metis list.size(3) less_irrefl)
  note T = T ne
  have lst: "topk k cs ! (k - Suc 0) = last (topk k cs)"
    using T by (simp add: last_conv_nth)
  have but: "take (k - 1) (topk k cs) = butlast (topk k cs)"
    using T by (simp add: butlast_conv_take)
  have "place c (k - 1) (topk k cs) = insort c (butlast (topk k cs))"
    using T assms by (subst place_insort) (auto simp: but [symmetric] sorted_wrt_take)
  then show ?thesis
    using False T insort_butlast [of "topk k cs" c] insort_last [of "topk k cs" c]
    by (auto simp: offer_def topk_snoc lst not_less min_def assms(2))
qed

lemma offers_topk:
  assumes "0 < k" "length rs0 = k"
  shows "fold (offer place k) cs (0, rs0) = (min k (length cs), topk k cs @ drop (length cs) rs0)"
proof (induction cs rule: rev_induct)
  case Nil
  then show ?case by (simp add: topk_def)
next
  case (snoc c cs)
  then show ?case using offer_topk [OF assms, of c cs] by simp
qed

end

lemma shift_in_insort:
  "sorted (take pos rs) \<Longrightarrow> pos < length rs
     \<Longrightarrow> shift_in c pos rs = insort c (take pos rs) @ drop (Suc pos) rs"
proof (induction pos arbitrary: rs)
  case 0
  then show ?case by (cases rs) auto
next
  case (Suc p)
  have take: "take (Suc p) rs = take p rs @ [rs ! p]"
    using Suc.prems by (simp add: take_Suc_conv_app_nth)
  have srt: "sorted (take p rs)" "\<forall>x \<in> set (take p rs). x \<le> rs ! p"
    using Suc.prems(1) unfolding take by (auto simp: sorted_append)
  show ?case
  proof (cases "rs ! p > c")
    case True
    have "shift_in c (Suc p) rs = insort c (take p rs) @ [rs ! p] @ drop (Suc (Suc p)) rs"
      using Suc.IH [of "rs[Suc p := rs ! p]"] srt Suc.prems True
      by (simp add: Cons_nth_drop_Suc [symmetric] drop_update_swap)
    moreover have "insort c (take (Suc p) rs) = insort c (take p rs) @ [rs ! p]"
      using True Suc.prems(1) srt unfolding take
      by (intro sorted_eqI) (auto simp: sorted_insort sorted_append set_insort_key)
    ultimately show ?thesis by simp
  next
    case False
    then have "insort c (take (Suc p) rs) = take (Suc p) rs @ [c]"
      using Suc.prems(1) srt unfolding take
      by (intro sorted_eqI) (auto simp: sorted_insort sorted_append)
    with False Suc.prems show ?thesis
      by (simp add: upd_conv_take_nth_drop)
  qed
qed

interpretation sh: placement shift_in
  by unfold_locales (rule shift_in_insort)

lemma swap_down_shift:
  "pos < length rs \<Longrightarrow> swap_down pos (rs[pos := c]) = shift_in c pos rs"
proof (induction pos arbitrary: rs)
  case (Suc p)
  have "rs[Suc p := c, Suc p := rs ! p, p := c] = (rs[Suc p := rs ! p])[p := c]"
    by simp
  with Suc show ?case by simp
qed simp

interpretation sw: placement swap_in
  by unfold_locales (simp add: swap_in_def swap_down_shift shift_in_insort)

section \<open>Brute force\<close>

definition matches :: "u64 option \<Rightarrow> Record \<Rightarrow> bool" where
  "matches flt r \<longleftrightarrow> (case flt of None \<Rightarrow> True | Some t \<Rightarrow> r_tag r = t)"

definition candidate :: "target \<Rightarrow> FxpVector \<Rightarrow> Record \<Rightarrow> SearchResult" where
  "candidate cpu query r = SearchResult (fxp_l2_sq cpu (r_vector r) query) (r_id r)"

text \<open>
  The standard library's max-heap as the list of its elements, in an order on which nothing depends: \<open>push\<close> adds one,
  \<open>peek\<close> is the greatest and \<open>pop\<close> removes it.
\<close>

definition bf_step :: "target \<Rightarrow> FxpVector \<Rightarrow> u64 option \<Rightarrow> nat \<Rightarrow> Record \<Rightarrow> SearchResult list \<Rightarrow> SearchResult list" where
  "bf_step cpu query flt k r heap =
     (if \<not> matches flt r then heap
      else let c = candidate cpu query r in
        if length heap < k then c # heap
        else if heap \<noteq> [] \<and> c < Max (set heap) then c # remove1 (Max (set heap)) heap
        else heap)"

fun write_from :: "nat \<Rightarrow> 'a list \<Rightarrow> 'a list \<Rightarrow> 'a list" where
  "write_from i [] buf = buf"
| "write_from i (x # xs) buf = write_from (Suc i) xs (buf[i := x])"

definition bf_search :: "target \<Rightarrow> RecordPool \<Rightarrow> FxpVector \<Rightarrow> SearchResult list \<Rightarrow> u64 option
    \<Rightarrow> nat \<times> SearchResult list" where
  "bf_search cpu pool query results flt =
     (let k = length results in
      if k = 0 then (0, results)
      else let heap = fold (bf_step cpu query flt k) (pool_iter pool) []
           in (length heap, write_from 0 (sort heap) results))"

definition bf_search_topk :: "target \<Rightarrow> nat \<Rightarrow> RecordPool \<Rightarrow> FxpVector \<Rightarrow> SearchResult list" where
  "bf_search_topk cpu K pool query = snd (bf_search cpu pool query (replicate K sr_default) None)"

text \<open>The exact answer: the \<open>k\<close> least candidates among the records that satisfy a predicate.\<close>

definition candidates :: "target \<Rightarrow> FxpVector \<Rightarrow> (Record \<Rightarrow> bool) \<Rightarrow> RecordPool \<Rightarrow> SearchResult list" where
  "candidates cpu query P pool = map (candidate cpu query) (filter P (live pool))"

definition answer :: "SearchResult list \<Rightarrow> SearchResult list \<Rightarrow> nat \<times> SearchResult list" where
  "answer cs buf = (min (length buf) (length cs), topk (length buf) cs @ drop (length cs) buf)"

text \<open>What an operation on the heap does to the sorted list of its elements.\<close>

lemma sort_split:
  assumes "heap \<noteq> []"
  obtains B l where "sort heap = B @ [l]"
  using assms by (metis length_0_conv length_sort rev_exhaust)

lemma heap_peek:
  assumes "heap \<noteq> []"
  shows "Max (set heap) = last (sort heap)"
proof -
  obtain B l where T: "sort heap = B @ [l]" using sort_split [OF assms] .
  have "set heap = insert l (set B)" using arg_cong [OF T, of set] by simp
  moreover have "\<forall>x \<in> set B. x \<le> l" using sorted_sort [of heap] unfolding T by (simp add: sorted_append)
  ultimately have "Max (set heap) = l" by (intro Max_eqI) auto
  then show ?thesis by (simp add: T)
qed

lemma heap_pop:
  assumes "heap \<noteq> []"
  shows "sort (remove1 (Max (set heap)) heap) = butlast (sort heap)"
proof -
  obtain B l where T: "sort heap = B @ [l]" using sort_split [OF assms] .
  have "mset heap = add_mset l (mset B)" using arg_cong [OF T, of mset] by simp
  then have "mset B = mset (remove1 l heap)" by simp
  moreover have "sorted B" using sorted_sort [of heap] unfolding T by (simp add: sorted_append)
  ultimately have "sort (remove1 l heap) = B" by (rule properties_for_sort)
  then show ?thesis by (simp add: T heap_peek [OF assms])
qed

lemma bf_fold:
  "0 < k \<Longrightarrow> sort (fold (bf_step cpu query flt k) rs [])
     = topk k (map (candidate cpu query) (filter (matches flt) rs))"
proof (induction rs rule: rev_induct)
  case Nil
  then show ?case by (simp add: topk_def)
next
  case (snoc r rs)
  let ?cs = "map (candidate cpu query) (filter (matches flt) rs)" and ?c = "candidate cpu query r"
  let ?H = "fold (bf_step cpu query flt k) rs []"
  have heap: "sort ?H = topk k ?cs" using snoc by simp
  then have len: "length ?H = length (topk k ?cs)" by (metis length_sort)
  show ?case
  proof (cases "matches flt r")
    case True
    have "sort (bf_step cpu query flt k r ?H) = take k (insort ?c (topk k ?cs))"
    proof (cases "length ?cs < k")
      case False
      then have T: "length (topk k ?cs) = k" by simp
      then have "topk k ?cs \<noteq> []" "?H \<noteq> []" using snoc.prems len by (metis list.size(3) less_irrefl)+
      with T True show ?thesis
        using insort_butlast [of "topk k ?cs" ?c] insort_last [of "topk k ?cs" ?c] heap_peek [of ?H] heap_pop [of ?H] heap len
        by (auto simp: bf_step_def Let_def not_less)
    qed (use True heap len in \<open>simp add: bf_step_def Let_def min_def\<close>)
    with True heap show ?thesis using topk_snoc [of k ?cs ?c] by simp
  next
    case False
    with heap show ?thesis by (simp add: bf_step_def [of cpu query flt k r])
  qed
qed

lemma write_from_append:
  "i + length xs \<le> length buf \<Longrightarrow> write_from i xs buf = take i buf @ xs @ drop (i + length xs) buf"
proof (induction xs arbitrary: i buf)
  case (Cons x xs)
  then show ?case
    by (simp add: take_Suc_conv_app_nth)
qed simp

lemma bf_search_answer:
  "bf_search cpu pool query results flt
     = answer (candidates cpu query (\<lambda>r. is_active r \<and> matches flt r) pool) results"
proof (cases "results = []")
  case True
  then show ?thesis by (simp add: bf_search_def answer_def topk_def)
next
  case False
  have "filter (matches flt) (pool_iter pool) = filter (\<lambda>r. is_active r \<and> matches flt r) (live pool)"
    by (simp add: pool_iter_def conj_commute)
  with False bf_fold [of "length results" cpu query flt "pool_iter pool"]
  have heap: "sort (fold (bf_step cpu query flt (length results)) (pool_iter pool) [])
      = topk (length results) (candidates cpu query (\<lambda>r. is_active r \<and> matches flt r) pool)"
    by (simp add: candidates_def)
  then have "length (fold (bf_step cpu query flt (length results)) (pool_iter pool) [])
      = length (topk (length results) (candidates cpu query (\<lambda>r. is_active r \<and> matches flt r) pool))"
    by (metis length_sort)
  with False heap show ?thesis
    by (simp add: bf_search_def Let_def answer_def write_from_append) (auto simp: min_def)
qed

section \<open>Binary quantisation\<close>

record BinaryQuantizationIndex =
  bq_dim :: nat
  bq_words_per_vec :: nat
  bq_codes :: "u64 list"

definition bq_new :: BinaryQuantizationIndex where
  "bq_new = \<lparr>bq_dim = 0, bq_words_per_vec = 0, bq_codes = []\<rparr>"

definition encode_step :: "nat \<times> FxpScalar \<Rightarrow> u64 list \<Rightarrow> u64 list" where
  "encode_step p code =
     (case p of (i, s) \<Rightarrow>
        if sint s > 0 then code[i div 64 := code ! (i div 64) OR push_bit (i mod 64) 1] else code)"

definition encode_vector :: "FxpVector \<Rightarrow> u64 list" where
  "encode_vector vec = fold encode_step (enumerate 0 vec) (replicate ((length vec + 63) div 64) 0)"

definition count_ones :: "u64 \<Rightarrow> u32" where
  "count_ones w = of_nat (length (filter (bit w) [0..<64]))"

definition hamming_distance :: "u64 list \<Rightarrow> u64 list \<Rightarrow> u32" where
  "hamming_distance a b = fold (\<lambda>(x, y) dist. dist + count_ones (x XOR y)) (zip a b) 0"

definition cmp_cand_less :: "u32 \<times> RecordId \<Rightarrow> u32 \<times> RecordId \<Rightarrow> bool" where
  "cmp_cand_less a b \<longleftrightarrow> fst a < fst b \<or> fst a = fst b \<and> snd a < snd b"

definition resize :: "nat \<Rightarrow> 'a \<Rightarrow> 'a list \<Rightarrow> 'a list" where
  "resize n x xs = (if n \<le> length xs then take n xs else xs @ replicate (n - length xs) x)"

text \<open>\<open>codes[start..start + len].copy_from_slice(code)\<close> and the slice read back.\<close>

definition copy_slice :: "nat \<Rightarrow> 'a list \<Rightarrow> 'a list \<Rightarrow> 'a list" where
  "copy_slice start code codes = take start codes @ code @ drop (start + length code) codes"

definition bq_slice :: "BinaryQuantizationIndex \<Rightarrow> nat \<Rightarrow> u64 list" where
  "bq_slice ix i = take (bq_words_per_vec ix) (drop (i * bq_words_per_vec ix) (bq_codes ix))"

definition bq_on_insert :: "RecordId \<Rightarrow> FxpVector \<Rightarrow> BinaryQuantizationIndex \<Rightarrow> BinaryQuantizationIndex" where
  "bq_on_insert i vec ix0 =
     (let ix = (if bq_dim ix0 = 0 \<and> vec \<noteq> []
                then ix0\<lparr>bq_dim := length vec, bq_words_per_vec := (length vec + 63) div 64\<rparr>
                else ix0) in
      if bq_words_per_vec ix = 0 \<or> length vec \<noteq> bq_dim ix then ix
      else
        let required_words = (unat i + 1) * bq_words_per_vec ix;
            codes = (if length (bq_codes ix) < required_words
                     then resize required_words 0 (bq_codes ix) else bq_codes ix);
            start = unat i * bq_words_per_vec ix
        in ix\<lparr>bq_codes := copy_slice start (encode_vector vec) codes\<rparr>)"

definition bq_on_delete :: "RecordId \<Rightarrow> BinaryQuantizationIndex \<Rightarrow> BinaryQuantizationIndex" where
  "bq_on_delete i ix =
     (if bq_words_per_vec ix = 0 then ix
      else let start = unat i * bq_words_per_vec ix in
        if start + bq_words_per_vec ix \<le> length (bq_codes ix)
        then ix\<lparr>bq_codes := copy_slice start (replicate (bq_words_per_vec ix) 0) (bq_codes ix)\<rparr>
        else ix)"

definition bq_rebuild_step :: "nat \<Rightarrow> nat \<Rightarrow> nat \<times> Record option \<Rightarrow> u64 list \<Rightarrow> u64 list" where
  "bq_rebuild_step dm words p codes =
     (case p of (idx, None) \<Rightarrow> codes
      | (idx, Some r) \<Rightarrow>
          if is_searchable r \<and> length (r_vector r) = dm
          then copy_slice (idx * words) (encode_vector (r_vector r)) codes else codes)"

definition bq_rebuild :: "RecordPool \<Rightarrow> BinaryQuantizationIndex" where
  "bq_rebuild pool =
     (case find (\<lambda>r. r_vector r \<noteq> []) (live pool) of
        None \<Rightarrow> bq_new
      | Some r0 \<Rightarrow>
          let dm = length (r_vector r0); words = (dm + 63) div 64
          in \<lparr>bq_dim = dm, bq_words_per_vec = words,
              bq_codes = fold (bq_rebuild_step dm words) (enumerate 0 pool)
                           (resize (pool_total_slots pool * words) 0 [])\<rparr>)"

definition partition_point :: "('a \<Rightarrow> bool) \<Rightarrow> 'a list \<Rightarrow> nat" where
  "partition_point P xs = length (takeWhile P xs)"

definition vec_insert :: "nat \<Rightarrow> 'a \<Rightarrow> 'a list \<Rightarrow> 'a list" where
  "vec_insert pos x xs = take pos xs @ x # drop pos xs"

text \<open>Stage 1 of the search: the candidate list after one more record.\<close>

definition bq_coarse_step :: "BinaryQuantizationIndex \<Rightarrow> u64 list \<Rightarrow> u64 option \<Rightarrow> nat \<Rightarrow> Record
    \<Rightarrow> (u32 \<times> RecordId) list \<Rightarrow> (u32 \<times> RecordId) list" where
  "bq_coarse_step ix query_code flt cap r cands =
     (if \<not> is_searchable r then cands
      else if \<not> matches flt r then cands
      else if unat (r_id r) * bq_words_per_vec ix + bq_words_per_vec ix > length (bq_codes ix) then cands
      else
        let c = (hamming_distance query_code (bq_slice ix (unat (r_id r))), r_id r);
            pos = partition_point (\<lambda>x. cmp_cand_less x c) cands
        in if length cands < cap then vec_insert pos c cands
           else if cmp_cand_less c (cands ! (cap - 1)) then vec_insert pos c (butlast cands)
           else cands)"

text \<open>Stage 2: exact scores of the surviving candidates.\<close>

definition bq_rescore_step :: "target \<Rightarrow> RecordPool \<Rightarrow> FxpVector \<Rightarrow> nat \<Rightarrow> u32 \<times> RecordId
    \<Rightarrow> nat \<times> SearchResult list \<Rightarrow> nat \<times> SearchResult list" where
  "bq_rescore_step cpu pool query k c b =
     (case pool_get pool (snd c) of
        None \<Rightarrow> b
      | Some r \<Rightarrow> if is_searchable r then offer swap_in k (candidate cpu query r) b else b)"

definition bq_search :: "target \<Rightarrow> BinaryQuantizationIndex \<Rightarrow> RecordPool \<Rightarrow> FxpVector
    \<Rightarrow> SearchResult list \<Rightarrow> u64 option \<Rightarrow> nat \<times> SearchResult list" where
  "bq_search cpu ix pool query results flt =
     (let k = length results in
      if k = 0 then (0, results)
      else let results = replicate k sr_worst in
        if bq_words_per_vec ix = 0 \<or> length query \<noteq> bq_dim ix then (0, results)
        else
          let query_code = encode_vector query;
              cap = max (40 * k) 400;
              cands = fold (bq_coarse_step ix query_code flt cap) (pool_iter pool) []
          in fold (bq_rescore_step cpu pool query k) cands (0, results))"

section \<open>What a code means\<close>

lemma encode_step_length [simp]: "length (encode_step p code) = length code"
  by (simp add: encode_step_def split: prod.splits)

lemma encode_fold_length [simp]: "length (fold encode_step ps code) = length code"
  by (induction ps arbitrary: code) simp_all

lemma length_encode_vector [simp]: "length (encode_vector v) = (length v + 63) div 64"
  by (simp add: encode_vector_def)

lemma div64_bound: "i < n \<Longrightarrow> i div 64 < (n + 63) div (64 :: nat)"
  by (simp add: less_mult_imp_div_less)

lemma encode_vector_snoc_aux:
  "length code = w \<Longrightarrow> j < 64 * w \<Longrightarrow> m + length v \<le> 64 * w \<Longrightarrow>
     bit (fold encode_step (enumerate m v) code ! (j div 64)) (j mod 64)
     \<longleftrightarrow> bit (code ! (j div 64)) (j mod 64) \<or> (m \<le> j \<and> j < m + length v \<and> sint (v ! (j - m)) > 0)"
proof (induction v arbitrary: code m)
  case (Cons s v)
  have j: "j div 64 < w" using Cons.prems(2) by (simp add: less_mult_imp_div_less mult.commute)
  have m: "m div 64 < w" using Cons.prems(3) by (simp add: less_mult_imp_div_less mult.commute)
  have eq: "j div 64 = m div 64 \<and> j mod 64 = m mod 64 \<longleftrightarrow> j = m"
    by (metis div_mult_mod_eq)
  have "bit (encode_step (m, s) code ! (j div 64)) (j mod 64)
      \<longleftrightarrow> bit (code ! (j div 64)) (j mod 64) \<or> (j = m \<and> sint s > 0)"
    using j m Cons.prems(1) eq
    by (cases "j div 64 = m div 64") (auto simp: encode_step_def bit_simps nth_list_update)
  then show ?case
    using Cons.IH [of "encode_step (m, s) code" "Suc m"] Cons.prems
    by (auto simp: nth_Cons' Suc_le_eq not_less le_less)
qed auto

lemma bit_encode_vector:
  assumes "j < 64 * ((length v + 63) div 64)"
  shows "bit (encode_vector v ! (j div 64)) (j mod 64) \<longleftrightarrow> j < length v \<and> sint (v ! j) > 0"
proof -
  have "length v \<le> 64 * ((length v + 63) div 64)" by linarith
  then show ?thesis
    using assms encode_vector_snoc_aux [of "replicate ((length v + 63) div 64) 0" _ j 0 v]
    by (simp add: encode_vector_def less_mult_imp_div_less mult.commute)
qed

text \<open>The number of coordinates in which exactly one of two vectors is positive.\<close>

definition sign_distance :: "FxpVector \<Rightarrow> FxpVector \<Rightarrow> nat" where
  "sign_distance a b = length (filter (\<lambda>(x, y). (sint x > 0) \<noteq> (sint y > 0)) (zip a b))"

lemma card_words:
  "(\<Sum>w<W. card {j. j < 64 \<and> P (64 * w + j)}) = card {i. i < 64 * (W :: nat) \<and> P i}"
proof (induction W)
  case (Suc W)
  have "{i. i < 64 * Suc W \<and> P i}
      = {i. i < 64 * W \<and> P i} \<union> (\<lambda>j. 64 * W + j) ` {j. j < 64 \<and> P (64 * W + j)}"
    by (auto simp: image_def) (metis add_less_cancel_left le_add_diff_inverse not_less add.commute)
  moreover have "card ((\<lambda>j. 64 * W + j) ` {j. j < 64 \<and> P (64 * W + j)}) = card {j. j < 64 \<and> P (64 * W + j)}"
    by (rule card_image) simp
  moreover have "{i. i < 64 * W \<and> P i} \<inter> (\<lambda>j. 64 * W + j) ` {j. j < 64 \<and> P (64 * W + j)} = {}"
    by auto
  ultimately show ?case
    using Suc by (simp add: card_Un_disjoint)
qed simp

lemma count_ones_xor:
  "count_ones (x XOR y) = of_nat (card {j. j < 64 \<and> bit x j \<noteq> bit y j})"
proof -
  have "length (filter (bit (x XOR y)) [0..<64]) = card {j. j < 64 \<and> bit x j \<noteq> bit y j}"
    by (subst distinct_card [symmetric]) (auto simp: bit_simps intro!: arg_cong [where f = card])
  then show ?thesis by (simp add: count_ones_def)
qed

lemma hamming_sum:
  assumes "length a = length b"
  shows "hamming_distance a b = of_nat (\<Sum>w<length a. card {j. j < 64 \<and> bit (a ! w) j \<noteq> bit (b ! w) j})"
proof -
  have gen: "length a = length b \<Longrightarrow> fold (\<lambda>(x, y) dist. dist + count_ones (x XOR y)) (zip a b) d
      = d + of_nat (\<Sum>w<length a. card {j. j < 64 \<and> bit (a ! w) j \<noteq> bit (b ! w) j})" for d :: u32
  proof (induction a b arbitrary: d rule: list_induct2')
    case (4 x xs y ys)
    then show ?case
      by (simp add: count_ones_xor sum.lessThan_Suc_shift algebra_simps del: sum.lessThan_Suc)
  qed simp_all
  show ?thesis using gen [OF assms, of 0] by (simp add: hamming_distance_def)
qed

lemma sign_distance_card:
  "length a = length b \<Longrightarrow>
     sign_distance a b = card {i. i < length a \<and> (sint (a ! i) > 0) \<noteq> (sint (b ! i) > 0)}"
  unfolding sign_distance_def length_filter_conv_card
  by (rule arg_cong [where f = card]) auto

lemma hamming_encode:
  assumes "length a = length b"
  shows "hamming_distance (encode_vector a) (encode_vector b) = of_nat (sign_distance a b)"
proof -
  let ?W = "(length a + 63) div 64"
  let ?P = "\<lambda>i. i < length a \<and> (sint (a ! i) > 0) \<noteq> (sint (b ! i) > 0)"
  have "bit (encode_vector a ! w) j \<noteq> bit (encode_vector b ! w) j \<longleftrightarrow> ?P (64 * w + j)"
    if "w < ?W" "j < 64" for w j
  proof -
    have "64 * w + j < 64 * ?W" using that by linarith
    moreover have "(64 * w + j) div 64 = w" "(64 * w + j) mod 64 = j" using that(2) by auto
    ultimately show ?thesis
      using bit_encode_vector [of "64 * w + j" a] bit_encode_vector [of "64 * w + j" b] assms by auto
  qed
  then have "(\<Sum>w<?W. card {j. j < 64 \<and> bit (encode_vector a ! w) j \<noteq> bit (encode_vector b ! w) j})
      = (\<Sum>w<?W. card {j. j < 64 \<and> ?P (64 * w + j)})"
    by (intro sum.cong refl arg_cong [where f = card] Collect_cong) auto
  also have "\<dots> = card {i. i < 64 * ?W \<and> ?P i}" by (rule card_words)
  also have "{i. i < 64 * ?W \<and> ?P i} = {i. ?P i}"
  proof -
    have "length a \<le> 64 * ?W" by linarith
    then show ?thesis by auto
  qed
  finally show ?thesis
    using assms by (simp add: hamming_sum sign_distance_card)
qed

section \<open>What the quantised search returns\<close>

definition pool_ids :: "RecordPool \<Rightarrow> bool" where
  "pool_ids p \<longleftrightarrow> length p \<le> 2 ^ 32 \<and> (\<forall>i r. slot p i = Some r \<longrightarrow> r_id r = i)"

lemma live_ids_aux:
  assumes "\<And>j r. j < length p \<Longrightarrow> p ! j = Some r \<Longrightarrow> unat (r_id r) = m + j"
  shows "distinct (map r_id (live p)) \<and> (\<forall>r \<in> set (live p). m \<le> unat (r_id r))"
  using assms
proof (induction p arbitrary: m)
  case (Cons s p)
  have IH: "distinct (map r_id (live p)) \<and> (\<forall>r \<in> set (live p). Suc m \<le> unat (r_id r))"
    using Cons.prems [of "Suc _"] by (intro Cons.IH) simp
  show ?case
  proof (cases s)
    case (Some r)
    then have "unat (r_id r) = m" using Cons.prems [of 0 r] by simp
    with IH Some show ?thesis by fastforce
  qed (use IH in \<open>auto dest: Suc_leD\<close>)
qed simp

lemma pool_ids_distinct:
  assumes "pool_ids p"
  shows "distinct (map r_id (live p))"
proof -
  have "unat (r_id r) = 0 + j" if "j < length p" "p ! j = Some r" for j r
  proof -
    have "j < 2 ^ 32" using that assms by (simp add: pool_ids_def)
    then have "slot p (of_nat j) = Some r" using that by (simp add: slot_nth)
    then show ?thesis using assms \<open>j < 2 ^ 32\<close> by (simp add: pool_ids_def unat_of_nat_len)
  qed
  then show ?thesis using live_ids_aux [of p 0] by blast
qed

lemma distinct_map_submset:
  assumes "mset xs \<subseteq># mset ys" "distinct (map f ys)"
  shows "distinct (map f xs)"
proof -
  obtain zs where "mset ys = mset (xs @ zs)"
    using assms(1) by (metis ex_mset mset_append subset_mset.add_diff_inverse)
  then have "mset (map f ys) = mset (map f (xs @ zs))" by simp
  then have "distinct (map f (xs @ zs))" using assms(2) by (metis mset_eq_imp_distinct_iff)
  then show ?thesis by simp
qed

lemma pool_ids_live: "pool_ids p \<Longrightarrow> r \<in> set (live p) \<longleftrightarrow> slot p (r_id r) = Some r"
  by (auto simp: pool_ids_def set_live_slot)

text \<open>
  The codes of an index agree with the pool: every searchable record with components has its own
  code, and the index has the dimension of the vectors.
\<close>

definition bq_ok :: "BinaryQuantizationIndex \<Rightarrow> RecordPool \<Rightarrow> bool" where
  "bq_ok ix pool \<longleftrightarrow>
     bq_words_per_vec ix = (bq_dim ix + 63) div 64 \<and>
     (\<forall>i r. slot pool i = Some r \<and> is_searchable r \<and> r_vector r \<noteq> [] \<longrightarrow>
        length (r_vector r) = bq_dim ix \<and>
        (unat i + 1) * bq_words_per_vec ix \<le> length (bq_codes ix) \<and>
        bq_slice ix (unat i) = encode_vector (r_vector r))"

lemma bq_okD:
  assumes "bq_ok ix pool" "slot pool i = Some r" "is_searchable r" "r_vector r \<noteq> []"
  shows "length (r_vector r) = bq_dim ix"
    "unat i * bq_words_per_vec ix + bq_words_per_vec ix \<le> length (bq_codes ix)"
    "bq_slice ix (unat i) = encode_vector (r_vector r)"
proof -
  have "length (r_vector r) = bq_dim ix \<and> (unat i + 1) * bq_words_per_vec ix \<le> length (bq_codes ix)
      \<and> bq_slice ix (unat i) = encode_vector (r_vector r)"
    using assms unfolding bq_ok_def by blast
  then show "length (r_vector r) = bq_dim ix"
    "unat i * bq_words_per_vec ix + bq_words_per_vec ix \<le> length (bq_codes ix)"
    "bq_slice ix (unat i) = encode_vector (r_vector r)" by (simp_all add: add.commute)
qed

lemma cmp_cand_less_eq [simp]: "cmp_cand_less a b \<longleftrightarrow> a < b"
  by (cases a; cases b) (auto simp: cmp_cand_less_def less_prod_def)

lemma vec_insert_insort:
  assumes "sorted xs"
  shows "vec_insert (partition_point (\<lambda>x. x < c) xs) c xs = insort c xs"
proof -
  have "takeWhile (\<lambda>x. x < c) xs @ dropWhile (\<lambda>x. x < c) xs = xs" by simp
  have "insort c xs = takeWhile (\<lambda>x. x < c) xs @ c # dropWhile (\<lambda>x. x < c) xs"
    using assms by (induction xs) auto
  then show ?thesis
    by (simp add: vec_insert_def partition_point_def takeWhile_eq_take [symmetric] dropWhile_eq_drop [symmetric])
qed

lemma partition_point_butlast:
  assumes "xs \<noteq> []" "\<not> P (last xs)"
  shows "partition_point P (butlast xs) = partition_point P xs"
proof -
  have "takeWhile P xs = takeWhile P (butlast xs)"
    using assms by (metis append_butlast_last_id append.right_neutral takeWhile_tail)
  then show ?thesis by (simp add: partition_point_def)
qed

definition coarse :: "FxpVector \<Rightarrow> Record \<Rightarrow> u32 \<times> RecordId" where
  "coarse query r = (of_nat (sign_distance query (r_vector r)), r_id r)"

lemma bq_coarse_fold:
  assumes ok: "bq_ok ix pool" "pool_ids pool" and q: "query \<noteq> []" "length query = bq_dim ix"
    and dims: "\<And>r. r \<in> set rs \<Longrightarrow> slot pool (r_id r) = Some r \<and> length (r_vector r) = length query"
    and cap: "0 < cap"
  shows "fold (bq_coarse_step ix (encode_vector query) flt cap) rs []
     = topk cap (map (coarse query) (filter (\<lambda>r. is_searchable r \<and> matches flt r) rs))"
  using dims
proof (induction rs rule: rev_induct)
  case Nil
  then show ?case by (simp add: topk_def)
next
  case (snoc r rs)
  let ?cs = "map (coarse query) (filter (\<lambda>r. is_searchable r \<and> matches flt r) rs)"
  let ?step = "bq_coarse_step ix (encode_vector query) flt cap"
  have IH: "fold ?step rs [] = topk cap ?cs" using snoc by auto
  have r: "slot pool (r_id r) = Some r" "length (r_vector r) = length query" using snoc.prems by auto
  show ?case
  proof (cases "is_searchable r \<and> matches flt r")
    case True
    have nonempty: "r_vector r \<noteq> []" using r q by auto
    have code: "bq_slice ix (unat (r_id r)) = encode_vector (r_vector r)"
      "\<not> unat (r_id r) * bq_words_per_vec ix + bq_words_per_vec ix > length (bq_codes ix)"
      using bq_okD [OF ok(1) r(1)] True nonempty by auto
    have ham: "hamming_distance (encode_vector query) (bq_slice ix (unat (r_id r)))
        = of_nat (sign_distance query (r_vector r))"
      using code r by (simp add: hamming_encode)
    have "?step r (topk cap ?cs) = take cap (insort (coarse query r) (topk cap ?cs))"
    proof (cases "length ?cs < cap")
      case True
      then show ?thesis
        using \<open>is_searchable r \<and> matches flt r\<close> code(2) ham
        by (simp add: bq_coarse_step_def Let_def vec_insert_insort coarse_def min_def)
    next
      case False
      then have T: "length (topk cap ?cs) = cap" by simp
      then have ne: "topk cap ?cs \<noteq> []" using cap by (metis list.size(3) less_irrefl)
      have lst: "topk cap ?cs ! (cap - Suc 0) = last (topk cap ?cs)"
        using T ne by (simp add: last_conv_nth)
      have ins: "vec_insert (partition_point (\<lambda>x. x < coarse query r) (topk cap ?cs)) (coarse query r)
          (butlast (topk cap ?cs)) = insort (coarse query r) (butlast (topk cap ?cs))"
        if "coarse query r < last (topk cap ?cs)"
        using that ne by (subst partition_point_butlast [symmetric])
          (auto simp: vec_insert_insort butlast_conv_take sorted_wrt_take)
      have "?step r (topk cap ?cs) =
          (if coarse query r < last (topk cap ?cs)
           then vec_insert (partition_point (\<lambda>x. x < coarse query r) (topk cap ?cs)) (coarse query r)
                  (butlast (topk cap ?cs))
           else topk cap ?cs)"
        using True code(2) ham T False
        by (simp add: bq_coarse_step_def Let_def coarse_def lst del: length_topk)
      with T ne ins show ?thesis
        using insort_butlast [of "topk cap ?cs" "coarse query r"]
          insort_last [of "topk cap ?cs" "coarse query r"]
        by (auto simp: not_less simp del: length_topk)
    qed
    with True IH show ?thesis using topk_snoc [of cap ?cs "coarse query r"] by simp
  next
    case False
    then have "?step r (topk cap ?cs) = topk cap ?cs" by (auto simp: bq_coarse_step_def)
    with False IH show ?thesis by auto
  qed
qed

text \<open>
  The specification of the quantised search: the \<open>cap\<close> records whose signs agree best with those of
  the query, rescored exactly.
\<close>

definition shortlist :: "nat \<Rightarrow> FxpVector \<Rightarrow> (Record \<Rightarrow> bool) \<Rightarrow> RecordPool \<Rightarrow> Record list" where
  "shortlist cap query P pool =
     List.map_filter (\<lambda>c. slot pool (snd c)) (topk cap (map (coarse query) (filter P (live pool))))"

lemma bq_rescore_fold:
  assumes "\<And>c. c \<in> set cs \<Longrightarrow> \<exists>r. slot pool (snd c) = Some r \<and> is_searchable r"
  shows "fold (bq_rescore_step cpu pool query k) cs b
     = fold (offer swap_in k) (map (candidate cpu query) (List.map_filter (\<lambda>c. slot pool (snd c)) cs)) b"
  using assms
proof (induction cs arbitrary: b)
  case (Cons c cs)
  obtain r where "slot pool (snd c) = Some r" "is_searchable r"
    using Cons.prems [of c] by auto
  with Cons show ?case by (simp add: bq_rescore_step_def map_filter_simps)
qed (simp add: map_filter_simps)

lemma bq_search_shortlist:
  assumes ok: "bq_ok ix pool" "pool_ids pool" and q: "query \<noteq> []"
    and dims: "\<And>r. r \<in> set (live pool) \<Longrightarrow> length (r_vector r) = length query"
    and d: "bq_dim ix \<noteq> 0 \<Longrightarrow> length query = bq_dim ix"
  shows "bq_search cpu ix pool query results flt
     = answer (map (candidate cpu query)
         (shortlist (max (40 * length results) 400) query (\<lambda>r. is_searchable r \<and> matches flt r) pool))
         (replicate (length results) sr_worst)"
proof (cases "results = []")
  case True
  then show ?thesis by (simp add: bq_search_def answer_def topk_def)
next
  case False
  let ?k = "length results" and ?P = "\<lambda>r. is_searchable r \<and> matches flt r"
  let ?cap = "max (40 * ?k) 400"
  have found: "slot pool (r_id r) = Some r" if "r \<in> set (live pool)" for r
    using that ok(2) by (simp add: pool_ids_live)
  show ?thesis
  proof (cases "bq_dim ix = 0")
    case True
    have "\<not> is_searchable r" if "r \<in> set (live pool)" for r
    proof -
      have "r_vector r \<noteq> []" using dims [OF that] q by (metis length_0_conv)
      then show ?thesis using bq_okD(1) [OF ok(1) found [OF that]] True by auto
    qed
    then have "filter ?P (live pool) = []" by (auto simp: filter_empty_conv)
    moreover have "bq_words_per_vec ix = 0" using ok(1) True by (simp add: bq_ok_def)
    ultimately show ?thesis
      using False by (simp add: bq_search_def answer_def shortlist_def topk_def map_filter_simps)
  next
    case dim: False
    have words: "bq_words_per_vec ix \<noteq> 0" "length query = bq_dim ix"
      using ok(1) dim d by (auto simp: bq_ok_def)
    have fl: "filter ?P (pool_iter pool) = filter ?P (live pool)"
      by (auto simp: pool_iter_def is_searchable_iff intro: filter_cong)
    have coarse: "fold (bq_coarse_step ix (encode_vector query) flt ?cap) (pool_iter pool) []
        = topk ?cap (map (coarse query) (filter ?P (live pool)))"
      unfolding fl [symmetric]
      by (rule bq_coarse_fold [OF ok q words(2)]) (auto simp: pool_iter_def found dims)
    have "\<exists>r. slot pool (snd c) = Some r \<and> is_searchable r"
      if "c \<in> set (topk ?cap (map (coarse query) (filter ?P (live pool))))" for c
      using that set_topk_subset [of ?cap "map (coarse query) (filter ?P (live pool))"] found
      by (auto simp: coarse_def)
    then show ?thesis
      using False words coarse sw.offers_topk [of ?k "replicate ?k sr_worst"]
      by (simp add: bq_search_def Let_def bq_rescore_fold answer_def shortlist_def del: drop_replicate)
  qed
qed

lemma mset_map_filter: "mset xs = mset ys \<Longrightarrow> mset (List.map_filter f xs) = mset (List.map_filter f ys)"
  unfolding map_filter_def mset_map mset_filter by simp

text \<open>While the searchable records fit the shortlist, the quantised search is exact.\<close>

lemma map_filter_coarse:
  assumes "pool_ids pool" "set rs \<subseteq> set (live pool)"
  shows "List.map_filter (\<lambda>c. slot pool (snd c)) (map (coarse query) rs) = rs"
  using assms(2)
proof (induction rs)
  case (Cons r rs)
  then have "slot pool (r_id r) = Some r" using pool_ids_live [OF assms(1)] by simp
  with Cons show ?case by (simp add: map_filter_simps coarse_def)
qed (simp add: map_filter_simps)

lemma shortlist_all:
  assumes ids: "pool_ids pool" and fits: "length (filter P (live pool)) \<le> cap"
  shows "mset (shortlist cap query P pool) = mset (filter P (live pool))"
proof -
  let ?rs = "filter P (live pool)"
  have "mset (topk cap (map (coarse query) ?rs)) = mset (map (coarse query) ?rs)"
    using fits by (simp add: topk_def)
  then have "mset (List.map_filter (\<lambda>c. slot pool (snd c)) (topk cap (map (coarse query) ?rs)))
      = mset (List.map_filter (\<lambda>c. slot pool (snd c)) (map (coarse query) ?rs))"
    by (rule mset_map_filter)
  then show ?thesis using map_filter_coarse [OF ids, of ?rs] by (simp add: shortlist_def)
qed

lemma mset_topk_subset: "mset (topk k xs) \<subseteq># mset xs"
  by (metis topk_def mset_sort append_take_drop_id mset_append mset_subset_eq_add_left)

lemma shortlist_subset:
  assumes "pool_ids pool"
  shows "mset (shortlist cap query P pool) \<subseteq># mset (filter P (live pool))"
proof -
  have "mset (List.map_filter f xs) \<subseteq># mset (List.map_filter f ys)" if "mset xs \<subseteq># mset ys"
    for f :: "u32 \<times> RecordId \<Rightarrow> Record option" and xs ys
    unfolding map_filter_def mset_map mset_filter
    by (intro image_mset_subseteq_mono multiset_filter_mono that)
  from this [OF mset_topk_subset]
  have "mset (shortlist cap query P pool) \<subseteq># mset (List.map_filter (\<lambda>c. slot pool (snd c))
      (map (coarse query) (filter P (live pool))))"
    unfolding shortlist_def .
  then show ?thesis by (simp add: map_filter_coarse [OF assms])
qed

lemma answer_mset: "mset cs = mset cs' \<Longrightarrow> answer cs buf = answer cs' buf"
  using topk_perm [of cs cs'] mset_eq_length [of cs cs'] by (simp add: answer_def)

section \<open>Keeping the codes\<close>

definition chunk :: "nat \<Rightarrow> nat \<Rightarrow> 'a list \<Rightarrow> 'a list" where
  "chunk w j xs = take w (drop (j * w) xs)"

lemma length_copy_slice: "s + length c \<le> length xs \<Longrightarrow> length (copy_slice s c xs) = length xs"
  by (simp add: copy_slice_def)

lemma chunk_copy:
  assumes "length c = w" "(i + 1) * w \<le> length xs"
  shows "chunk w j (copy_slice (i * w) c xs) = (if j = i then c else chunk w j xs)"
proof -
  have iw: "i * w \<le> length xs" "length (take (i * w) xs) = i * w" using assms(2) by auto
  consider "j = i" | "j < i" | "i < j" by linarith
  then show ?thesis
  proof cases
    case 1
    then show ?thesis using assms iw by (simp add: chunk_def copy_slice_def)
  next
    case 2
    then have "(j + 1) * w \<le> i * w" by (intro mult_right_mono) auto
    then have "j * w + w \<le> i * w" by simp
    with 2 iw show ?thesis by (simp add: chunk_def copy_slice_def drop_take)
  next
    case 3
    then have "(i + 1) * w \<le> j * w" by (intro mult_right_mono) auto
    then have "i * w + w \<le> j * w" by (simp add: add.commute)
    with 3 iw assms show ?thesis by (simp add: chunk_def copy_slice_def)
  qed
qed

lemma chunk_resize:
  "(j + 1) * w \<le> length xs \<Longrightarrow> length xs \<le> n \<Longrightarrow> chunk w j (resize n x xs) = chunk w j xs"
  by (simp add: chunk_def resize_def)

lemma bq_slice_eq: "bq_slice ix i = chunk (bq_words_per_vec ix) i (bq_codes ix)"
  by (simp add: bq_slice_def chunk_def)

lemma bq_ok_mono:
  assumes "bq_ok ix pool"
    and "\<And>i r. slot pool' i = Some r \<Longrightarrow> is_searchable r
           \<Longrightarrow> \<exists>r'. slot pool i = Some r' \<and> is_searchable r' \<and> r_vector r' = r_vector r"
  shows "bq_ok ix pool'"
  unfolding bq_ok_def
proof (intro conjI allI impI)
  show "bq_words_per_vec ix = (bq_dim ix + 63) div 64" using assms(1) by (simp add: bq_ok_def)
  fix i r assume r: "slot pool' i = Some r \<and> is_searchable r \<and> r_vector r \<noteq> []"
  then obtain r' where r': "slot pool i = Some r'" "is_searchable r'" "r_vector r' = r_vector r"
    using assms(2) by blast
  then show "length (r_vector r) = bq_dim ix" "(unat i + 1) * bq_words_per_vec ix \<le> length (bq_codes ix)"
    "bq_slice ix (unat i) = encode_vector (r_vector r)"
    using bq_okD [OF assms(1) r'(1,2)] r by auto
qed

lemma bq_on_delete_ok:
  assumes ok: "bq_ok ix pool" and gone: "\<And>r. slot pool i = Some r \<Longrightarrow> \<not> is_searchable r"
  shows "bq_ok (bq_on_delete i ix) pool"
proof (cases "bq_words_per_vec ix = 0 \<or> unat i * bq_words_per_vec ix + bq_words_per_vec ix > length (bq_codes ix)")
  case True
  then have "bq_on_delete i ix = ix" by (auto simp: bq_on_delete_def Let_def)
  with ok show ?thesis by simp
next
  case False
  let ?w = "bq_words_per_vec ix"
  have fits: "(unat i + 1) * ?w \<le> length (bq_codes ix)" using False by (simp add: add.commute)
  have del: "bq_on_delete i ix = ix\<lparr>bq_codes := copy_slice (unat i * ?w) (replicate ?w 0) (bq_codes ix)\<rparr>"
    using False by (simp add: bq_on_delete_def Let_def)
  show ?thesis
    unfolding bq_ok_def
  proof (intro conjI allI impI)
    show "bq_words_per_vec (bq_on_delete i ix) = (bq_dim (bq_on_delete i ix) + 63) div 64"
      using ok by (simp add: del bq_ok_def)
    fix j r assume r: "slot pool j = Some r \<and> is_searchable r \<and> r_vector r \<noteq> []"
    then have "unat j \<noteq> unat i" using gone by (metis word_unat_eq_iff)
    then show "length (r_vector r) = bq_dim (bq_on_delete i ix)"
      "(unat j + 1) * bq_words_per_vec (bq_on_delete i ix) \<le> length (bq_codes (bq_on_delete i ix))"
      "bq_slice (bq_on_delete i ix) (unat j) = encode_vector (r_vector r)"
      using bq_okD [OF ok, of j r] r fits
      by (simp_all add: del bq_slice_eq chunk_copy length_copy_slice add.commute)
  qed
qed

lemma bq_on_insert_ok:
  assumes ok: "bq_ok ix pool" and new: "slot pool i = None"
    and dims: "bq_dim ix \<noteq> 0 \<Longrightarrow> length vec = bq_dim ix"
    and pool': "\<And>j r. slot pool' j = Some r \<Longrightarrow> is_searchable r \<Longrightarrow>
        (if j = i then r_vector r = vec
         else \<exists>r'. slot pool j = Some r' \<and> is_searchable r' \<and> r_vector r' = r_vector r)"
  shows "bq_ok (bq_on_insert i vec ix) pool'"
proof (cases "vec = []")
  case True
  then have "bq_dim ix = 0" using dims by auto
  then have "bq_words_per_vec ix = 0" using ok by (simp add: bq_ok_def)
  then have ins: "bq_on_insert i vec ix = ix" using True by (simp add: bq_on_insert_def)
  have "bq_ok ix pool'"
  proof -
    have "r_vector r = []" if "slot pool' j = Some r" "is_searchable r" for j r
      using pool' [OF that] True \<open>bq_dim ix = 0\<close> bq_okD(1) [OF ok, of j]
      by (cases "j = i") force+
    with ok show ?thesis by (auto simp: bq_ok_def)
  qed
  with ins show ?thesis by simp
next
  case False
  define w where "w = (length vec + 63) div 64"
  define codes where "codes = (if length (bq_codes ix) < (unat i + 1) * w
      then resize ((unat i + 1) * w) 0 (bq_codes ix) else bq_codes ix)"
  have w: "w \<noteq> 0" 
  proof -
    have "64 \<le> length vec + 63" using False by (cases vec) auto
    then show ?thesis unfolding w_def by linarith
  qed
  have ins: "bq_on_insert i vec ix = \<lparr>bq_dim = length vec, bq_words_per_vec = w,
      bq_codes = copy_slice (unat i * w) (encode_vector vec) codes\<rparr>"
    using False dims ok w
    by (cases "bq_dim ix = 0") (auto simp: bq_on_insert_def Let_def w_def codes_def bq_ok_def)
  have long: "(unat i + 1) * w \<le> length codes" "length (bq_codes ix) \<le> length codes"
    by (auto simp: codes_def resize_def)
  have enc: "length (encode_vector vec) = w" by (simp add: w_def)
  have len: "length (copy_slice (unat i * w) (encode_vector vec) codes) = length codes"
    using long enc by (intro length_copy_slice) (simp add: add.commute)
  show ?thesis
    unfolding bq_ok_def
  proof (intro conjI allI impI)
    show "bq_words_per_vec (bq_on_insert i vec ix) = (bq_dim (bq_on_insert i vec ix) + 63) div 64"
      by (simp add: ins w_def)
    fix j r assume r: "slot pool' j = Some r \<and> is_searchable r \<and> r_vector r \<noteq> []"
    have "length (r_vector r) = length vec \<and> (unat j + 1) * w \<le> length codes
        \<and> chunk w (unat j) (copy_slice (unat i * w) (encode_vector vec) codes) = encode_vector (r_vector r)"
    proof (cases "j = i")
      case True
      then have "r_vector r = vec" using pool' [of j r] r by simp
      with True long enc show ?thesis by (simp add: chunk_copy)
    next
      case False
      then obtain r' where r': "slot pool j = Some r'" "is_searchable r'" "r_vector r' = r_vector r"
        using pool' [of j r] r by auto
      have ne: "r_vector r' \<noteq> []" using r r' by simp
      note old = bq_okD [OF ok r'(1,2) ne]
      have "bq_dim ix \<noteq> 0" using old(1) ne by (metis length_0_conv)
      then have dim: "length vec = bq_dim ix" by (rule dims)
      then have ww: "bq_words_per_vec ix = w" using ok by (simp add: bq_ok_def w_def)
      have nij: "unat j \<noteq> unat i" using False by (simp add: word_unat_eq_iff)
      have fit: "(unat j + 1) * w \<le> length (bq_codes ix)" using old(2) ww by (simp add: add.commute)
      have "chunk w (unat j) codes = chunk w (unat j) (bq_codes ix)"
        using fit by (auto simp: codes_def intro!: chunk_resize)
      then show ?thesis
        using old r' dim ww nij fit long enc by (simp add: chunk_copy bq_slice_eq)
    qed
    then show "length (r_vector r) = bq_dim (bq_on_insert i vec ix)"
      "(unat j + 1) * bq_words_per_vec (bq_on_insert i vec ix) \<le> length (bq_codes (bq_on_insert i vec ix))"
      "bq_slice (bq_on_insert i vec ix) (unat j) = encode_vector (r_vector r)"
      by (simp_all add: ins len bq_slice_eq)
  qed
qed

lemma bq_dim_on_insert: "bq_dim (bq_on_insert i vec ix) = (if bq_dim ix = 0 then length vec else bq_dim ix)"
  by (auto simp: bq_on_insert_def Let_def)

lemma bq_dim_on_delete [simp]: "bq_dim (bq_on_delete i ix) = bq_dim ix"
  by (simp add: bq_on_delete_def Let_def)

lemma bq_rebuild_fold:
  assumes "w = (dm + 63) div 64" "(m + length pool) * w \<le> length codes"
  shows "length (fold (bq_rebuild_step dm w) (enumerate m pool) codes) = length codes \<and>
    (\<forall>j. chunk w j (fold (bq_rebuild_step dm w) (enumerate m pool) codes) =
       (if m \<le> j \<and> j < m + length pool then
          (case pool ! (j - m) of
             Some r \<Rightarrow> if is_searchable r \<and> length (r_vector r) = dm then encode_vector (r_vector r)
                       else chunk w j codes
           | None \<Rightarrow> chunk w j codes)
        else chunk w j codes))"
  using assms(2)
proof (induction pool arbitrary: m codes)
  case (Cons s pool)
  let ?codes = "bq_rebuild_step dm w (m, s) codes"
  have room: "(m + 1) * w \<le> length codes"
  proof -
    have "(m + 1) * w \<le> (m + length (s # pool)) * w" by (intro mult_right_mono) auto
    with Cons.prems show ?thesis by linarith
  qed
  have step: "length ?codes = length codes"
    "chunk w j ?codes = (if j = m then
       (case s of Some r \<Rightarrow> if is_searchable r \<and> length (r_vector r) = dm then encode_vector (r_vector r)
                            else chunk w j codes
        | None \<Rightarrow> chunk w j codes) else chunk w j codes)" for j
    using room assms(1)
    by (auto simp: bq_rebuild_step_def chunk_copy length_copy_slice add.commute split: option.splits)
  have IH: "length (fold (bq_rebuild_step dm w) (enumerate (Suc m) pool) ?codes) = length ?codes \<and>
    (\<forall>j. chunk w j (fold (bq_rebuild_step dm w) (enumerate (Suc m) pool) ?codes) =
       (if Suc m \<le> j \<and> j < Suc m + length pool then
          (case pool ! (j - Suc m) of
             Some r \<Rightarrow> if is_searchable r \<and> length (r_vector r) = dm then encode_vector (r_vector r)
                       else chunk w j ?codes
           | None \<Rightarrow> chunk w j ?codes)
        else chunk w j ?codes))"
    using Cons.prems step(1) by (intro Cons.IH) simp
  show ?case
    using IH step by (auto simp: nth_Cons' not_less_eq_eq le_Suc_eq split: option.splits)
qed auto

lemma bq_rebuild_ok:
  assumes len: "length pool \<le> 2 ^ 32"
    and dims: "\<And>r. r \<in> set (live pool) \<Longrightarrow> length (r_vector r) = d"
  shows "bq_ok (bq_rebuild pool) pool" "bq_dim (bq_rebuild pool) \<in> {0, d}"
proof -
  show "bq_ok (bq_rebuild pool) pool"
  proof (cases "find (\<lambda>r. r_vector r \<noteq> []) (live pool)")
    case None
    then have "r_vector r = []" if "slot pool i = Some r" for i r
      using that len by (auto simp: find_None_iff set_live_slot)
    then show ?thesis by (auto simp: bq_rebuild_def None bq_ok_def bq_new_def)
  next
    case (Some r0)
    then have "r0 \<in> set (live pool)" by (auto simp: find_Some_iff)
    then have d: "length (r_vector r0) = d" by (rule dims)
    define w where "w = (d + 63) div 64"
    have "resize (pool_total_slots pool * w) 0 [] = replicate (length pool * w) (0 :: u64)"
      by (simp add: resize_def pool_total_slots_def)
    then have ix: "bq_rebuild pool = \<lparr>bq_dim = d, bq_words_per_vec = w, bq_codes =
        fold (bq_rebuild_step d w) (enumerate 0 pool) (replicate (length pool * w) 0)\<rparr>"
      by (simp add: bq_rebuild_def Some d w_def Let_def)
    note fold = bq_rebuild_fold [OF w_def, of 0 pool "replicate (length pool * w) 0", simplified]
    show ?thesis
      unfolding bq_ok_def
    proof (intro conjI allI impI)
      show "bq_words_per_vec (bq_rebuild pool) = (bq_dim (bq_rebuild pool) + 63) div 64"
        by (simp add: ix w_def)
      fix i r assume r: "slot pool i = Some r \<and> is_searchable r \<and> r_vector r \<noteq> []"
      then have i: "unat i < length pool" "pool ! unat i = Some r"
        by (auto simp: slot_def split: if_splits)
      have rd: "length (r_vector r) = d"
        using dims len r by (auto simp: set_live_slot)
      then show "length (r_vector r) = bq_dim (bq_rebuild pool)" by (simp add: ix)
      have "(unat i + 1) * w \<le> length pool * w" using i by (intro mult_right_mono) auto
      then show "(unat i + 1) * bq_words_per_vec (bq_rebuild pool) \<le> length (bq_codes (bq_rebuild pool))"
        using fold by (simp add: ix)
      show "bq_slice (bq_rebuild pool) (unat i) = encode_vector (r_vector r)"
        using fold i r rd by (simp add: ix bq_slice_eq)
    qed
  qed
  show "bq_dim (bq_rebuild pool) \<in> {0, d}"
    using dims by (auto simp: bq_rebuild_def bq_new_def Let_def find_Some_iff split: option.splits)
qed

section \<open>The active index\<close>

datatype IndexVariant = IV_BruteForce | IV_BinaryQuantization

datatype ActiveIndex = BruteForce | BinaryQuantization BinaryQuantizationIndex

definition index_default :: ActiveIndex where "index_default = BruteForce"

fun index_variant_of :: "ActiveIndex \<Rightarrow> IndexVariant" where
  "index_variant_of BruteForce = IV_BruteForce"
| "index_variant_of (BinaryQuantization _) = IV_BinaryQuantization"

fun index_on_insert :: "RecordId \<Rightarrow> FxpVector \<Rightarrow> ActiveIndex \<Rightarrow> ActiveIndex" where
  "index_on_insert i vec BruteForce = BruteForce"
| "index_on_insert i vec (BinaryQuantization ix) = BinaryQuantization (bq_on_insert i vec ix)"

fun index_on_delete :: "RecordId \<Rightarrow> ActiveIndex \<Rightarrow> ActiveIndex" where
  "index_on_delete i BruteForce = BruteForce"
| "index_on_delete i (BinaryQuantization ix) = BinaryQuantization (bq_on_delete i ix)"

fun index_rebuild :: "RecordPool \<Rightarrow> ActiveIndex \<Rightarrow> ActiveIndex" where
  "index_rebuild pool BruteForce = BruteForce"
| "index_rebuild pool (BinaryQuantization ix) = BinaryQuantization (bq_rebuild pool)"

fun index_search :: "target \<Rightarrow> ActiveIndex \<Rightarrow> RecordPool \<Rightarrow> FxpVector \<Rightarrow> SearchResult list \<Rightarrow> u64 option
    \<Rightarrow> nat \<times> SearchResult list" where
  "index_search cpu BruteForce pool query results flt = bf_search cpu pool query results flt"
| "index_search cpu (BinaryQuantization ix) pool query results flt =
     bq_search cpu ix pool query results flt"

text \<open>The index agrees with the pool, whose vectors have the dimension \<open>d\<close> once it is set.\<close>

fun index_ok :: "nat option \<Rightarrow> ActiveIndex \<Rightarrow> RecordPool \<Rightarrow> bool" where
  "index_ok d BruteForce pool \<longleftrightarrow> True"
| "index_ok d (BinaryQuantization ix) pool \<longleftrightarrow>
     bq_ok ix pool \<and> (bq_dim ix \<noteq> 0 \<longrightarrow> d = Some (bq_dim ix))"

section \<open>The contract of an index\<close>

definition same_searchable :: "RecordPool \<Rightarrow> RecordPool \<Rightarrow> RecordId \<Rightarrow> bool" where
  "same_searchable pool' pool j \<longleftrightarrow>
     (\<forall>r. slot pool' j = Some r \<longrightarrow> is_searchable r \<longrightarrow>
        (\<exists>r'. slot pool j = Some r' \<and> is_searchable r' \<and> r_vector r' = r_vector r))"

locale vector_index =
  fixes on_insert :: "RecordId \<Rightarrow> FxpVector \<Rightarrow> 'i \<Rightarrow> 'i" and on_delete :: "RecordId \<Rightarrow> 'i \<Rightarrow> 'i"
    and rebuild :: "RecordPool \<Rightarrow> 'i \<Rightarrow> 'i"
    and search :: "target \<Rightarrow> 'i \<Rightarrow> RecordPool \<Rightarrow> FxpVector \<Rightarrow> SearchResult list \<Rightarrow> u64 option
      \<Rightarrow> nat \<times> SearchResult list"
    and ok :: "nat option \<Rightarrow> 'i \<Rightarrow> RecordPool \<Rightarrow> bool"
  assumes insert_ok: "ok d ix pool \<Longrightarrow> slot pool i = None \<Longrightarrow> d = None \<or> d = Some (length vec)
      \<Longrightarrow> (\<And>j. j \<noteq> i \<Longrightarrow> same_searchable pool' pool j)
      \<Longrightarrow> (\<And>r. slot pool' i = Some r \<Longrightarrow> is_searchable r \<Longrightarrow> r_vector r = vec)
      \<Longrightarrow> ok (Some (length vec)) (on_insert i vec ix) pool'"
    and delete_ok: "ok d ix pool \<Longrightarrow> (\<And>j. j \<noteq> i \<Longrightarrow> same_searchable pool' pool j)
      \<Longrightarrow> (\<And>r. slot pool' i = Some r \<Longrightarrow> \<not> is_searchable r) \<Longrightarrow> ok d (on_delete i ix) pool'"
    and mono: "ok d ix pool \<Longrightarrow> d' = d \<or> d = None \<Longrightarrow> (\<And>j. same_searchable pool' pool j) \<Longrightarrow> ok d' ix pool'"
    and rebuild_ok: "length pool \<le> 2 ^ 32 \<Longrightarrow> (\<And>r. r \<in> set (live pool) \<Longrightarrow> d = Some (length (r_vector r)))
      \<Longrightarrow> ok d (rebuild pool ix) pool"
    and sound: "ok (Some (length query)) ix pool \<Longrightarrow> pool_ids pool \<Longrightarrow> query \<noteq> []
      \<Longrightarrow> (\<And>r. r \<in> set (live pool) \<Longrightarrow> length (r_vector r) = length query)
      \<Longrightarrow> \<exists>rs buf. mset rs \<subseteq># mset (filter (\<lambda>r. is_active r \<and> matches flt r) (live pool))
            \<and> length buf = length results
            \<and> search cpu ix pool query results flt = answer (map (candidate cpu query) rs) buf"
begin

lemma search_results:
  assumes "ok (Some (length query)) ix pool" "pool_ids pool" "query \<noteq> []"
    "\<And>r. r \<in> set (live pool) \<Longrightarrow> length (r_vector r) = length query"
    and run: "search cpu ix pool query results flt = (n, rs)"
  shows "n \<le> length results" "length rs = length results" "sorted (take n rs)"
    "distinct (map sr_id (take n rs))"
    "x \<in> set (take n rs) \<Longrightarrow> \<exists>r. slot pool (sr_id x) = Some r \<and> is_active r \<and> matches flt r
       \<and> score x = fxp_l2_sq cpu (r_vector r) query"
proof -
  let ?ok = "\<lambda>r. is_active r \<and> matches flt r"
  obtain cs buf where sub: "mset cs \<subseteq># mset (filter ?ok (live pool))" and len: "length buf = length results"
    and ans: "search cpu ix pool query results flt = answer (map (candidate cpu query) cs) buf"
    using sound [OF assms(1-4)] by blast
  let ?cs = "map (candidate cpu query) cs" and ?k = "length results"
  have n: "n = min ?k (length cs)" and rs: "rs = topk ?k ?cs @ drop (length cs) buf"
    using run ans len by (simp_all add: answer_def)
  have tk: "take n rs = topk ?k ?cs" using n rs by simp
  show "n \<le> ?k" "length rs = ?k" using n rs len by simp_all
  show "sorted (take n rs)" by (simp add: tk)
  have in_pool: "slot pool (r_id r) = Some r \<and> ?ok r" if "r \<in> set cs" for r
  proof -
    have "r \<in> set (filter ?ok (live pool))"
      using that sub by (metis mset_subset_eqD set_mset_mset)
    then show ?thesis using pool_ids_live [OF assms(2)] by auto
  qed
  show "\<exists>r. slot pool (sr_id x) = Some r \<and> is_active r \<and> matches flt r
      \<and> score x = fxp_l2_sq cpu (r_vector r) query" if "x \<in> set (take n rs)"
  proof -
    have "x \<in> set ?cs" using that set_topk_subset [of ?k ?cs] by (auto simp: tk)
    then obtain r where "r \<in> set cs" "x = candidate cpu query r" by auto
    then show ?thesis using in_pool by (auto simp: candidate_def)
  qed
  have "distinct (map r_id (filter ?ok (live pool)))"
    by (rule distinct_map_filter [OF pool_ids_distinct [OF assms(2)]])
  then have "distinct (map sr_id ?cs)"
    using distinct_map_submset [OF sub] by (simp add: candidate_def comp_def)
  then show "distinct (map sr_id (take n rs))"
    unfolding tk by (rule distinct_map_submset [OF mset_topk_subset])
qed

end

lemma same_searchable_refl [simp]: "same_searchable pool pool j"
  by (simp add: same_searchable_def)

interpretation bf: vector_index "\<lambda>i vec ix. ix" "\<lambda>i ix. ix" "\<lambda>pool ix. ix"
  "\<lambda>cpu (ix :: unit). bf_search cpu" "\<lambda>d ix pool. True"
proof
  fix cpu ix pool query results flt
  show "\<exists>rs buf. mset rs \<subseteq># mset (filter (\<lambda>r. is_active r \<and> matches flt r) (live pool))
      \<and> length buf = length results
      \<and> bf_search cpu pool query results flt = answer (map (candidate cpu query) rs) buf"
    by (intro exI conjI, rule subset_mset.order_refl, rule refl)
      (simp add: bf_search_answer candidates_def)
qed auto

lemma bq_search_sound:
  assumes "bq_ok ix pool" "pool_ids pool" "query \<noteq> []" "bq_dim ix \<noteq> 0 \<Longrightarrow> length query = bq_dim ix"
    and "\<And>r. r \<in> set (live pool) \<Longrightarrow> length (r_vector r) = length query"
  shows "\<exists>rs buf. mset rs \<subseteq># mset (filter (\<lambda>r. is_active r \<and> matches flt r) (live pool))
      \<and> length buf = length results
      \<and> bq_search cpu ix pool query results flt = answer (map (candidate cpu query) rs) buf"
proof (intro exI conjI)
  let ?P = "\<lambda>r. is_searchable r \<and> matches flt r"
  let ?rs = "shortlist (max (40 * length results) 400) query ?P pool"
  let ?Q = "\<lambda>r. is_active r \<and> matches flt r"
  have "filter ?P (live pool) = filter is_searchable (filter ?Q (live pool))"
    unfolding filter_filter by (rule filter_cong) (auto simp: is_searchable_iff)
  then have "mset (filter ?P (live pool)) \<subseteq># mset (filter ?Q (live pool))"
    by (simp only: mset_filter [of is_searchable] multiset_filter_subset)
  with shortlist_subset [OF assms(2)] show "mset ?rs \<subseteq># mset (filter ?Q (live pool))"
    by (rule subset_mset.order_trans)
  show "length (replicate (length results) sr_worst) = length results" by simp
  show "bq_search cpu ix pool query results flt
      = answer (map (candidate cpu query) ?rs) (replicate (length results) sr_worst)"
    by (rule bq_search_shortlist [OF assms(1-3,5,4)])
qed

definition bq_rel :: "nat option \<Rightarrow> BinaryQuantizationIndex \<Rightarrow> RecordPool \<Rightarrow> bool" where
  "bq_rel d ix pool \<longleftrightarrow> bq_ok ix pool \<and> (bq_dim ix \<noteq> 0 \<longrightarrow> d = Some (bq_dim ix))"

interpretation bq: vector_index bq_on_insert bq_on_delete "\<lambda>pool ix. bq_rebuild pool" bq_search bq_rel
proof
  fix d ix pool pool' i and vec :: FxpVector
  show "bq_rel (Some (length vec)) (bq_on_insert i vec ix) pool'"
    if "bq_rel d ix pool" "slot pool i = None" "d = None \<or> d = Some (length vec)"
      "\<And>j. j \<noteq> i \<Longrightarrow> same_searchable pool' pool j"
      "\<And>r. slot pool' i = Some r \<Longrightarrow> is_searchable r \<Longrightarrow> r_vector r = vec"
  proof -
    have dim: "length vec = bq_dim ix" if "bq_dim ix \<noteq> 0"
      using that \<open>bq_rel d ix pool\<close> \<open>d = None \<or> d = Some (length vec)\<close> by (auto simp: bq_rel_def)
    have "bq_ok (bq_on_insert i vec ix) pool'"
    proof (rule bq_on_insert_ok [where pool = pool, OF _ that(2) dim])
      show "bq_ok ix pool" using that(1) by (simp add: bq_rel_def)
      show "if j = i then r_vector r = vec
          else \<exists>r'. slot pool j = Some r' \<and> is_searchable r' \<and> r_vector r' = r_vector r"
        if "slot pool' j = Some r" "is_searchable r" for j r
        using that \<open>\<And>j. j \<noteq> i \<Longrightarrow> same_searchable pool' pool j\<close> [of j]
          \<open>\<And>r. slot pool' i = Some r \<Longrightarrow> is_searchable r \<Longrightarrow> r_vector r = vec\<close> [of r]
        by (cases "j = i") (simp_all add: same_searchable_def)
    qed
    with dim show ?thesis by (simp add: bq_rel_def bq_dim_on_insert)
  qed
next
  fix d ix pool pool' i
  show "bq_rel d (bq_on_delete i ix) pool'"
    if "bq_rel d ix pool" "\<And>j. j \<noteq> i \<Longrightarrow> same_searchable pool' pool j"
      "\<And>r. slot pool' i = Some r \<Longrightarrow> \<not> is_searchable r"
  proof -
    have "bq_ok ix pool'"
    proof (rule bq_ok_mono [where pool = pool])
      show "bq_ok ix pool" using that(1) by (simp add: bq_rel_def)
      show "\<exists>r'. slot pool j = Some r' \<and> is_searchable r' \<and> r_vector r' = r_vector r"
        if r: "slot pool' j = Some r" "is_searchable r" for j r
        using r \<open>\<And>j. j \<noteq> i \<Longrightarrow> same_searchable pool' pool j\<close> [of j]
          \<open>\<And>r. slot pool' i = Some r \<Longrightarrow> \<not> is_searchable r\<close> [of r]
        by (cases "j = i") (simp_all add: same_searchable_def)
    qed
    then show ?thesis using that(1) bq_on_delete_ok [OF _ that(3)] by (simp add: bq_rel_def)
  qed
next
  fix d d' ix pool pool'
  show "bq_rel d' ix pool'" if "bq_rel d ix pool" "d' = d \<or> d = None" "\<And>j. same_searchable pool' pool j"
  proof -
    have "bq_ok ix pool'"
      by (rule bq_ok_mono [where pool = pool]) (use that(1,3) in \<open>simp_all add: bq_rel_def same_searchable_def\<close>)
    with that(1,2) show ?thesis by (auto simp: bq_rel_def)
  qed
next
  fix pool :: RecordPool and d and ix :: BinaryQuantizationIndex
  assume "length pool \<le> 2 ^ 32" and dims: "\<And>r. r \<in> set (live pool) \<Longrightarrow> d = Some (length (r_vector r))"
  then have "bq_ok (bq_rebuild pool) pool"
    by (intro bq_rebuild_ok(1) [where d = "the d"]) (assumption, metis option.sel)
  moreover have "d = Some (bq_dim (bq_rebuild pool))" if "bq_dim (bq_rebuild pool) \<noteq> 0"
  proof (cases "find (\<lambda>r. r_vector r \<noteq> []) (live pool)")
    case (Some r0)
    then have "r0 \<in> set (live pool)" by (auto simp: find_Some_iff)
    then have "d = Some (length (r_vector r0))" by (rule dims)
    then show ?thesis by (simp add: bq_rebuild_def Some Let_def)
  qed (use that in \<open>simp add: bq_rebuild_def bq_new_def\<close>)
  ultimately show "bq_rel d (bq_rebuild pool) pool" by (simp add: bq_rel_def)
next
  fix cpu ix pool results flt and query :: FxpVector
  assume "bq_rel (Some (length query)) ix pool" "pool_ids pool" "query \<noteq> []"
    "\<And>r. r \<in> set (live pool) \<Longrightarrow> length (r_vector r) = length query"
  then show "\<exists>rs buf. mset rs \<subseteq># mset (filter (\<lambda>r. is_active r \<and> matches flt r) (live pool))
      \<and> length buf = length results
      \<and> bq_search cpu ix pool query results flt = answer (map (candidate cpu query) rs) buf"
    by (intro bq_search_sound) (simp_all add: bq_rel_def)
qed

lemma index_ok_bq: "index_ok d (BinaryQuantization ix) pool \<longleftrightarrow> bq_rel d ix pool"
  by (simp add: bq_rel_def)

interpretation ai: vector_index index_on_insert index_on_delete index_rebuild index_search index_ok
proof
  fix d ix pool pool' i and vec :: FxpVector
  show "index_ok (Some (length vec)) (index_on_insert i vec ix) pool'"
    if "index_ok d ix pool" "slot pool i = None" "d = None \<or> d = Some (length vec)"
      "\<And>j. j \<noteq> i \<Longrightarrow> same_searchable pool' pool j"
      "\<And>r. slot pool' i = Some r \<Longrightarrow> is_searchable r \<Longrightarrow> r_vector r = vec"
    using that by (cases ix) (auto simp only: index_on_insert.simps index_ok.simps(1) index_ok_bq intro: bq.insert_ok)
next
  fix d ix pool pool' i
  show "index_ok d (index_on_delete i ix) pool'"
    if "index_ok d ix pool" "\<And>j. j \<noteq> i \<Longrightarrow> same_searchable pool' pool j"
      "\<And>r. slot pool' i = Some r \<Longrightarrow> \<not> is_searchable r"
    using that by (cases ix) (auto simp only: index_on_delete.simps index_ok.simps(1) index_ok_bq intro: bq.delete_ok)
next
  fix d d' ix pool pool'
  show "index_ok d' ix pool'" if "index_ok d ix pool" "d' = d \<or> d = None" "\<And>j. same_searchable pool' pool j"
    using that by (cases ix) (auto simp only: index_ok.simps(1) index_ok_bq intro: bq.mono)
next
  fix pool :: RecordPool and d and ix
  show "index_ok d (index_rebuild pool ix) pool"
    if "length pool \<le> 2 ^ 32" "\<And>r. r \<in> set (live pool) \<Longrightarrow> d = Some (length (r_vector r))"
    using that by (cases ix) (auto simp only: index_rebuild.simps index_ok.simps(1) index_ok_bq intro: bq.rebuild_ok)
next
  fix cpu ix pool results flt and query :: FxpVector
  show "\<exists>rs buf. mset rs \<subseteq># mset (filter (\<lambda>r. is_active r \<and> matches flt r) (live pool))
      \<and> length buf = length results
      \<and> index_search cpu ix pool query results flt = answer (map (candidate cpu query) rs) buf"
    if "index_ok (Some (length query)) ix pool" "pool_ids pool" "query \<noteq> []"
    "\<And>r. r \<in> set (live pool) \<Longrightarrow> length (r_vector r) = length query"
  proof (cases ix)
    case BruteForce
    then show ?thesis using bf.sound [of pool query] that by simp
  next
    case (BinaryQuantization b)
    then have "bq_rel (Some (length query)) b pool" using that(1) by (simp add: bq_rel_def)
    from bq.sound [OF this that(2-4)] show ?thesis
      unfolding BinaryQuantization index_search.simps by blast
  qed
qed

end
