(* ===== verification/Kernel_Event.thy ===== *)
theory Kernel_Event
  imports Valori_Core "HOL-Library.Monad_Syntax"
begin

text \<open>
  \<open>valori-kernel/src/event.rs\<close>: the events, their names, and their hand-written serialisation. The
  codec of the primitive values is the \<open>bincode\<close> crate: it is the parameter \<open>B\<close> of the definitions, a
  record with an encoder and a decoder per primitive. What the code relies on, that a decoder returns
  the encoded value and leaves the bytes after it, is \<open>bincode_laws B\<close>.
\<close>

section \<open>Events\<close>

type_synonym rust_string = bytes

datatype KernelEvent =
    InsertRecord RecordId FxpVector "bytes option" u64
  | DeleteRecord RecordId
  | CreateNode NodeId NodeKind "RecordId option"
  | CreateEdge EdgeId NodeId NodeId EdgeKind
  | DeleteEdge EdgeId
  | SoftDeleteRecord RecordId
  | DeleteNode NodeId
  | InsertRecordEncrypted RecordId KeyId bytes "bytes option" u64
  | ShredKey KeyId
  | AutoInsertRecord FxpVector "bytes option" u64
  | AutoCreateNode NodeKind "RecordId option"
  | AutoCreateEdge NodeId NodeId EdgeKind
  | AutoInsertRecordEncrypted u16 KeyId bytes u64
  | UpdateRecordMetadata RecordId "bytes option"
  | SetMeta rust_string rust_string
  | AutoCreateNamespace rust_string
  | DropNamespace rust_string

fun event_type :: "KernelEvent \<Rightarrow> string" where
  "event_type (InsertRecord _ _ _ _) = ''InsertRecord''"
| "event_type (DeleteRecord _) = ''DeleteRecord''"
| "event_type (CreateNode _ _ _) = ''CreateNode''"
| "event_type (CreateEdge _ _ _ _) = ''CreateEdge''"
| "event_type (DeleteEdge _) = ''DeleteEdge''"
| "event_type (SoftDeleteRecord _) = ''SoftDeleteRecord''"
| "event_type (DeleteNode _) = ''DeleteNode''"
| "event_type (InsertRecordEncrypted _ _ _ _ _) = ''InsertRecordEncrypted''"
| "event_type (ShredKey _) = ''ShredKey''"
| "event_type (AutoInsertRecord _ _ _) = ''AutoInsertRecord''"
| "event_type (AutoCreateNode _ _) = ''AutoCreateNode''"
| "event_type (AutoCreateEdge _ _ _) = ''AutoCreateEdge''"
| "event_type (AutoInsertRecordEncrypted _ _ _ _) = ''AutoInsertRecordEncrypted''"
| "event_type (UpdateRecordMetadata _ _) = ''UpdateRecordMetadata''"
| "event_type (SetMeta _ _) = ''SetMeta''"
| "event_type (AutoCreateNamespace _) = ''AutoCreateNamespace''"
| "event_type (DropNamespace _) = ''DropNamespace''"

section \<open>Primitive codecs\<close>

type_synonym 'a decoder = "bytes \<Rightarrow> ('a \<times> bytes) option"

record bincode =
  enc_u8 :: "u8 \<Rightarrow> bytes"
  dec_u8 :: "u8 decoder"
  enc_u16 :: "u16 \<Rightarrow> bytes"
  dec_u16 :: "u16 decoder"
  enc_u32 :: "u32 \<Rightarrow> bytes"
  dec_u32 :: "u32 decoder"
  enc_u64 :: "u64 \<Rightarrow> bytes"
  dec_u64 :: "u64 decoder"
  enc_i32 :: "i32 \<Rightarrow> bytes"
  dec_i32 :: "i32 decoder"
  enc_len :: "nat \<Rightarrow> bytes"
  dec_len :: "nat decoder"
  enc_variant :: "u32 \<Rightarrow> bytes"
  dec_variant :: "u32 decoder"
  enc_opt :: "bool \<Rightarrow> bytes"
  dec_opt :: "bool decoder"
  enc_str :: "rust_string \<Rightarrow> bytes"
  dec_str :: "rust_string decoder"

definition codec_law :: "('a \<Rightarrow> bytes) \<Rightarrow> 'a decoder \<Rightarrow> 'a \<Rightarrow> bool" where
  "codec_law enc dec x \<longleftrightarrow> (\<forall>rest. dec (enc x @ rest) = Some (x, rest))"

definition bincode_laws :: "bincode \<Rightarrow> bool" where
  "bincode_laws B \<longleftrightarrow>
     (\<forall>x. codec_law (enc_u8 B) (dec_u8 B) x) \<and> (\<forall>x. codec_law (enc_u16 B) (dec_u16 B) x) \<and>
     (\<forall>x. codec_law (enc_u32 B) (dec_u32 B) x) \<and> (\<forall>x. codec_law (enc_u64 B) (dec_u64 B) x) \<and>
     (\<forall>x. codec_law (enc_i32 B) (dec_i32 B) x) \<and>
     (\<forall>n < 2 ^ 64. codec_law (enc_len B) (dec_len B) n) \<and>
     (\<forall>x. codec_law (enc_variant B) (dec_variant B) x) \<and> (\<forall>x. codec_law (enc_opt B) (dec_opt B) x) \<and>
     (\<forall>s. utf8_valid s \<and> length s < 2 ^ 64 \<longrightarrow> codec_law (enc_str B) (dec_str B) s)"

text \<open>Sequences, fixed arrays and options, as the derived and built-in implementations write them.\<close>

definition enc_many :: "('a \<Rightarrow> bytes) \<Rightarrow> 'a list \<Rightarrow> bytes" where
  "enc_many enc xs = concat (map enc xs)"

fun dec_many :: "'a decoder \<Rightarrow> nat \<Rightarrow> 'a list decoder" where
  "dec_many dec 0 bs = Some ([], bs)"
| "dec_many dec (Suc n) bs =
     do { (x, bs) \<leftarrow> dec bs; (xs, bs) \<leftarrow> dec_many dec n bs; Some (x # xs, bs) }"

definition enc_vec :: "bincode \<Rightarrow> ('a \<Rightarrow> bytes) \<Rightarrow> 'a list \<Rightarrow> bytes" where
  "enc_vec B enc xs = enc_len B (length xs) @ enc_many enc xs"

definition dec_vec :: "bincode \<Rightarrow> 'a decoder \<Rightarrow> 'a list decoder" where
  "dec_vec B dec bs = do { (n, bs) \<leftarrow> dec_len B bs; dec_many dec n bs }"

definition enc_option :: "bincode \<Rightarrow> ('a \<Rightarrow> bytes) \<Rightarrow> 'a option \<Rightarrow> bytes" where
  "enc_option B enc x = (case x of None \<Rightarrow> enc_opt B False | Some a \<Rightarrow> enc_opt B True @ enc a)"

definition dec_option :: "bincode \<Rightarrow> 'a decoder \<Rightarrow> 'a option decoder" where
  "dec_option B dec bs =
     do { (t, bs) \<leftarrow> dec_opt B bs;
          if t then do { (a, bs) \<leftarrow> dec bs; Some (Some a, bs) } else Some (None, bs) }"

definition enc_key :: "bincode \<Rightarrow> KeyId \<Rightarrow> bytes" where
  "enc_key B = enc_many (enc_u8 B)"

definition dec_key :: "bincode \<Rightarrow> KeyId decoder" where
  "dec_key B = dec_many (dec_u8 B) 16"

text \<open>The derived codecs of the two kind enums: the variant index is the discriminant.\<close>

definition enc_node_kind :: "bincode \<Rightarrow> NodeKind \<Rightarrow> bytes" where
  "enc_node_kind B k = enc_variant B (ucast (node_kind_u8 k))"

definition dec_node_kind :: "bincode \<Rightarrow> NodeKind decoder" where
  "dec_node_kind B bs =
     do { (i, bs) \<leftarrow> dec_variant B bs;
          k \<leftarrow> (if i < 7 then node_kind_from_u8 (ucast i) else None); Some (k, bs) }"

definition enc_edge_kind :: "bincode \<Rightarrow> EdgeKind \<Rightarrow> bytes" where
  "enc_edge_kind B k = enc_variant B (ucast (edge_kind_u8 k))"

definition dec_edge_kind :: "bincode \<Rightarrow> EdgeKind decoder" where
  "dec_edge_kind B bs =
     do { (i, bs) \<leftarrow> dec_variant B bs;
          k \<leftarrow> (if i < 9 then edge_kind_from_u8 (ucast i) else None); Some (k, bs) }"

section \<open>Metadata\<close>

text \<open>
  \<open>RawMetadata\<close> and \<open>raw_metadata_serde\<close>: present metadata is its length as \<open>u32\<close> and then the vector
  with its own length, absent metadata is the \<open>u32\<close> zero alone. The reader takes a zero for absence.
\<close>

definition enc_raw_metadata :: "bincode \<Rightarrow> bytes option \<Rightarrow> bytes" where
  "enc_raw_metadata B md =
     (case md of
        Some m \<Rightarrow> enc_u32 B (of_nat (length m)) @ enc_vec B (enc_u8 B) m
      | None \<Rightarrow> enc_u32 B 0)"

definition dec_raw_metadata :: "bincode \<Rightarrow> bytes option decoder" where
  "dec_raw_metadata B bs =
     do { (len, bs) \<leftarrow> dec_u32 B bs;
          if len = 0 then Some (None, bs)
          else do { (m, bs) \<leftarrow> dec_vec B (dec_u8 B) bs; Some (Some m, bs) } }"

section \<open>The event codec\<close>

fun encode_event :: "bincode \<Rightarrow> KernelEvent \<Rightarrow> bytes" where
  "encode_event B (InsertRecord i vec md tag) =
     enc_variant B 0 @ enc_u32 B i @ enc_vec B (enc_i32 B) vec @ enc_raw_metadata B md @ enc_u64 B tag"
| "encode_event B (DeleteRecord i) = enc_variant B 1 @ enc_u32 B i"
| "encode_event B (CreateNode i kind rec) =
     enc_variant B 2 @ enc_u32 B i @ enc_node_kind B kind @ enc_option B (enc_u32 B) rec"
| "encode_event B (CreateEdge i from to kind) =
     enc_variant B 3 @ enc_u32 B i @ enc_u32 B from @ enc_u32 B to @ enc_edge_kind B kind"
| "encode_event B (DeleteEdge i) = enc_variant B 4 @ enc_u32 B i"
| "encode_event B (SoftDeleteRecord i) = enc_variant B 5 @ enc_u32 B i"
| "encode_event B (DeleteNode i) = enc_variant B 6 @ enc_u32 B i"
| "encode_event B (InsertRecordEncrypted i key ct mct tag) =
     enc_variant B 7 @ enc_u32 B i @ enc_key B key @ enc_vec B (enc_u8 B) ct
       @ enc_option B (enc_vec B (enc_u8 B)) mct @ enc_u64 B tag"
| "encode_event B (ShredKey key) = enc_variant B 8 @ enc_key B key"
| "encode_event B (AutoInsertRecord vec md tag) =
     enc_variant B 9 @ enc_vec B (enc_i32 B) vec @ enc_raw_metadata B md @ enc_u64 B tag"
| "encode_event B (AutoCreateNode kind rec) =
     enc_variant B 10 @ enc_node_kind B kind @ enc_option B (enc_u32 B) rec"
| "encode_event B (AutoCreateEdge from to kind) =
     enc_variant B 11 @ enc_u32 B from @ enc_u32 B to @ enc_edge_kind B kind"
| "encode_event B (AutoInsertRecordEncrypted ns key ct tag) =
     enc_variant B 12 @ enc_u16 B ns @ enc_key B key @ enc_vec B (enc_u8 B) ct @ enc_u64 B tag"
| "encode_event B (SetMeta key value) = enc_variant B 13 @ enc_str B key @ enc_str B value"
| "encode_event B (AutoCreateNamespace name) = enc_variant B 14 @ enc_str B name"
| "encode_event B (DropNamespace name) = enc_variant B 15 @ enc_str B name"
| "encode_event B (UpdateRecordMetadata i md) = enc_variant B 16 @ enc_u32 B i @ enc_raw_metadata B md"

definition decode_event :: "bincode \<Rightarrow> KernelEvent decoder" where
  "decode_event B bs =
     do { (v, bs) \<leftarrow> dec_variant B bs;
       if v = 0 then
         do { (i, bs) \<leftarrow> dec_u32 B bs; (vec, bs) \<leftarrow> dec_vec B (dec_i32 B) bs;
              (md, bs) \<leftarrow> dec_raw_metadata B bs; (tag, bs) \<leftarrow> dec_u64 B bs;
              Some (InsertRecord i vec md tag, bs) }
       else if v = 1 then do { (i, bs) \<leftarrow> dec_u32 B bs; Some (DeleteRecord i, bs) }
       else if v = 2 then
         do { (i, bs) \<leftarrow> dec_u32 B bs; (k, bs) \<leftarrow> dec_node_kind B bs;
              (rec, bs) \<leftarrow> dec_option B (dec_u32 B) bs; Some (CreateNode i k rec, bs) }
       else if v = 3 then
         do { (i, bs) \<leftarrow> dec_u32 B bs; (a, bs) \<leftarrow> dec_u32 B bs; (b, bs) \<leftarrow> dec_u32 B bs;
              (k, bs) \<leftarrow> dec_edge_kind B bs; Some (CreateEdge i a b k, bs) }
       else if v = 4 then do { (i, bs) \<leftarrow> dec_u32 B bs; Some (DeleteEdge i, bs) }
       else if v = 5 then do { (i, bs) \<leftarrow> dec_u32 B bs; Some (SoftDeleteRecord i, bs) }
       else if v = 6 then do { (i, bs) \<leftarrow> dec_u32 B bs; Some (DeleteNode i, bs) }
       else if v = 7 then
         do { (i, bs) \<leftarrow> dec_u32 B bs; (key, bs) \<leftarrow> dec_key B bs;
              (ct, bs) \<leftarrow> dec_vec B (dec_u8 B) bs;
              (mct, bs) \<leftarrow> dec_option B (dec_vec B (dec_u8 B)) bs; (tag, bs) \<leftarrow> dec_u64 B bs;
              Some (InsertRecordEncrypted i key ct mct tag, bs) }
       else if v = 8 then do { (key, bs) \<leftarrow> dec_key B bs; Some (ShredKey key, bs) }
       else if v = 9 then
         do { (vec, bs) \<leftarrow> dec_vec B (dec_i32 B) bs; (md, bs) \<leftarrow> dec_raw_metadata B bs;
              (tag, bs) \<leftarrow> dec_u64 B bs; Some (AutoInsertRecord vec md tag, bs) }
       else if v = 10 then
         do { (k, bs) \<leftarrow> dec_node_kind B bs; (rec, bs) \<leftarrow> dec_option B (dec_u32 B) bs;
              Some (AutoCreateNode k rec, bs) }
       else if v = 11 then
         do { (a, bs) \<leftarrow> dec_u32 B bs; (b, bs) \<leftarrow> dec_u32 B bs; (k, bs) \<leftarrow> dec_edge_kind B bs;
              Some (AutoCreateEdge a b k, bs) }
       else if v = 12 then
         do { (ns, bs) \<leftarrow> dec_u16 B bs; (key, bs) \<leftarrow> dec_key B bs;
              (ct, bs) \<leftarrow> dec_vec B (dec_u8 B) bs; (tag, bs) \<leftarrow> dec_u64 B bs;
              Some (AutoInsertRecordEncrypted ns key ct tag, bs) }
       else if v = 13 then
         do { (key, bs) \<leftarrow> dec_str B bs; (val, bs) \<leftarrow> dec_str B bs; Some (SetMeta key val, bs) }
       else if v = 14 then do { (name, bs) \<leftarrow> dec_str B bs; Some (AutoCreateNamespace name, bs) }
       else if v = 15 then do { (name, bs) \<leftarrow> dec_str B bs; Some (DropNamespace name, bs) }
       else if v = 16 then
         do { (i, bs) \<leftarrow> dec_u32 B bs; (md, bs) \<leftarrow> dec_raw_metadata B bs;
              Some (UpdateRecordMetadata i md, bs) }
       else None }"

section \<open>Round trips\<close>

lemma codec_lawD: "codec_law enc dec x \<Longrightarrow> dec (enc x @ rest) = Some (x, rest)"
  by (simp add: codec_law_def)

lemma bincode_lawsD:
  assumes "bincode_laws B"
  shows "dec_u8 B (enc_u8 B a @ rest) = Some (a, rest)" "dec_u16 B (enc_u16 B b @ rest) = Some (b, rest)"
    "dec_u32 B (enc_u32 B c @ rest) = Some (c, rest)" "dec_u64 B (enc_u64 B d @ rest) = Some (d, rest)"
    "dec_i32 B (enc_i32 B e @ rest) = Some (e, rest)"
    "n < 2 ^ 64 \<Longrightarrow> dec_len B (enc_len B n @ rest) = Some (n, rest)"
    "dec_variant B (enc_variant B v @ rest) = Some (v, rest)"
    "dec_opt B (enc_opt B t @ rest) = Some (t, rest)"
    "utf8_valid s \<Longrightarrow> length s < 2 ^ 64 \<Longrightarrow> dec_str B (enc_str B s @ rest) = Some (s, rest)"
  using assms unfolding bincode_laws_def codec_law_def by blast+

lemma dec_many_enc_many:
  assumes "\<And>x rest. dec (enc x @ rest) = Some (x, rest)"
  shows "dec_many dec (length xs) (enc_many enc xs @ rest) = Some (xs, rest)"
  using assms by (induction xs arbitrary: rest) (simp_all add: enc_many_def)

lemma vec_roundtrip:
  assumes "bincode_laws B" "length xs < 2 ^ 64" "\<And>x rest. dec (enc x @ rest) = Some (x, rest)"
  shows "dec_vec B dec (enc_vec B enc xs @ rest) = Some (xs, rest)"
  using bincode_lawsD(6) [OF assms(1,2)] dec_many_enc_many [of dec enc xs rest, OF assms(3)]
  by (simp add: dec_vec_def enc_vec_def)

lemma option_roundtrip:
  assumes "bincode_laws B" "\<And>a rest. x = Some a \<Longrightarrow> dec (enc a @ rest) = Some (a, rest)"
  shows "dec_option B dec (enc_option B enc x @ rest) = Some (x, rest)"
  using assms by (cases x) (simp_all add: dec_option_def enc_option_def bincode_lawsD)

lemma key_roundtrip:
  assumes "bincode_laws B" "length key = 16"
  shows "dec_key B (enc_key B key @ rest) = Some (key, rest)"
  using dec_many_enc_many [of "dec_u8 B" "enc_u8 B" key rest] assms
  by (simp add: dec_key_def enc_key_def bincode_lawsD)

lemma node_kind_codec:
  "bincode_laws B \<Longrightarrow> dec_node_kind B (enc_node_kind B k @ rest) = Some (k, rest)"
  by (cases k) (simp_all add: dec_node_kind_def enc_node_kind_def bincode_lawsD node_kind_from_u8_def)

lemma edge_kind_codec:
  "bincode_laws B \<Longrightarrow> dec_edge_kind B (enc_edge_kind B k @ rest) = Some (k, rest)"
  by (cases k) (simp_all add: dec_edge_kind_def enc_edge_kind_def bincode_lawsD edge_kind_from_u8_def)

text \<open>Metadata whose length is not a multiple of \<open>2\<^sup>32\<close>, in particular not empty.\<close>

definition metadata_ok :: "bytes option \<Rightarrow> bool" where
  "metadata_ok md \<longleftrightarrow> (case md of None \<Rightarrow> True
     | Some m \<Rightarrow> length m mod 2 ^ 32 \<noteq> 0 \<and> length m < 2 ^ 64)"

lemma raw_metadata_roundtrip:
  assumes "bincode_laws B" "metadata_ok md"
  shows "dec_raw_metadata B (enc_raw_metadata B md @ rest) = Some (md, rest)"
proof (cases md)
  case None
  with assms show ?thesis by (simp add: dec_raw_metadata_def enc_raw_metadata_def bincode_lawsD)
next
  case (Some m)
  have "(of_nat (length m) :: u32) \<noteq> 0"
    using assms(2) Some by (simp add: metadata_ok_def word_of_nat_eq_0_iff dvd_eq_mod_eq_0)
  moreover have "length m < 2 ^ 64" using assms(2) Some by (simp add: metadata_ok_def)
  ultimately show ?thesis
    using assms(1) Some vec_roundtrip [OF assms(1), of m "dec_u8 B" "enc_u8 B" rest]
    by (simp add: dec_raw_metadata_def enc_raw_metadata_def bincode_lawsD)
qed

definition text_ok :: "rust_string \<Rightarrow> bool" where
  "text_ok s \<longleftrightarrow> utf8_valid s \<and> length s < 2 ^ 64"

text \<open>
  What the Rust types guarantee of an event (key ids have 16 bytes, strings are UTF-8, lengths fit
  64 bits), and that no metadata is empty.
\<close>

fun event_wf :: "KernelEvent \<Rightarrow> bool" where
  "event_wf (InsertRecord _ vec md _) \<longleftrightarrow> length vec < 2 ^ 64 \<and> metadata_ok md"
| "event_wf (AutoInsertRecord vec md _) \<longleftrightarrow> length vec < 2 ^ 64 \<and> metadata_ok md"
| "event_wf (UpdateRecordMetadata _ md) \<longleftrightarrow> metadata_ok md"
| "event_wf (InsertRecordEncrypted _ key ct mct _) \<longleftrightarrow> length key = 16 \<and> length ct < 2 ^ 64
     \<and> (case mct of None \<Rightarrow> True | Some m \<Rightarrow> length m < 2 ^ 64)"
| "event_wf (AutoInsertRecordEncrypted _ key ct _) \<longleftrightarrow> length key = 16 \<and> length ct < 2 ^ 64"
| "event_wf (ShredKey key) \<longleftrightarrow> length key = 16"
| "event_wf (SetMeta key val) \<longleftrightarrow> text_ok key \<and> text_ok val"
| "event_wf (AutoCreateNamespace name) \<longleftrightarrow> text_ok name"
| "event_wf (DropNamespace name) \<longleftrightarrow> text_ok name"
| "event_wf _ \<longleftrightarrow> True"

lemma event_roundtrip_aux:
  assumes B: "bincode_laws B" and "event_wf e"
  shows "decode_event B (encode_event B e @ rest) = Some (e, rest)"
proof -
  note prim = bincode_lawsD [OF B]
  note compound = key_roundtrip [OF B] node_kind_codec [OF B] edge_kind_codec [OF B]
    raw_metadata_roundtrip [OF B] vec_roundtrip [OF B, OF _ prim(1)] vec_roundtrip [OF B, OF _ prim(5)]
    option_roundtrip [OF B, OF prim(3)]
  have mct: "dec_option B (dec_vec B (dec_u8 B)) (enc_option B (enc_vec B (enc_u8 B)) m @ rest) = Some (m, rest)"
    if "case m of None \<Rightarrow> True | Some b \<Rightarrow> length b < 2 ^ 64" for m rest
    using that by (intro option_roundtrip [OF B]) (auto intro!: vec_roundtrip [OF B] prim)
  show ?thesis
    using assms(2) by (cases e) (simp_all add: decode_event_def prim compound mct text_ok_def)
qed

text \<open>A concrete primitive codec with these laws: fixed-width little-endian integers.\<close>

definition read_nat :: "nat \<Rightarrow> nat decoder" where
  "read_nat n bs = (if length bs < n then None else Some (nat_le (take n bs), drop n bs))"

definition le_bincode :: bincode where
  "le_bincode =
     \<lparr>enc_u8 = (\<lambda>b. [b]), dec_u8 = (\<lambda>bs. case bs of [] \<Rightarrow> None | b # r \<Rightarrow> Some (b, r)),
      enc_u16 = le16, dec_u16 = (\<lambda>bs. do { (n, r) \<leftarrow> read_nat 2 bs; Some (of_nat n, r) }),
      enc_u32 = le32, dec_u32 = (\<lambda>bs. do { (n, r) \<leftarrow> read_nat 4 bs; Some (of_nat n, r) }),
      enc_u64 = le64, dec_u64 = (\<lambda>bs. do { (n, r) \<leftarrow> read_nat 8 bs; Some (of_nat n, r) }),
      enc_i32 = le32, dec_i32 = (\<lambda>bs. do { (n, r) \<leftarrow> read_nat 4 bs; Some (of_nat n, r) }),
      enc_len = le_nat 8, dec_len = read_nat 8,
      enc_variant = le32, dec_variant = (\<lambda>bs. do { (n, r) \<leftarrow> read_nat 4 bs; Some (of_nat n, r) }),
      enc_opt = (\<lambda>t. [if t then 1 else 0]),
      dec_opt = (\<lambda>bs. case bs of [] \<Rightarrow> None
         | b # r \<Rightarrow> if b = 0 then Some (False, r) else if b = 1 then Some (True, r) else None),
      enc_str = (\<lambda>s. le_nat 8 (length s) @ s),
      dec_str = (\<lambda>bs. do { (n, r) \<leftarrow> read_nat 8 bs;
         if length r < n \<or> \<not> utf8_valid (take n r) then None else Some (take n r, drop n r) })\<rparr>"

lemma le_bincode_laws: "bincode_laws le_bincode"
proof -
  have nat: "read_nat n (le_nat n k @ rest) = Some (k, rest)" if "k < 256 ^ n" for n k rest
    using that by (simp add: read_nat_def nat_le_le_nat)
  have le: "read_nat 2 (le16 a @ rest) = Some (unat a, rest)"
    "read_nat 4 (le32 b @ rest) = Some (unat b, rest)"
    "read_nat 8 (le64 c @ rest) = Some (unat c, rest)" for a b c rest
    using unat_bounds [of a] unat_bounds [of b] unat_bounds [of c]
    by (auto simp: le16_def le32_def le64_def intro!: nat)
  show ?thesis
    unfolding bincode_laws_def codec_law_def le_bincode_def
    by (auto simp: le nat)
qed

text \<open>C28: Every event whose metadata is not empty survives serialisation: decoding the bytes of an
  event, followed by anything, returns that event and exactly the bytes that follow it. The
  primitive codec is any with the laws of \<open>bincode_laws\<close>.\<close>

theorem event_roundtrip:
  assumes "bincode_laws B" "event_wf e"
  shows "decode_event B (encode_event B e @ rest) = Some (e, rest)"
  using assms by (rule event_roundtrip_aux)

theorem event_roundtrip_witness:
  "let e = InsertRecord 3 [65536, 0] (Some [7]) 9
   in bincode_laws le_bincode \<and> event_wf e
      \<and> decode_event le_bincode (encode_event le_bincode e @ [1, 2]) = Some (e, [1, 2])"
  using le_bincode_laws
    event_roundtrip [of le_bincode "InsertRecord 3 [65536, 0] (Some [7]) 9" "[1, 2]", OF le_bincode_laws]
  by (simp add: metadata_ok_def)

text \<open>Present but empty metadata does not survive: it is read back as absent, and the length prefix
  of the empty vector is left in the stream in front of whatever follows, for every primitive codec
  with those laws.\<close>

theorem empty_metadata_desync:
  assumes "bincode_laws B"
  shows "decode_event B (encode_event B (UpdateRecordMetadata i (Some [])) @ rest)
           = Some (UpdateRecordMetadata i None, enc_len B 0 @ rest)"
  using bincode_lawsD [OF assms]
  by (simp add: decode_event_def enc_raw_metadata_def dec_raw_metadata_def enc_vec_def enc_many_def)

theorem empty_metadata_desync_witness:
  "decode_event le_bincode (encode_event le_bincode (UpdateRecordMetadata 5 (Some [])))
     = Some (UpdateRecordMetadata 5 None, replicate 8 0)"
proof -
  have "le_nat n 0 = replicate n 0" for n
    by (induction n) simp_all
  then have "enc_len le_bincode 0 = replicate 8 0"
    by (simp add: le_bincode_def)
  then show ?thesis
    using empty_metadata_desync [OF le_bincode_laws, of 5 "[]"] by (simp only: append_Nil2)
qed

end
