(* ===== verification/Kernel_State.thy ===== *)
theory Kernel_State
  imports Graph Vector_Index Kernel_Event "HOL-Library.List_Lexorder"
begin

text \<open>
  \<open>valori-kernel/src/state/kernel.rs\<close>: the kernel state, its reads, and \<open>apply_event_ns\<close>, the one path by
  which it changes. An arm of \<open>apply_event_ns\<close> is a function to the new state or an error; what the
  arm leaves behind when it fails is made explicit by \<open>finish\<close>, since inserting into a kernel without
  dimension fixes the dimension before the metadata is checked.
\<close>

section \<open>The ordered metadata map\<close>

text \<open>A \<open>BTreeMap\<close> of strings: the list of its entries in byte order of the keys.\<close>

type_synonym meta_map = "(rust_string \<times> rust_string) list"

section \<open>State\<close>

record KernelState =
  ks_dim :: "nat option"
  ks_version :: u64
  ks_records :: RecordPool
  ks_nodes :: NodePool
  ks_edges :: EdgePool
  ks_index :: ActiveIndex
  ks_record_heads :: "u32 list"
  ks_encrypted_keys :: "KeyId \<rightharpoonup> RecordId list"
  ks_node_heads :: "u32 list"
  ks_meta :: meta_map

definition kernel_new :: KernelState where
  "kernel_new =
     \<lparr>ks_dim = None, ks_version = 0, ks_records = [], ks_nodes = [], ks_edges = [],
      ks_index = index_default, ks_record_heads = replicate MAX_NAMESPACES NS_LIST_NIL,
      ks_encrypted_keys = Map.empty, ks_node_heads = replicate MAX_NAMESPACES NS_LIST_NIL,
      ks_meta = []\<rparr>"

definition kernel_with_dim :: "nat \<Rightarrow> KernelState" where
  "kernel_with_dim d = (if d > 0 then kernel_new\<lparr>ks_dim := Some d\<rparr> else kernel_new)"

definition set_index_kind :: "IndexVariant \<Rightarrow> KernelState \<Rightarrow> KernelState" where
  "set_index_kind variant st =
     (if index_variant_of (ks_index st) = variant then st
      else st\<lparr>ks_index := index_rebuild (ks_records st)
                (case variant of IV_BruteForce \<Rightarrow> BruteForce
                 | IV_BinaryQuantization \<Rightarrow> BinaryQuantization bq_new)\<rparr>)"

section \<open>Reads\<close>

definition record_count :: "KernelState \<Rightarrow> nat" where
  "record_count st = length (pool_iter (ks_records st))"

definition total_record_slots :: "KernelState \<Rightarrow> nat" where
  "total_record_slots st = pool_total_slots (ks_records st)"

definition get_record :: "KernelState \<Rightarrow> RecordId \<Rightarrow> Record option" where
  "get_record st i = pool_get (ks_records st) i"

definition get_node :: "KernelState \<Rightarrow> NodeId \<Rightarrow> GraphNode option" where
  "get_node st i = slot (ks_nodes st) i"

definition get_edge :: "KernelState \<Rightarrow> EdgeId \<Rightarrow> GraphEdge option" where
  "get_edge st i = slot (ks_edges st) i"

definition iter_nodes :: "KernelState \<Rightarrow> GraphNode list" where
  "iter_nodes st = live (ks_nodes st)"

definition iter_records_in_ns :: "KernelState \<Rightarrow> u16 \<Rightarrow> Record list" where
  "iter_records_in_ns st ns = filter (\<lambda>r. r_namespace_id r = ns) (pool_iter (ks_records st))"

definition next_record_id :: "KernelState \<Rightarrow> RecordId" where
  "next_record_id st = of_nat (length (ks_records st))"

definition next_node_id :: "KernelState \<Rightarrow> NodeId" where
  "next_node_id st = of_nat (length (ks_nodes st))"

definition next_edge_id :: "KernelState \<Rightarrow> EdgeId" where
  "next_edge_id st = of_nat (length (ks_edges st))"

definition node_count :: "KernelState \<Rightarrow> nat" where "node_count st = live_count (ks_nodes st)"
definition edge_count :: "KernelState \<Rightarrow> nat" where "edge_count st = live_count (ks_edges st)"

definition is_edge_active :: "KernelState \<Rightarrow> EdgeId \<Rightarrow> bool" where
  "is_edge_active st i \<longleftrightarrow> slot (ks_edges st) i \<noteq> None"

text \<open>The edges an iterator yields when it is run to its end.\<close>

partial_function (option) run_edge_iter :: "EdgeId option \<Rightarrow> (GraphEdge \<Rightarrow> EdgeId option) \<Rightarrow> EdgePool
    \<Rightarrow> GraphEdge list \<Rightarrow> GraphEdge list option" where
  "run_edge_iter current nxt es acc =
     (case edge_iter_next nxt es current of
        None \<Rightarrow> Some acc
      | Some (e, next) \<Rightarrow> run_edge_iter next nxt es (acc @ [e]))"

definition outgoing_edges :: "KernelState \<Rightarrow> NodeId \<Rightarrow> GraphEdge list option option" where
  "outgoing_edges st i =
     map_option (\<lambda>n. run_edge_iter (n_first_out n) e_next_out (ks_edges st) []) (slot (ks_nodes st) i)"

definition incoming_edges :: "KernelState \<Rightarrow> NodeId \<Rightarrow> GraphEdge list option option" where
  "incoming_edges st i =
     map_option (\<lambda>n. run_edge_iter (n_first_in n) e_next_in (ks_edges st) []) (slot (ks_nodes st) i)"

definition search_l2 :: "target \<Rightarrow> KernelState \<Rightarrow> FxpVector \<Rightarrow> SearchResult list \<Rightarrow> u64 option
    \<Rightarrow> nat \<times> SearchResult list" where
  "search_l2 cpu st query results flt = index_search cpu (ks_index st) (ks_records st) query results flt"

text \<open>The walk along one namespace's list.\<close>

partial_function (option) ns_search_loop :: "u32 \<Rightarrow> target \<Rightarrow> RecordPool \<Rightarrow> FxpVector \<Rightarrow> nat
    \<Rightarrow> nat \<times> SearchResult list \<Rightarrow> (nat \<times> SearchResult list) option" where
  "ns_search_loop cursor cpu recs query k b =
     (if cursor = NS_LIST_NIL then Some b
      else case slot recs cursor of
             None \<Rightarrow> Some b
           | Some r \<Rightarrow>
               ns_search_loop (r_next_in_ns r) cpu recs query k
                 (if is_active r
                  then offer shift_in k (SearchResult (fxp_l2_sq cpu (r_vector r) query) cursor) b
                  else b))"

definition search_l2_ns :: "target \<Rightarrow> KernelState \<Rightarrow> FxpVector \<Rightarrow> SearchResult list \<Rightarrow> u16
    \<Rightarrow> (nat \<times> SearchResult list) kres" where
  "search_l2_ns cpu st query results ns =
     (if unat ns \<ge> MAX_NAMESPACES then Ok (0, results)
      else let k = length results in
        if k = 0 then Ok (0, results)
        else if unat ns \<ge> length (ks_record_heads st) then Panic
        else of_loop (map_option Ok
               (ns_search_loop (ks_record_heads st ! unat ns) cpu (ks_records st) query k
                  (0, replicate k sr_worst))))"

section \<open>Namespace lists\<close>

definition unlink_record_from_ns :: "u16 \<Rightarrow> u32 \<Rightarrow> u32 \<Rightarrow> KernelState \<Rightarrow> KernelState kres" where
  "unlink_record_from_ns ns prev next st =
     (if prev = NS_LIST_NIL \<and> unat ns \<ge> length (ks_record_heads st) then Panic
      else Ok (st\<lparr>ks_records := unlink_slots set_r_next set_r_prev prev next (ks_records st),
                  ks_record_heads := (if prev = NS_LIST_NIL then (ks_record_heads st)[unat ns := next]
                                      else ks_record_heads st)\<rparr>))"

definition unlink_node_from_ns :: "u16 \<Rightarrow> u32 \<Rightarrow> u32 \<Rightarrow> KernelState \<Rightarrow> KernelState kres" where
  "unlink_node_from_ns ns prev next st =
     (if prev = NS_LIST_NIL \<and> unat ns \<ge> length (ks_node_heads st) then Panic
      else Ok (st\<lparr>ks_nodes := unlink_slots set_n_next set_n_prev prev next (ks_nodes st),
                  ks_node_heads := (if prev = NS_LIST_NIL then (ks_node_heads st)[unat ns := next]
                                    else ks_node_heads st)\<rparr>))"

text \<open>Putting a freshly allocated record or node at the head of its namespace's list.\<close>

definition link_record :: "RecordId \<Rightarrow> u16 \<Rightarrow> KernelState \<Rightarrow> KernelState kres" where
  "link_record i ns st =
     (if unat ns \<ge> length (ks_record_heads st) then Panic
      else res_bind (link_front set_r_next set_r_prev i (ks_record_heads st ! unat ns) (ks_records st))
        (\<lambda>recs. Ok (st\<lparr>ks_records := recs, ks_record_heads := (ks_record_heads st)[unat ns := i]\<rparr>)))"

definition link_node :: "NodeId \<Rightarrow> u16 \<Rightarrow> KernelState \<Rightarrow> KernelState kres" where
  "link_node i ns st =
     (if unat ns \<ge> length (ks_node_heads st) then Panic
      else res_bind (link_front set_n_next set_n_prev i (ks_node_heads st ! unat ns) (ks_nodes st))
        (\<lambda>ns'. Ok (st\<lparr>ks_nodes := ns', ks_node_heads := (ks_node_heads st)[unat ns := i]\<rparr>)))"

section \<open>The arms of \<open>apply_event_ns\<close>\<close>

text \<open>\<open>finish st r\<close>: the outcome of an arm that leaves \<open>st\<close> behind when it fails.\<close>

definition finish :: "KernelState \<Rightarrow> KernelState kres \<Rightarrow> unit kres \<times> KernelState" where
  "finish st r =
     (case r of Ok st' \<Rightarrow> (Ok (), st') | Err e \<Rightarrow> (Err e, st)
      | Panic \<Rightarrow> (Panic, st) | Diverges \<Rightarrow> (Diverges, st))"

text \<open>The part shared by \<open>InsertRecord\<close> and \<open>AutoInsertRecord\<close>, after their id checks.\<close>

definition insert_body :: "FxpVector \<Rightarrow> bytes option \<Rightarrow> u64 \<Rightarrow> u16 \<Rightarrow> KernelState \<Rightarrow> KernelState kres" where
  "insert_body vec md tag ns st =
     (if (case md of Some m \<Rightarrow> length m > MAX_METADATA_SIZE | None \<Rightarrow> False) then Err MetadataTooLarge
      else let (i, recs) = pool_insert vec md tag ns (ks_records st) in
        res_bind (link_record i ns (st\<lparr>ks_records := recs\<rparr>))
          (\<lambda>st. Ok (st\<lparr>ks_index := index_on_insert i vec (ks_index st)\<rparr>)))"

definition insert_vector :: "FxpVector \<Rightarrow> bytes option \<Rightarrow> u64 \<Rightarrow> u16 \<Rightarrow> KernelState
    \<Rightarrow> unit kres \<times> KernelState" where
  "insert_vector vec md tag ns st =
     (case ks_dim st of
        Some d \<Rightarrow>
          if length vec \<noteq> d then (Err (DimensionMismatch d (length vec)), st)
          else finish st (insert_body vec md tag ns st)
      | None \<Rightarrow>
          let st' = st\<lparr>ks_dim := Some (length vec)\<rparr> in finish st' (insert_body vec md tag ns st'))"

definition apply_insert_record :: "RecordId \<Rightarrow> FxpVector \<Rightarrow> bytes option \<Rightarrow> u64 \<Rightarrow> u16 \<Rightarrow> KernelState
    \<Rightarrow> unit kres \<times> KernelState" where
  "apply_insert_record i vec md tag ns st =
     (if unat ns \<ge> MAX_NAMESPACES then (Err InvalidOperation, st)
      else if pool_next_id (ks_records st) \<noteq> i then (Err InvalidOperation, st)
      else insert_vector vec md tag ns st)"

definition apply_auto_insert_record :: "FxpVector \<Rightarrow> bytes option \<Rightarrow> u64 \<Rightarrow> u16 \<Rightarrow> KernelState
    \<Rightarrow> unit kres \<times> KernelState" where
  "apply_auto_insert_record vec md tag ns st =
     (if unat ns \<ge> MAX_NAMESPACES then (Err InvalidOperation, st)
      else insert_vector vec md tag ns st)"

definition apply_delete_record :: "RecordId \<Rightarrow> KernelState \<Rightarrow> KernelState kres" where
  "apply_delete_record i st =
     (case pool_get (ks_records st) i of
        None \<Rightarrow> Err NotFound
      | Some r \<Rightarrow>
          res_bind (unlink_record_from_ns (r_namespace_id r) (r_prev_in_ns r) (r_next_in_ns r) st)
            (\<lambda>st. res_bind (pool_delete i (ks_records st))
            (\<lambda>recs. Ok (st\<lparr>ks_records := recs, ks_index := index_on_delete i (ks_index st)\<rparr>))))"

definition apply_soft_delete_record :: "RecordId \<Rightarrow> KernelState \<Rightarrow> KernelState kres" where
  "apply_soft_delete_record i st =
     (case pool_get (ks_records st) i of
        None \<Rightarrow> Err NotFound
      | Some r \<Rightarrow>
          res_bind (unlink_record_from_ns (r_namespace_id r) (r_prev_in_ns r) (r_next_in_ns r) st)
            (\<lambda>st. res_bind (pool_soft_delete i (ks_records st))
            (\<lambda>recs. Ok (st\<lparr>ks_records := recs, ks_index := index_on_delete i (ks_index st)\<rparr>))))"

text \<open>The part shared by \<open>CreateNode\<close> and \<open>AutoCreateNode\<close>.\<close>

definition create_node_body :: "NodeId \<Rightarrow> NodeKind \<Rightarrow> RecordId option \<Rightarrow> u16 \<Rightarrow> KernelState
    \<Rightarrow> KernelState kres" where
  "create_node_body i kind rec ns st =
     (let check = (case rec of
          None \<Rightarrow> Ok ()
        | Some rid \<Rightarrow> (case pool_get (ks_records st) rid of
             None \<Rightarrow> Err NotFound
           | Some r \<Rightarrow> if r_namespace_id r \<noteq> ns then Err InvalidOperation else Ok ())) in
      res_bind check (\<lambda>_.
        let (allocated, ns') = node_pool_insert (node_new i kind rec ns) (ks_nodes st)
        in link_node allocated ns (st\<lparr>ks_nodes := ns'\<rparr>)))"

definition apply_create_node :: "NodeId \<Rightarrow> NodeKind \<Rightarrow> RecordId option \<Rightarrow> u16 \<Rightarrow> KernelState
    \<Rightarrow> KernelState kres" where
  "apply_create_node i kind rec ns st =
     (if unat ns \<ge> MAX_NAMESPACES then Err InvalidOperation
      else if next_node_id st \<noteq> i then Err InvalidOperation
      else create_node_body i kind rec ns st)"

definition apply_auto_create_node :: "NodeKind \<Rightarrow> RecordId option \<Rightarrow> u16 \<Rightarrow> KernelState \<Rightarrow> KernelState kres" where
  "apply_auto_create_node kind rec ns st =
     (if unat ns \<ge> MAX_NAMESPACES then Err InvalidOperation
      else create_node_body (next_node_id st) kind rec ns st)"

text \<open>The part shared by \<open>CreateEdge\<close> and \<open>AutoCreateEdge\<close>.\<close>

definition create_edge_body :: "NodeId \<Rightarrow> NodeId \<Rightarrow> EdgeKind \<Rightarrow> KernelState \<Rightarrow> KernelState kres" where
  "create_edge_body from to kind st =
     (case slot (ks_nodes st) from of
        None \<Rightarrow> Err NotFound
      | Some nf \<Rightarrow> (case slot (ks_nodes st) to of
          None \<Rightarrow> Err NotFound
        | Some nt \<Rightarrow>
            if n_namespace_id nf \<noteq> n_namespace_id nt then Err InvalidOperation
            else res_bind (add_edge kind from to (ks_nodes st) (ks_edges st))
              (\<lambda>(_, ns', es'). Ok (st\<lparr>ks_nodes := ns', ks_edges := es'\<rparr>))))"

definition apply_create_edge :: "EdgeId \<Rightarrow> NodeId \<Rightarrow> NodeId \<Rightarrow> EdgeKind \<Rightarrow> KernelState \<Rightarrow> KernelState kres" where
  "apply_create_edge i from to kind st =
     (if next_edge_id st \<noteq> i then Err InvalidOperation else create_edge_body from to kind st)"

definition apply_auto_create_edge :: "NodeId \<Rightarrow> NodeId \<Rightarrow> EdgeKind \<Rightarrow> KernelState \<Rightarrow> KernelState kres" where
  "apply_auto_create_edge from to kind st = create_edge_body from to kind st"

definition delete_node :: "NodeId \<Rightarrow> KernelState \<Rightarrow> KernelState kres" where
  "delete_node i st =
     (case slot (ks_nodes st) i of
        None \<Rightarrow> Err NotFound
      | Some n \<Rightarrow>
          res_bind (unlink_node_from_ns (n_namespace_id n) (n_prev_in_ns n) (n_next_in_ns n) st) (\<lambda>st.
            (case collect_edges (Option.bind (slot (ks_nodes st) i) n_first_out) e_next_out (ks_edges st) [] of
               None \<Rightarrow> Diverges
             | Some outs \<Rightarrow>
                 (case collect_edges (Option.bind (slot (ks_nodes st) i) n_first_in) e_next_in (ks_edges st) [] of
                    None \<Rightarrow> Diverges
                  | Some ins \<Rightarrow>
                      res_bind (delete_edges (outs @ ins) (ks_nodes st, ks_edges st)) (\<lambda>(ns', es').
                      res_bind (node_pool_delete i ns') (\<lambda>ns'.
                      Ok (st\<lparr>ks_nodes := ns', ks_edges := es'\<rparr>)))))))"

definition apply_delete_edge :: "EdgeId \<Rightarrow> KernelState \<Rightarrow> KernelState kres" where
  "apply_delete_edge i st =
     res_bind (delete_edge i (ks_nodes st, ks_edges st))
       (\<lambda>(ns', es'). Ok (st\<lparr>ks_nodes := ns', ks_edges := es'\<rparr>))"

definition apply_update_metadata :: "RecordId \<Rightarrow> bytes option \<Rightarrow> KernelState \<Rightarrow> KernelState kres" where
  "apply_update_metadata i md st =
     res_bind (pool_update_metadata i md (ks_records st)) (\<lambda>recs. Ok (st\<lparr>ks_records := recs\<rparr>))"

definition apply_set_meta :: "rust_string \<Rightarrow> rust_string \<Rightarrow> KernelState \<Rightarrow> KernelState kres" where
  "apply_set_meta key val st = Ok (st\<lparr>ks_meta := btree_insert key val (ks_meta st)\<rparr>)"

definition apply_create_namespace :: "u16 \<Rightarrow> KernelState \<Rightarrow> KernelState kres" where
  "apply_create_namespace ns st = (if unat ns \<ge> MAX_NAMESPACES then Err InvalidOperation else Ok st)"

text \<open>\<open>DropNamespace\<close>: clear the records of the list, then delete the nodes of the node list.\<close>

partial_function (option) drop_records :: "u32 \<Rightarrow> RecordPool \<Rightarrow> ActiveIndex
    \<Rightarrow> (RecordPool \<times> ActiveIndex) kres option" where
  "drop_records cursor recs ix =
     (if cursor = NS_LIST_NIL then Some (Ok (recs, ix))
      else if unat cursor \<ge> length recs then Some Panic
      else drop_records (case slot recs cursor of Some r \<Rightarrow> r_next_in_ns r | None \<Rightarrow> NS_LIST_NIL)
             (clear_slot cursor recs) (index_on_delete cursor ix))"

partial_function (option) collect_nodes :: "u32 \<Rightarrow> NodePool \<Rightarrow> NodeId list \<Rightarrow> NodeId list option" where
  "collect_nodes cursor ns' acc =
     (if cursor = NS_LIST_NIL then Some acc
      else collect_nodes (case slot ns' cursor of Some n \<Rightarrow> n_next_in_ns n | None \<Rightarrow> NS_LIST_NIL)
             ns' (acc @ [cursor]))"

fun delete_nodes :: "NodeId list \<Rightarrow> KernelState \<Rightarrow> KernelState kres" where
  "delete_nodes [] st = Ok st"
| "delete_nodes (i # is) st =
     (if slot (ks_nodes st) i \<noteq> None then
        (case delete_node i st of
           Ok st' \<Rightarrow> delete_nodes is st' | Err _ \<Rightarrow> delete_nodes is st
         | Panic \<Rightarrow> Panic | Diverges \<Rightarrow> Diverges)
      else delete_nodes is st)"

definition apply_drop_namespace :: "u16 \<Rightarrow> KernelState \<Rightarrow> KernelState kres" where
  "apply_drop_namespace ns st =
     (if unat ns = 0 then Err InvalidOperation
      else if unat ns \<ge> MAX_NAMESPACES then Err InvalidOperation
      else if unat ns \<ge> length (ks_record_heads st) \<or> unat ns \<ge> length (ks_node_heads st) then Panic
      else res_bind (of_loop (drop_records (ks_record_heads st ! unat ns) (ks_records st) (ks_index st)))
        (\<lambda>(recs, ix).
          let st = st\<lparr>ks_records := recs, ks_index := ix,
                      ks_record_heads := (ks_record_heads st)[unat ns := NS_LIST_NIL]\<rparr> in
          res_bind (of_loop (map_option Ok (collect_nodes (ks_node_heads st ! unat ns) (ks_nodes st) [])))
            (\<lambda>node_ids. res_bind (delete_nodes node_ids st)
            (\<lambda>st. Ok (st\<lparr>ks_node_heads := (ks_node_heads st)[unat ns := NS_LIST_NIL]\<rparr>)))))"

definition apply_insert_encrypted :: "RecordId \<Rightarrow> KeyId \<Rightarrow> bytes \<Rightarrow> u64 \<Rightarrow> u16 \<Rightarrow> KernelState
    \<Rightarrow> KernelState kres" where
  "apply_insert_encrypted i key ct tag ns st =
     (if unat ns \<ge> MAX_NAMESPACES then Err InvalidOperation
      else if pool_next_id (ks_records st) \<noteq> i then Err InvalidOperation
      else if length ct > MAX_METADATA_SIZE + 28 then Err MetadataTooLarge
      else case ks_dim st of
             None \<Rightarrow> Err InvalidOperation
           | Some d \<Rightarrow>
               let (allocated, recs) = pool_insert (replicate d 0) (Some ct) tag ns (ks_records st) in
               res_bind (pool_mark_encrypted allocated recs) (\<lambda>recs.
               link_record allocated ns
                 (st\<lparr>ks_records := recs,
                    ks_encrypted_keys := (ks_encrypted_keys st)
                      (key \<mapsto> (case ks_encrypted_keys st key of None \<Rightarrow> [] | Some is \<Rightarrow> is) @ [allocated])\<rparr>)))"

definition shred_one :: "RecordId \<Rightarrow> RecordPool \<Rightarrow> RecordPool" where
  "shred_one i recs = (case pool_mark_shredded i recs of Ok recs' \<Rightarrow> recs' | _ \<Rightarrow> recs)"

definition apply_shred_key :: "KeyId \<Rightarrow> KernelState \<Rightarrow> KernelState kres" where
  "apply_shred_key key st =
     (let is = (case ks_encrypted_keys st key of None \<Rightarrow> [] | Some is \<Rightarrow> is) in
      Ok (st\<lparr>ks_encrypted_keys := (ks_encrypted_keys st)(key := None),
             ks_records := fold shred_one is (ks_records st)\<rparr>))"

section \<open>Applying events\<close>

fun apply_arm :: "KernelEvent \<Rightarrow> u16 \<Rightarrow> KernelState \<Rightarrow> unit kres \<times> KernelState" where
  "apply_arm (InsertRecord i vec md tag) ns st = apply_insert_record i vec md tag ns st"
| "apply_arm (DeleteRecord i) ns st = finish st (apply_delete_record i st)"
| "apply_arm (SoftDeleteRecord i) ns st = finish st (apply_soft_delete_record i st)"
| "apply_arm (CreateNode i kind rec) ns st = finish st (apply_create_node i kind rec ns st)"
| "apply_arm (CreateEdge i from to kind) ns st = finish st (apply_create_edge i from to kind st)"
| "apply_arm (DeleteNode i) ns st = finish st (delete_node i st)"
| "apply_arm (DeleteEdge i) ns st = finish st (apply_delete_edge i st)"
| "apply_arm (AutoInsertRecord vec md tag) ns st = apply_auto_insert_record vec md tag ns st"
| "apply_arm (AutoCreateNode kind rec) ns st = finish st (apply_auto_create_node kind rec ns st)"
| "apply_arm (AutoCreateEdge from to kind) ns st = finish st (apply_auto_create_edge from to kind st)"
| "apply_arm (AutoInsertRecordEncrypted evt_ns key ct tag) ns st =
     finish st (apply_insert_encrypted (next_record_id st) key ct tag evt_ns st)"
| "apply_arm (UpdateRecordMetadata i md) ns st = finish st (apply_update_metadata i md st)"
| "apply_arm (SetMeta key val) ns st = finish st (apply_set_meta key val st)"
| "apply_arm (AutoCreateNamespace _) ns st = finish st (apply_create_namespace ns st)"
| "apply_arm (DropNamespace _) ns st = finish st (apply_drop_namespace ns st)"
| "apply_arm (InsertRecordEncrypted i key ct _ tag) ns st =
     finish st (apply_insert_encrypted i key ct tag ns st)"
| "apply_arm (ShredKey key) ns st = finish st (apply_shred_key key st)"

text \<open>
  A successful arm advances the version. \<open>AutoInsertRecordEncrypted\<close> returns through the arm of
  \<open>InsertRecordEncrypted\<close>, which advances it once.
\<close>

definition apply_event_ns :: "KernelEvent \<Rightarrow> u16 \<Rightarrow> KernelState \<Rightarrow> unit kres \<times> KernelState" where
  "apply_event_ns evt ns st =
     (case apply_arm evt ns st of
        (Ok _, st') \<Rightarrow> (case version_next (ks_version st') of
             Some v \<Rightarrow> (Ok (), st'\<lparr>ks_version := v\<rparr>) | None \<Rightarrow> (Panic, st'))
      | (r, st') \<Rightarrow> (r, st'))"

definition apply_event :: "KernelEvent \<Rightarrow> KernelState \<Rightarrow> unit kres \<times> KernelState" where
  "apply_event evt st = apply_event_ns evt DEFAULT_NS st"

definition create_node :: "NodeKind \<Rightarrow> RecordId option \<Rightarrow> KernelState \<Rightarrow> NodeId kres \<times> KernelState" where
  "create_node kind rec st =
     (let i = of_nat (length (ks_nodes st)) in
      case apply_event_ns (CreateNode i kind rec) DEFAULT_NS st of
        (r, st') \<Rightarrow> (res_bind r (\<lambda>_. Ok i), st'))"

definition create_edge :: "NodeId \<Rightarrow> NodeId \<Rightarrow> EdgeKind \<Rightarrow> KernelState \<Rightarrow> EdgeId kres \<times> KernelState" where
  "create_edge from to kind st =
     (let i = of_nat (length (ks_edges st)) in
      case apply_event_ns (CreateEdge i from to kind) DEFAULT_NS st of
        (r, st') \<Rightarrow> (res_bind r (\<lambda>_. Ok i), st'))"

section \<open>The invariant checker\<close>

fun check_slots :: "(nat \<Rightarrow> 'a \<Rightarrow> unit kres) \<Rightarrow> nat \<Rightarrow> 'a option list \<Rightarrow> unit kres" where
  "check_slots chk i [] = Ok ()"
| "check_slots chk i (None # xs) = check_slots chk (Suc i) xs"
| "check_slots chk i (Some a # xs) = res_bind (chk i a) (\<lambda>_. check_slots chk (Suc i) xs)"

definition check_node :: "KernelState \<Rightarrow> nat \<Rightarrow> GraphNode \<Rightarrow> unit kres" where
  "check_node st i n =
     (if unat (n_id n) \<noteq> i then Err InvalidOperation
      else if (case n_record n of Some rid \<Rightarrow> pool_get (ks_records st) rid = None | None \<Rightarrow> False)
      then Err NotFound
      else case n_first_out n of
             None \<Rightarrow> Ok ()
           | Some eid \<Rightarrow> (case slot (ks_edges st) eid of
                None \<Rightarrow> Err NotFound
              | Some e \<Rightarrow> if e_from e \<noteq> n_id n then Err InvalidOperation else Ok ()))"

definition check_edge :: "KernelState \<Rightarrow> nat \<Rightarrow> GraphEdge \<Rightarrow> unit kres" where
  "check_edge st i e =
     (if unat (e_id e) \<noteq> i then Err InvalidOperation
      else if slot (ks_nodes st) (e_from e) = None \<or> slot (ks_nodes st) (e_to e) = None then Err NotFound
      else case e_next_out e of
             None \<Rightarrow> Ok ()
           | Some nid \<Rightarrow> (case slot (ks_edges st) nid of
                None \<Rightarrow> Err NotFound
              | Some e' \<Rightarrow> if e_from e' \<noteq> e_from e then Err InvalidOperation else Ok ()))"

definition check_invariants :: "KernelState \<Rightarrow> unit kres" where
  "check_invariants st =
     res_bind (check_slots (check_node st) 0 (ks_nodes st))
       (\<lambda>_. check_slots (check_edge st) 0 (ks_edges st))"

section \<open>Rebuilding the namespace lists\<close>

text \<open>One iteration of each of the two loops, over the pool and the heads.\<close>

definition relink_step :: "('a \<Rightarrow> u16) \<Rightarrow> (u32 \<Rightarrow> 'a \<Rightarrow> 'a) \<Rightarrow> (u32 \<Rightarrow> 'a \<Rightarrow> 'a) \<Rightarrow> nat
    \<Rightarrow> ('a option list \<times> u32 list) kres \<Rightarrow> ('a option list \<times> u32 list) kres" where
  "relink_step ns_of set_nxt set_prv idx acc =
     res_bind acc (\<lambda>(pool, heads).
       (case slot pool (of_nat idx) of
          None \<Rightarrow> Ok (pool, heads)
        | Some a \<Rightarrow>
            let ns = min (unat (ns_of a)) (MAX_NAMESPACES - 1) in
            if ns \<ge> length heads then Panic
            else res_bind (link_front set_nxt set_prv (of_nat idx) (heads ! ns) pool)
              (\<lambda>pool. Ok (pool, heads[ns := of_nat idx]))))"

definition relink_all :: "('a \<Rightarrow> u16) \<Rightarrow> (u32 \<Rightarrow> 'a \<Rightarrow> 'a) \<Rightarrow> (u32 \<Rightarrow> 'a \<Rightarrow> 'a)
    \<Rightarrow> 'a option list \<Rightarrow> u32 list \<Rightarrow> ('a option list \<times> u32 list) kres" where
  "relink_all ns_of set_nxt set_prv pool heads =
     fold (relink_step ns_of set_nxt set_prv) (rev [0..<length pool])
       (Ok (pool, map (\<lambda>_. NS_LIST_NIL) heads))"

definition rebuild_namespace_lists :: "KernelState \<Rightarrow> KernelState kres" where
  "rebuild_namespace_lists st =
     res_bind (relink_all r_namespace_id set_r_next set_r_prev (ks_records st) (ks_record_heads st))
       (\<lambda>(recs, rh). res_bind (relink_all n_namespace_id set_n_next set_n_prev (ks_nodes st) (ks_node_heads st))
       (\<lambda>(ns', nh). Ok (st\<lparr>ks_records := recs, ks_record_heads := rh,
                          ks_nodes := ns', ks_node_heads := nh\<rparr>)))"

end
