(* ===== verification/Kernel_Inv.thy ===== *)
theory Kernel_Inv
  imports Kernel_State
begin

text \<open>
  The invariant of the kernel state and that every event preserves it: slots hold the record and node
  of their own id, all vectors have the kernel's dimension, the list of a namespace runs through
  exactly its records that are not soft-deleted (and exactly its nodes), the graph invariant, the
  agreement of the index with the pool, and the book-keeping of encryption keys.
\<close>

section \<open>Records and their lists\<close>

definition rec_members :: "RecordPool \<Rightarrow> nat \<Rightarrow> RecordId set" where
  "rec_members recs ns =
     {i. \<exists>r. slot recs i = Some r \<and> unat (r_namespace_id r) = ns \<and> \<not> soft_deleted r}"

definition rec_ok :: "nat option \<Rightarrow> RecordId \<Rightarrow> Record \<Rightarrow> bool" where
  "rec_ok d i r \<longleftrightarrow> r_id r = i \<and> unat (r_namespace_id r) < MAX_NAMESPACES \<and> d = Some (length (r_vector r))"

abbreviation rec_ptrs :: "RecordPool \<Rightarrow> u32 \<Rightarrow> (u32 \<times> u32) option" where
  "rec_ptrs \<equiv> ptrs r_next_in_ns r_prev_in_ns"

definition recs_ok :: "nat option \<Rightarrow> RecordPool \<Rightarrow> u32 list \<Rightarrow> bool" where
  "recs_ok d recs heads \<longleftrightarrow> length recs < 2 ^ 32 \<and>
     (\<forall>i r. slot recs i = Some r \<longrightarrow> rec_ok d i r) \<and>
     ns_lists (rec_ptrs recs) heads (rec_members recs)"

definition same_recs :: "RecordPool \<Rightarrow> RecordPool \<Rightarrow> bool" where
  "same_recs a b \<longleftrightarrow> length a = length b \<and> (\<forall>j. map_option r_core (slot a j) = map_option r_core (slot b j))"

lemma same_recs_slot: "same_recs a b \<Longrightarrow> slot a j = Some r \<Longrightarrow> \<exists>r'. slot b j = Some r' \<and> r_core r = r_core r'"
  unfolding same_recs_def by (metis map_option_eq_Some)

lemma same_recs_sym: "same_recs a b \<Longrightarrow> same_recs b a"
  by (simp add: same_recs_def)

lemma same_recs_trans: "same_recs a b \<Longrightarrow> same_recs b c \<Longrightarrow> same_recs a c"
  by (simp add: same_recs_def)

lemma same_recs_length: "same_recs a b \<Longrightarrow> length a = length b"
  by (simp add: same_recs_def)

lemma same_recs_unlink: "same_recs (unlink_slots set_r_next set_r_prev p n recs) recs"
  unfolding same_recs_def by (simp add: unlink_slots_frame)

lemma same_recs_link: "link_front set_r_next set_r_prev i old recs = Ok recs' \<Longrightarrow> same_recs recs' recs"
  unfolding same_recs_def by (simp add: link_front_length link_front_frame)

lemma rec_ok_core: "r_core r = r_core r' \<Longrightarrow> rec_ok d i r = rec_ok d i r'"
  by (auto simp: rec_ok_def dest: r_core_eqD)

lemma same_recs_members:
  assumes "same_recs a b"
  shows "rec_members a = rec_members b"
proof -
  have "rec_members a ns \<subseteq> rec_members b ns" if "same_recs a b" for a b ns
    unfolding rec_members_def
  proof safe
    fix i r assume "slot a i = Some r" "\<not> soft_deleted r"
    moreover from this that obtain r' where "slot b i = Some r'" "r_core r = r_core r'"
      using same_recs_slot by blast
    ultimately show "\<exists>r'. slot b i = Some r' \<and> unat (r_namespace_id r') = unat (r_namespace_id r) \<and> \<not> soft_deleted r'"
      using r_core_eqD [of r r'] by auto
  qed
  from this [OF assms] this [OF same_recs_sym [OF assms]] show ?thesis by (auto simp: fun_eq_iff)
qed

lemma recs_okD: "recs_ok d recs heads \<Longrightarrow> slot recs i = Some r \<Longrightarrow> rec_ok d i r"
  by (simp add: recs_ok_def)

lemma recs_ok_lists: "recs_ok d recs heads \<Longrightarrow> ns_lists (rec_ptrs recs) heads (rec_members recs)"
  by (simp add: recs_ok_def)

lemma recs_ok_pool_ids: "recs_ok d recs heads \<Longrightarrow> pool_ids recs"
  by (simp add: recs_ok_def pool_ids_def rec_ok_def)

lemma recs_ok_live:
  assumes "recs_ok d recs heads" "r \<in> set (live recs)"
  shows "slot recs (r_id r) = Some r" "d = Some (length (r_vector r))"
    "unat (r_namespace_id r) < MAX_NAMESPACES"
proof -
  show *: "slot recs (r_id r) = Some r"
    using assms pool_ids_live [OF recs_ok_pool_ids] by blast
  show "d = Some (length (r_vector r))" "unat (r_namespace_id r) < MAX_NAMESPACES"
    using recs_okD [OF assms(1) *] by (simp_all add: rec_ok_def)
qed

text \<open>The id of a new record is not the list terminator and not in use.\<close>

lemma new_id_fresh:
  assumes "length xs < 2 ^ 32 - 1"
  shows "slot xs (of_nat (length xs)) = None" "(of_nat (length xs) :: u32) \<noteq> NS_LIST_NIL"
proof -
  show "slot xs (of_nat (length xs)) = None" using assms by (intro slot_new_None) simp
  have "unat (of_nat (length xs) :: u32) = length xs" using assms by (intro unat_of_nat_len) simp
  then show "(of_nat (length xs) :: u32) \<noteq> NS_LIST_NIL" using assms by (auto simp: NS_LIST_NIL_def)
qed

lemma recs_ok_insert:
  assumes ok: "recs_ok d recs heads" and room: "length recs < 2 ^ 32 - 1"
    and d': "d = None \<or> d = d'" and r0: "rec_ok d' (of_nat (length recs)) r0" "\<not> soft_deleted r0"
  shows "\<exists>recs'. link_front set_r_next set_r_prev (of_nat (length recs))
      (heads ! unat (r_namespace_id r0)) (recs @ [Some r0]) = Ok recs' \<and>
    same_recs recs' (recs @ [Some r0]) \<and>
    recs_ok d' recs' (heads[unat (r_namespace_id r0) := of_nat (length recs)])"
proof -
  define i where "i = (of_nat (length recs) :: u32)"
  let ?ns = "unat (r_namespace_id r0)" and ?recs = "recs @ [Some r0]"
  have ns: "?ns < MAX_NAMESPACES" using r0 by (simp add: rec_ok_def)
  have fresh: "slot recs i = None" "i \<noteq> NS_LIST_NIL" unfolding i_def by (rule new_id_fresh [OF room])+
  have sl: "slot ?recs j = (if j = i then Some r0 else slot recs j)" for j
    using room by (simp add: slot_simps i_def)
  have nomem: "i \<notin> rec_members recs m" for m using fresh by (simp add: rec_members_def)
  have "ns_lists (rec_ptrs ?recs) heads (rec_members recs)"
  proof (rule ns_lists_cong [OF recs_ok_lists [OF ok]])
    show "rec_ptrs ?recs x = rec_ptrs recs x" if "x \<in> rec_members recs m" for m x
      using that nomem by (auto simp: ptrs_def sl)
  qed simp
  from rl.ns_lists_link [OF this ns, of i r0] obtain recs'
    where run: "link_front set_r_next set_r_prev i (heads ! ?ns) ?recs = Ok recs'"
    and L: "ns_lists (rec_ptrs recs') (heads[?ns := i]) ((rec_members recs)(?ns := insert i (rec_members recs ?ns)))"
    using sl nomem fresh by auto
  have same: "same_recs recs' ?recs" using run by (rule same_recs_link)
  have "rec_members ?recs = (rec_members recs)(?ns := insert i (rec_members recs ?ns))"
    using r0 fresh by (auto simp: rec_members_def sl fun_eq_iff)
  then have mem: "rec_members recs' = (rec_members recs)(?ns := insert i (rec_members recs ?ns))"
    using same_recs_members [OF same] by simp
  have "rec_ok d' j r" if j: "slot recs' j = Some r" for j r
  proof -
    obtain r' where r': "slot ?recs j = Some r'" "r_core r = r_core r'"
      using same_recs_slot [OF same j] by blast
    have "rec_ok d' j r'"
    proof (cases "j = i")
      case True
      then show ?thesis using r'(1) r0 by (simp add: sl i_def)
    next
      case False
      then have "slot recs j = Some r'" using r'(1) by (simp add: sl)
      then show ?thesis using recs_okD [OF ok] d' by (auto simp: rec_ok_def)
    qed
    then show ?thesis using r'(2) rec_ok_core by blast
  qed
  then have "recs_ok d' recs' (heads[?ns := i])"
    using L mem room same_recs_length [OF same] by (simp add: recs_ok_def)
  with run same show ?thesis unfolding i_def by blast
qed

text \<open>Unlinking a record and then emptying or tombstoning its slot.\<close>

lemma recs_ok_remove:
  assumes ok: "recs_ok d recs heads" and r: "slot recs i = Some r" "\<not> soft_deleted r"
    and others: "\<And>j. j \<noteq> i \<Longrightarrow> slot recs' j
        = slot (unlink_slots set_r_next set_r_prev (r_prev_in_ns r) (r_next_in_ns r) recs) j"
    and this_slot: "\<And>r'. slot recs' i = Some r' \<Longrightarrow> soft_deleted r' \<and> rec_ok d i r'"
    and len: "length recs' = length recs"
  shows "recs_ok d recs' (if r_prev_in_ns r = NS_LIST_NIL
    then heads[unat (r_namespace_id r) := r_next_in_ns r] else heads)"
proof -
  let ?u = "unlink_slots set_r_next set_r_prev (r_prev_in_ns r) (r_next_in_ns r) recs"
  let ?ns = "unat (r_namespace_id r)"
  have ns: "?ns < MAX_NAMESPACES" using recs_okD [OF ok r(1)] by (simp add: rec_ok_def)
  have i: "i \<in> rec_members recs ?ns" using r by (auto simp: rec_members_def)
  have L: "ns_lists (rec_ptrs ?u) (if r_prev_in_ns r = NS_LIST_NIL then heads[?ns := r_next_in_ns r] else heads)
      ((rec_members recs)(?ns := rec_members recs ?ns - {i}))"
    by (rule rl.ns_lists_unlink [OF recs_ok_lists [OF ok] ns r(1) i])
  have same: "same_recs ?u recs" by (rule same_recs_unlink)
  have mem: "rec_members recs' = (rec_members recs)(?ns := rec_members recs ?ns - {i})"
  proof -
    have "x \<in> rec_members recs' m \<longleftrightarrow> x \<in> rec_members recs m \<and> x \<noteq> i" for x m
    proof (cases "x = i")
      case True
      then show ?thesis using this_slot by (auto simp: rec_members_def)
    next
      case False
      then have "x \<in> rec_members recs' m \<longleftrightarrow> x \<in> rec_members ?u m"
        using others by (simp add: rec_members_def)
      with False show ?thesis using same_recs_members [OF same] by simp
    qed
    moreover have "i \<notin> rec_members recs m" if "m \<noteq> ?ns" for m
      using that r(1) by (auto simp: rec_members_def)
    ultimately show ?thesis by (auto simp: fun_eq_iff)
  qed
  have "ns_lists (rec_ptrs recs') (if r_prev_in_ns r = NS_LIST_NIL then heads[?ns := r_next_in_ns r] else heads)
      ((rec_members recs)(?ns := rec_members recs ?ns - {i}))"
  proof (rule ns_lists_cong [OF L])
    fix m x assume "x \<in> ((rec_members recs)(?ns := rec_members recs ?ns - {i})) m"
    then have "x \<noteq> i" using r(1) by (auto simp: rec_members_def split: if_splits)
    then show "rec_ptrs recs' x = rec_ptrs ?u x" using others by (simp add: ptrs_def)
  qed simp
  moreover have "rec_ok d j r'" if j: "slot recs' j = Some r'" for j r'
  proof (cases "j = i")
    case True
    then show ?thesis using this_slot j by auto
  next
    case False
    then have "slot ?u j = Some r'" using j others by simp
    then obtain r'' where "slot recs j = Some r''" "r_core r' = r_core r''"
      using same_recs_slot [OF same] by blast
    then show ?thesis using recs_okD [OF ok] rec_ok_core by blast
  qed
  ultimately show ?thesis
    using ok len by (simp add: recs_ok_def mem)
qed

text \<open>Updates of a slot that keep its links, its identity and its tombstone.\<close>

lemma recs_ok_update:
  assumes ok: "recs_ok d recs heads"
    and f: "\<And>r. r_id (f r) = r_id r \<and> r_namespace_id (f r) = r_namespace_id r \<and> r_vector (f r) = r_vector r
        \<and> r_next_in_ns (f r) = r_next_in_ns r \<and> r_prev_in_ns (f r) = r_prev_in_ns r
        \<and> soft_deleted (f r) = soft_deleted r"
  shows "recs_ok d (upd_slot f i recs) heads"
proof -
  have "rec_members (upd_slot f i recs) = rec_members recs"
    using f by (auto simp: rec_members_def slot_simps fun_eq_iff split: if_splits)
  moreover have "rec_ptrs (upd_slot f i recs) = rec_ptrs recs"
    using f by (auto simp: ptrs_def slot_simps fun_eq_iff option.map_comp comp_def)
  moreover have "rec_ok d j r" if "slot (upd_slot f i recs) j = Some r" for j r
    using that recs_okD [OF ok] f by (auto simp: slot_simps rec_ok_def split: if_splits)
  ultimately show ?thesis using ok by (simp add: recs_ok_def)
qed

section \<open>Nodes and their lists\<close>

definition node_members :: "NodePool \<Rightarrow> nat \<Rightarrow> NodeId set" where
  "node_members nds ns = {i. \<exists>n. slot nds i = Some n \<and> unat (n_namespace_id n) = ns}"

abbreviation node_ptrs :: "NodePool \<Rightarrow> u32 \<Rightarrow> (u32 \<times> u32) option" where
  "node_ptrs \<equiv> ptrs n_next_in_ns n_prev_in_ns"

definition nodes_ok :: "NodePool \<Rightarrow> u32 list \<Rightarrow> bool" where
  "nodes_ok nds heads \<longleftrightarrow> length nds < 2 ^ 32 \<and>
     (\<forall>i n. slot nds i = Some n \<longrightarrow> unat (n_namespace_id n) < MAX_NAMESPACES) \<and>
     ns_lists (node_ptrs nds) heads (node_members nds)"

text \<open>A node apart from its links and adjacency heads.\<close>

definition n_info :: "GraphNode \<Rightarrow> NodeId \<times> NodeKind \<times> RecordId option \<times> u16" where
  "n_info n = (n_id n, n_kind n, n_record n, n_namespace_id n)"

lemma n_info_setters [simp]:
  "n_info (set_n_next v n) = n_info n" "n_info (set_n_prev v n) = n_info n"
  "n_info (set_first_out c n) = n_info n" "n_info (set_first_in c n) = n_info n"
  by (simp_all add: n_info_def graph_setters)

lemma n_graph_links [simp]: "n_graph (set_n_next v n) = n_graph n" "n_graph (set_n_prev v n) = n_graph n"
  by (simp_all add: n_graph_def graph_setters)

lemma n_core_info: "n_core n = n_core n' \<Longrightarrow> n_info n = n_info n'"
  using n_coreD [of n n'] by (simp add: n_info_def)

lemma same_nodes_info: "same_nodes a b \<Longrightarrow> map_option n_info (slot a j) = map_option n_info (slot b j)"
  unfolding same_nodes_def by (elim conjE allE [of _ j] map_option_lift) (rule n_core_info)

lemma members_info:
  "(\<And>j. map_option n_info (slot a j) = map_option n_info (slot b j)) \<Longrightarrow> node_members a = node_members b"
proof -
  assume eq: "\<And>j. map_option n_info (slot a j) = map_option n_info (slot b j)"
  have "(\<exists>n. slot a j = Some n \<and> unat (n_namespace_id n) = ns)
      \<longleftrightarrow> (\<exists>n. slot b j = Some n \<and> unat (n_namespace_id n) = ns)" for j ns
    using eq [of j] by (cases "slot a j"; cases "slot b j") (auto simp: n_info_def)
  then show ?thesis by (simp add: node_members_def fun_eq_iff)
qed

lemma ns_bound_info:
  assumes "\<And>j. map_option n_info (slot a j) = map_option n_info (slot b j)"
    "\<And>i n. slot b i = Some n \<Longrightarrow> unat (n_namespace_id n) < MAX_NAMESPACES" "slot a i = Some n"
  shows "unat (n_namespace_id n) < MAX_NAMESPACES"
  using assms(1) [of i] assms(2) [of i] assms(3) by (cases "slot b i") (auto simp: n_info_def)

lemma nodes_ok_same:
  assumes ok: "nodes_ok nds heads" and same: "same_nodes nds' nds"
  shows "nodes_ok nds' heads"
proof -
  note info = same_nodes_info [OF same]
  have "node_ptrs nds' x = node_ptrs nds x" for x
    unfolding ptrs_def using same unfolding same_nodes_def
    by (elim conjE allE [of _ x] map_option_lift) (auto dest: n_coreD)
  then have "node_ptrs nds' = node_ptrs nds" by (simp add: fun_eq_iff)
  moreover have "node_members nds' = node_members nds" by (rule members_info [OF info])
  moreover have "unat (n_namespace_id n) < MAX_NAMESPACES" if "slot nds' i = Some n" for i n
    using ns_bound_info [OF info _ that] ok by (auto simp: nodes_ok_def)
  ultimately show ?thesis using ok same by (simp add: nodes_ok_def same_nodes_def)
qed

lemma nodes_ok_insert:
  assumes ok: "nodes_ok nds heads" and room: "length nds < 2 ^ 32 - 1"
    and ns: "unat (n_namespace_id n0) < MAX_NAMESPACES"
  shows "\<exists>nds'. link_front set_n_next set_n_prev (of_nat (length nds))
      (heads ! unat (n_namespace_id n0)) (nds @ [Some n0]) = Ok nds' \<and>
    nodes_ok nds' (heads[unat (n_namespace_id n0) := of_nat (length nds)]) \<and>
    length nds' = Suc (length nds) \<and>
    (\<forall>j. map_option n_info (slot nds' j) = map_option n_info (slot (nds @ [Some n0]) j)) \<and>
    (\<forall>j. map_option n_graph (slot nds' j) = map_option n_graph (slot (nds @ [Some n0]) j))"
proof -
  define i where "i = (of_nat (length nds) :: u32)"
  let ?ns = "unat (n_namespace_id n0)" and ?nds = "nds @ [Some n0]"
  have fresh: "slot nds i = None" "i \<noteq> NS_LIST_NIL" unfolding i_def by (rule new_id_fresh [OF room])+
  have sl: "slot ?nds j = (if j = i then Some n0 else slot nds j)" for j
    using room by (simp add: slot_simps i_def)
  have nomem: "i \<notin> node_members nds m" for m using fresh by (simp add: node_members_def)
  have "ns_lists (node_ptrs nds) heads (node_members nds)" using ok by (simp add: nodes_ok_def)
  then have "ns_lists (node_ptrs ?nds) heads (node_members nds)"
    by (rule ns_lists_cong) (use nomem in \<open>auto simp: ptrs_def sl\<close>)
  from nl.ns_lists_link [OF this ns, of i n0] obtain nds'
    where run: "link_front set_n_next set_n_prev i (heads ! ?ns) ?nds = Ok nds'"
    and L: "ns_lists (node_ptrs nds') (heads[?ns := i]) ((node_members nds)(?ns := insert i (node_members nds ?ns)))"
    using sl nomem fresh by auto
  have info: "map_option n_info (slot nds' j) = map_option n_info (slot ?nds j)" for j
    by (rule link_front_frame [OF run]) simp_all
  have graph: "map_option n_graph (slot nds' j) = map_option n_graph (slot ?nds j)" for j
    by (rule link_front_frame [OF run]) simp_all
  have len: "length nds' = Suc (length nds)" using link_front_length [OF run] by simp
  have "node_members ?nds = (node_members nds)(?ns := insert i (node_members nds ?ns))"
    using fresh by (auto simp: node_members_def sl fun_eq_iff)
  then have mem: "node_members nds' = (node_members nds)(?ns := insert i (node_members nds ?ns))"
    using members_info [OF info] by simp
  have "unat (n_namespace_id n) < MAX_NAMESPACES" if "slot ?nds j = Some n" for j n
    using that ok ns by (auto simp: sl nodes_ok_def split: if_splits)
  then have "unat (n_namespace_id n) < MAX_NAMESPACES" if "slot nds' j = Some n" for j n
    using ns_bound_info [OF info _ that] by blast
  then have "nodes_ok nds' (heads[?ns := i])" using L mem len room by (simp add: nodes_ok_def)
  with run info graph len show ?thesis unfolding i_def by blast
qed

lemma nodes_ok_unlink_clear:
  assumes ok: "nodes_ok nds heads" and n: "slot nds i = Some n"
    and same: "same_nodes nds' (unlink_slots set_n_next set_n_prev (n_prev_in_ns n) (n_next_in_ns n) nds)"
  shows "nodes_ok (clear_slot i nds') (if n_prev_in_ns n = NS_LIST_NIL
    then heads[unat (n_namespace_id n) := n_next_in_ns n] else heads)"
proof -
  let ?u = "unlink_slots set_n_next set_n_prev (n_prev_in_ns n) (n_next_in_ns n) nds"
  let ?ns = "unat (n_namespace_id n)"
  let ?heads = "if n_prev_in_ns n = NS_LIST_NIL then heads[?ns := n_next_in_ns n] else heads"
  let ?M = "(node_members nds)(?ns := node_members nds ?ns - {i})"
  have ns: "?ns < MAX_NAMESPACES" using ok n by (simp add: nodes_ok_def)
  have i: "i \<in> node_members nds ?ns" using n by (auto simp: node_members_def)
  have "ns_lists (node_ptrs nds) heads (node_members nds)" using ok by (simp add: nodes_ok_def)
  from nl.ns_lists_unlink [OF this ns n i] have L: "ns_lists (node_ptrs ?u) ?heads ?M" .
  have ptrs: "node_ptrs nds' x = node_ptrs ?u x" for x
    unfolding ptrs_def using same unfolding same_nodes_def
    by (elim conjE allE [of _ x] map_option_lift) (auto dest: n_coreD)
  have info: "map_option n_info (slot nds' j) = map_option n_info (slot nds j)" for j
    using same_nodes_info [OF same, of j] by (simp add: unlink_slots_frame)
  have "ns_lists (node_ptrs (clear_slot i nds')) ?heads ?M"
  proof (rule ns_lists_cong [OF L])
    fix m x assume "x \<in> ?M m"
    then have "x \<noteq> i" using n by (auto simp: node_members_def split: if_splits)
    then have "node_ptrs (clear_slot i nds') x = node_ptrs nds' x" by (simp add: ptrs_def slot_simps)
    then show "node_ptrs (clear_slot i nds') x = node_ptrs ?u x" using ptrs by simp
  qed simp
  moreover have "node_members (clear_slot i nds') = ?M"
  proof -
    have "x \<in> node_members (clear_slot i nds') m \<longleftrightarrow> x \<in> node_members nds m \<and> x \<noteq> i" for x m
    proof -
      have "x \<in> node_members (clear_slot i nds') m \<longleftrightarrow> x \<in> node_members nds' m \<and> x \<noteq> i"
        by (auto simp: node_members_def slot_simps split: if_splits)
      then show ?thesis using members_info [OF info] by simp
    qed
    moreover have "i \<notin> node_members nds m" if "m \<noteq> ?ns" for m
      using that n by (auto simp: node_members_def)
    ultimately show ?thesis by (auto simp: fun_eq_iff)
  qed
  moreover have "unat (n_namespace_id m) < MAX_NAMESPACES" if "slot (clear_slot i nds') j = Some m" for j m
  proof -
    have "slot nds' j = Some m" using that by (simp add: slot_simps split: if_splits)
    then show ?thesis using ns_bound_info [OF info] ok by (auto simp: nodes_ok_def)
  qed
  moreover have "length (clear_slot i nds') = length nds" using same by (simp add: same_nodes_def)
  ultimately show ?thesis using ok by (simp add: nodes_ok_def)
qed

section \<open>The invariant\<close>

text \<open>
  A node refers to a record of its own namespace while the record exists, and never to an id that
  has not been given out; the key table lists only encrypted records and all that are still readable.
\<close>

definition node_refs_ok :: "RecordPool \<Rightarrow> NodePool \<Rightarrow> bool" where
  "node_refs_ok recs nds \<longleftrightarrow> (\<forall>i n rid. slot nds i = Some n \<and> n_record n = Some rid \<longrightarrow>
     unat rid < length recs \<and> (\<forall>r. slot recs rid = Some r \<longrightarrow> r_namespace_id r = n_namespace_id n))"

definition keys_ok :: "(KeyId \<rightharpoonup> RecordId list) \<Rightarrow> RecordPool \<Rightarrow> bool" where
  "keys_ok keys recs \<longleftrightarrow>
     (\<forall>key is i. keys key = Some is \<and> i \<in> set is \<longrightarrow> unat i < length recs \<and>
        (\<forall>r. slot recs i = Some r \<longrightarrow> encrypted r)) \<and>
     (\<forall>i r. slot recs i = Some r \<and> encrypted r \<and> \<not> shredded r \<longrightarrow>
        (\<exists>key is. keys key = Some is \<and> i \<in> set is))"

definition kernel_inv :: "KernelState \<Rightarrow> bool" where
  "kernel_inv st \<longleftrightarrow>
     recs_ok (ks_dim st) (ks_records st) (ks_record_heads st) \<and>
     nodes_ok (ks_nodes st) (ks_node_heads st) \<and>
     graph_inv (ks_nodes st) (ks_edges st) \<and> length (ks_edges st) \<le> 2 ^ 32 \<and>
     index_ok (ks_dim st) (ks_index st) (ks_records st) \<and>
     node_refs_ok (ks_records st) (ks_nodes st) \<and>
     keys_ok (ks_encrypted_keys st) (ks_records st) \<and>
     btree_ok (ks_meta st)"

lemma kernel_invD:
  assumes "kernel_inv st"
  shows "recs_ok (ks_dim st) (ks_records st) (ks_record_heads st)"
    "nodes_ok (ks_nodes st) (ks_node_heads st)" "graph_inv (ks_nodes st) (ks_edges st)"
    "length (ks_edges st) \<le> 2 ^ 32" "index_ok (ks_dim st) (ks_index st) (ks_records st)"
    "node_refs_ok (ks_records st) (ks_nodes st)" "keys_ok (ks_encrypted_keys st) (ks_records st)"
    "btree_ok (ks_meta st)"
  using assms by (simp_all add: kernel_inv_def)

lemma ns_lists_empty:
  "ns_lists h (replicate MAX_NAMESPACES NS_LIST_NIL) (\<lambda>_. {})"
  by (auto simp: ns_lists_def)

lemma kernel_inv_new [simp]: "kernel_inv kernel_new"
proof -
  have "rec_members [] = (\<lambda>_. {})" "node_members [] = (\<lambda>_. {})"
    by (auto simp: rec_members_def node_members_def fun_eq_iff)
  then show ?thesis
    using ns_lists_empty
    by (simp add: kernel_inv_def kernel_new_def recs_ok_def nodes_ok_def index_default_def
        node_refs_ok_def keys_ok_def btree_ok_def)
qed

lemma kernel_inv_with_dim: "kernel_inv (kernel_with_dim d)"
  using kernel_inv_new
  by (auto simp: kernel_inv_def kernel_with_dim_def kernel_new_def recs_ok_def index_default_def)

lemma node_refs_info:
  assumes refs: "node_refs_ok recs nds"
    and sub: "\<And>j n'. slot nds' j = Some n' \<Longrightarrow> \<exists>n. slot nds j = Some n \<and> n_info n' = n_info n"
  shows "node_refs_ok recs nds'"
  unfolding node_refs_ok_def
proof (intro allI impI)
  fix i n' rid assume n': "slot nds' i = Some n' \<and> n_record n' = Some rid"
  then obtain n where n: "slot nds i = Some n" "n_info n' = n_info n" using sub by blast
  then have "n_record n = Some rid" "n_namespace_id n' = n_namespace_id n"
    using n' by (simp_all add: n_info_def)
  with n(1) show "unat rid < length recs \<and> (\<forall>r. slot recs rid = Some r \<longrightarrow> r_namespace_id r = n_namespace_id n')"
    using refs unfolding node_refs_ok_def by simp
qed

text \<open>The node references survive any change of the records that keeps the namespaces of survivors.\<close>

lemma node_refs_recs:
  assumes refs: "node_refs_ok recs nds" and len: "length recs \<le> length recs'"
    and sub: "\<And>i r'. unat i < length recs \<Longrightarrow> slot recs' i = Some r' \<Longrightarrow>
        \<exists>r. slot recs i = Some r \<and> r_namespace_id r' = r_namespace_id r"
  shows "node_refs_ok recs' nds"
  unfolding node_refs_ok_def
proof (intro allI impI)
  fix i n rid assume n: "slot nds i = Some n \<and> n_record n = Some rid"
  then have old: "unat rid < length recs" "\<And>r. slot recs rid = Some r \<Longrightarrow> r_namespace_id r = n_namespace_id n"
    using refs unfolding node_refs_ok_def by auto
  show "unat rid < length recs' \<and> (\<forall>r. slot recs' rid = Some r \<longrightarrow> r_namespace_id r = n_namespace_id n)"
    using old len sub [of rid] by fastforce
qed

lemma keys_ok_frame:
  assumes ok: "keys_ok keys recs" and len: "length recs' = length recs"
    and sub: "\<And>i r'. slot recs' i = Some r' \<Longrightarrow>
        \<exists>r. slot recs i = Some r \<and> encrypted r' = encrypted r \<and> shredded r' = shredded r"
  shows "keys_ok keys recs'"
  unfolding keys_ok_def
proof (intro conjI allI impI)
  fix key "is" i assume k: "keys key = Some is \<and> i \<in> set is"
  then show "unat i < length recs'" using ok len unfolding keys_ok_def by simp
  fix r' assume "slot recs' i = Some r'"
  then show "encrypted r'" using sub [of i r'] k ok unfolding keys_ok_def by blast
next
  fix i r' assume "slot recs' i = Some r' \<and> encrypted r' \<and> \<not> shredded r'"
  then show "\<exists>key is. keys key = Some is \<and> i \<in> set is"
    using sub [of i r'] ok unfolding keys_ok_def by blast
qed

end
