(* ===== verification/Kernel_Steps.thy ===== *)
theory Kernel_Steps
  imports Kernel_Inv
begin

text \<open>
  Every arm of \<open>apply_event_ns\<close> in a state that satisfies the invariant: it returns (it neither panics
  nor loops), it keeps the invariant, and what it changes.
\<close>

section \<open>Insertion\<close>

lemma same_recs_searchable: "same_recs a b \<Longrightarrow> same_searchable a b j"
  unfolding same_searchable_def by (metis same_recs_slot r_core_eqD(2,8))

lemma kernel_inv_set_dim:
  assumes inv: "kernel_inv st" and none: "ks_dim st = None"
  shows "kernel_inv (st\<lparr>ks_dim := d\<rparr>)"
proof -
  have "slot (ks_records st) i = None" for i
    using recs_okD [OF kernel_invD(1) [OF inv]] none by (cases "slot (ks_records st) i") (auto simp: rec_ok_def)
  moreover have "index_ok d (ks_index st) (ks_records st)"
    by (rule ai.mono [OF kernel_invD(5) [OF inv]]) (simp_all add: none)
  ultimately show ?thesis
    using inv by (simp add: kernel_inv_def recs_ok_def)
qed

definition metadata_fits :: "bytes option \<Rightarrow> bool" where
  "metadata_fits md \<longleftrightarrow> (case md of Some m \<Rightarrow> length m \<le> MAX_METADATA_SIZE | None \<Rightarrow> True)"

lemma insert_pool_ok:
  assumes inv: "kernel_inv st" and room: "length (ks_records st) < 2 ^ 32 - 1"
    and r0: "rec_ok (ks_dim st) (of_nat (length (ks_records st))) r0" "\<not> soft_deleted r0"
  shows "\<exists>recs heads. link_record (of_nat (length (ks_records st))) (r_namespace_id r0)
      (st\<lparr>ks_records := ks_records st @ [Some r0], ks_encrypted_keys := keys\<rparr>)
      = Ok (st\<lparr>ks_records := recs, ks_record_heads := heads, ks_encrypted_keys := keys\<rparr>) \<and>
    recs_ok (ks_dim st) recs heads \<and> same_recs recs (ks_records st @ [Some r0]) \<and>
    node_refs_ok recs (ks_nodes st)"
proof -
  let ?recs = "ks_records st" and ?heads = "ks_record_heads st"
  let ?ns = "unat (r_namespace_id r0)"
  note R = kernel_invD(1) [OF inv]
  have ns: "?ns < length ?heads"
    using r0 ns_lists_length [OF recs_ok_lists [OF R]] by (simp add: rec_ok_def)
  obtain recs where run: "link_front set_r_next set_r_prev (of_nat (length ?recs)) (?heads ! ?ns) (?recs @ [Some r0]) = Ok recs"
    and same: "same_recs recs (?recs @ [Some r0])"
    and ok: "recs_ok (ks_dim st) recs (?heads[?ns := of_nat (length ?recs)])"
    using recs_ok_insert [OF R room _ r0] by blast
  have "node_refs_ok recs (ks_nodes st)"
  proof (rule node_refs_recs [OF kernel_invD(6) [OF inv]])
    show "length ?recs \<le> length recs" using same_recs_length [OF same] by simp
    fix i r' assume i: "unat i < length ?recs" "slot recs i = Some r'"
    then obtain r where r: "slot (?recs @ [Some r0]) i = Some r" "r_core r' = r_core r"
      using same_recs_slot [OF same] by blast
    then have "slot ?recs i = Some r" using i(1) by (simp add: slot_def nth_append)
    then show "\<exists>r. slot ?recs i = Some r \<and> r_namespace_id r' = r_namespace_id r"
      using r_core_eqD(6) [OF r(2)] by blast
  qed
  with run ns same ok show ?thesis
    by (intro exI [of _ recs] exI [of _ "?heads[?ns := of_nat (length ?recs)]"])
      (simp add: link_record_def not_le)
qed

lemma keys_ok_append:
  assumes ok: "keys_ok keys recs" and room: "length recs < 2 ^ 32 - 1" and r0: "\<not> encrypted r0"
    and same: "same_recs recs' (recs @ [Some r0])"
  shows "keys_ok keys recs'"
proof -
  let ?i = "of_nat (length recs) :: u32"
  have i: "unat ?i = length recs" using room by (intro unat_of_nat_len) simp
  have sl: "\<exists>r. (if j = ?i then r = r0 else slot recs j = Some r) \<and> encrypted r' = encrypted r \<and> shredded r' = shredded r"
    if r': "slot recs' j = Some r'" for j r'
  proof -
    obtain r where "slot (recs @ [Some r0]) j = Some r" "r_core r' = r_core r"
      using same_recs_slot [OF same r'] by blast
    then show ?thesis
      using r_core_eqD [of r' r] room by (intro exI [of _ r]) (auto simp: slot_simps split: if_splits)
  qed
  show ?thesis
    unfolding keys_ok_def
  proof (intro conjI allI impI)
    fix key "is" j assume k: "keys key = Some is \<and> j \<in> set is"
    then have old: "unat j < length recs" "\<And>r. slot recs j = Some r \<Longrightarrow> encrypted r"
      using ok unfolding keys_ok_def by auto
    then show "unat j < length recs'" using same_recs_length [OF same] by simp
    fix r' assume "slot recs' j = Some r'"
    moreover have "j \<noteq> ?i" using old(1) i by auto
    ultimately show "encrypted r'" using sl [of j r'] old(2) by auto
  next
    fix j r' assume "slot recs' j = Some r' \<and> encrypted r' \<and> \<not> shredded r'"
    then show "\<exists>key is. keys key = Some is \<and> j \<in> set is"
      using sl [of j r'] r0 ok unfolding keys_ok_def by (auto split: if_splits)
  qed
qed

lemma insert_body_ok:
  assumes inv: "kernel_inv st" and room: "length (ks_records st) < 2 ^ 32 - 1"
    and ns: "unat ns < MAX_NAMESPACES" and dim: "ks_dim st = Some (length vec)" and md: "metadata_fits md"
  shows "\<exists>recs heads ix. insert_body vec md tag ns st
      = Ok (st\<lparr>ks_records := recs, ks_record_heads := heads, ks_index := ix\<rparr>) \<and>
    same_recs recs (ks_records st @ [Some (record_new (of_nat (length (ks_records st))) vec md tag ns)]) \<and>
    kernel_inv (st\<lparr>ks_records := recs, ks_record_heads := heads, ks_index := ix\<rparr>)"
proof -
  let ?recs = "ks_records st" and ?i = "of_nat (length (ks_records st)) :: u32"
  let ?r0 = "record_new ?i vec md tag ns"
  have r0: "rec_ok (ks_dim st) ?i ?r0" using ns dim by (simp add: rec_ok_def)
  obtain recs heads where run: "link_record ?i ns (st\<lparr>ks_records := ?recs @ [Some ?r0]\<rparr>)
      = Ok (st\<lparr>ks_records := recs, ks_record_heads := heads\<rparr>)"
    and R: "recs_ok (ks_dim st) recs heads" and same: "same_recs recs (?recs @ [Some ?r0])"
    and refs: "node_refs_ok recs (ks_nodes st)"
    using insert_pool_ok [OF inv room r0, of "ks_encrypted_keys st"] by auto
  define ix where "ix = index_on_insert ?i vec (ks_index st)"
  have fresh: "slot ?recs ?i = None" by (rule new_id_fresh(1) [OF room])
  have "index_ok (Some (length vec)) ix recs"
    unfolding ix_def
  proof (rule ai.insert_ok [OF kernel_invD(5) [OF inv] fresh])
    show "ks_dim st = None \<or> ks_dim st = Some (length vec)" using dim by simp
    show "same_searchable recs ?recs j" if "j \<noteq> ?i" for j
      using same_recs_searchable [OF same, of j] that room by (simp add: same_searchable_def slot_simps)
    show "r_vector r = vec" if r: "slot recs ?i = Some r" for r
    proof -
      have "r_core r = r_core ?r0" using same_recs_slot [OF same r] room by (simp add: slot_simps)
      then show ?thesis using r_core_eqD(2) by fastforce
    qed
  qed
  then have "kernel_inv (st\<lparr>ks_records := recs, ks_record_heads := heads, ks_index := ix\<rparr>)"
    using inv R refs keys_ok_append [OF kernel_invD(7) [OF inv] room _ same] dim
    by (simp add: kernel_inv_def)
  moreover have "insert_body vec md tag ns st
      = Ok (st\<lparr>ks_records := recs, ks_record_heads := heads, ks_index := ix\<rparr>)"
    using md run by (auto simp: insert_body_def metadata_fits_def pool_insert_def Let_def ix_def
        split: option.splits)
  ultimately show ?thesis using same by blast
qed

lemma upd_slot_last:
  assumes "length xs < 2 ^ 32"
  shows "upd_slot f (of_nat (length xs)) (xs @ [Some a]) = xs @ [Some (f a)]"
  using assms by (simp add: upd_slot_def slot_simps unat_of_nat_len list_update_append)

definition enc_record :: "nat \<Rightarrow> nat \<Rightarrow> bytes \<Rightarrow> u64 \<Rightarrow> u16 \<Rightarrow> Record" where
  "enc_record n d ct tag ns =
     (record_new (of_nat n) (replicate d 0) (Some ct) tag ns)\<lparr>r_flags := FLAG_ENCRYPTED\<rparr>"

lemma enc_record_simps [simp]:
  "r_id (enc_record n d ct tag ns) = of_nat n" "r_vector (enc_record n d ct tag ns) = replicate d 0"
  "r_metadata (enc_record n d ct tag ns) = Some ct" "r_tag (enc_record n d ct tag ns) = tag"
  "r_namespace_id (enc_record n d ct tag ns) = ns" "encrypted (enc_record n d ct tag ns)"
  "\<not> soft_deleted (enc_record n d ct tag ns)" "\<not> shredded (enc_record n d ct tag ns)"
  by (simp_all add: enc_record_def record_new_def encrypted_def soft_deleted_def shredded_def flag_defs)

lemma keys_ok_append_encrypted:
  assumes ok: "keys_ok keys recs" and room: "length recs < 2 ^ 32 - 1" and r0: "encrypted r0"
    and same: "same_recs recs' (recs @ [Some r0])"
  shows "keys_ok (keys(key \<mapsto> (case keys key of None \<Rightarrow> [] | Some is \<Rightarrow> is) @ [of_nat (length recs)])) recs'"
    (is "keys_ok ?keys recs'")
proof -
  let ?i = "of_nat (length recs) :: u32"
  have i: "unat ?i = length recs" using room by (intro unat_of_nat_len) simp
  have sl: "\<exists>r. (if j = ?i then r = r0 else slot recs j = Some r) \<and> encrypted r' = encrypted r \<and> shredded r' = shredded r"
    if r': "slot recs' j = Some r'" for j r'
  proof -
    obtain r where "slot (recs @ [Some r0]) j = Some r" "r_core r' = r_core r"
      using same_recs_slot [OF same r'] by blast
    then show ?thesis
      using r_core_eqD [of r' r] room by (intro exI [of _ r]) (auto simp: slot_simps split: if_splits)
  qed
  have member: "j = ?i \<or> (\<exists>is'. keys key' = Some is' \<and> j \<in> set is')"
    if "?keys key' = Some is" "j \<in> set is" for key' "is" j
    using that by (cases "key' = key"; cases "keys key") auto
  show ?thesis
    unfolding keys_ok_def
  proof (intro conjI allI impI)
    fix key' "is" j assume k: "?keys key' = Some is \<and> j \<in> set is"
    then have old: "j = ?i \<or> (unat j < length recs \<and> (\<forall>r. slot recs j = Some r \<longrightarrow> encrypted r))"
      using member ok unfolding keys_ok_def by metis
    then show "unat j < length recs'" using same_recs_length [OF same] i by auto
    fix r' assume "slot recs' j = Some r'"
    then show "encrypted r'" using sl [of j r'] old r0 i by (auto split: if_splits)
  next
    fix j r' assume r': "slot recs' j = Some r' \<and> encrypted r' \<and> \<not> shredded r'"
    show "\<exists>key' is. ?keys key' = Some is \<and> j \<in> set is"
    proof (cases "j = ?i")
      case True
      then show ?thesis by (intro exI [of _ key]) auto
    next
      case False
      then obtain key' is' where k: "keys key' = Some is'" "j \<in> set is'"
        using r' sl [of j r'] ok unfolding keys_ok_def by auto
      then show ?thesis by (cases "key' = key") (auto intro: exI [of _ key'])
    qed
  qed
qed

lemma apply_insert_encrypted_ok:
  assumes inv: "kernel_inv st" and room: "length (ks_records st) < 2 ^ 32 - 1"
    and ns: "unat ns < MAX_NAMESPACES" and dim: "ks_dim st = Some d"
    and i: "i = of_nat (length (ks_records st))" and ct: "length ct \<le> MAX_METADATA_SIZE + 28"
  shows "\<exists>recs heads keys. apply_insert_encrypted i key ct tag ns st
      = Ok (st\<lparr>ks_records := recs, ks_record_heads := heads, ks_encrypted_keys := keys\<rparr>) \<and>
    same_recs recs (ks_records st @ [Some (enc_record (length (ks_records st)) d ct tag ns)]) \<and>
    keys = (ks_encrypted_keys st)(key \<mapsto> (case ks_encrypted_keys st key of None \<Rightarrow> [] | Some is \<Rightarrow> is) @ [i]) \<and>
    kernel_inv (st\<lparr>ks_records := recs, ks_record_heads := heads, ks_encrypted_keys := keys\<rparr>)"
proof -
  let ?recs = "ks_records st"
  let ?r0 = "enc_record (length ?recs) d ct tag ns"
  define keys where "keys = (ks_encrypted_keys st)(key \<mapsto> (case ks_encrypted_keys st key of None \<Rightarrow> [] | Some is \<Rightarrow> is) @ [i])"
  have r0: "rec_ok (ks_dim st) i ?r0" using ns dim i by (simp add: rec_ok_def)
  obtain recs heads where run: "link_record i ns (st\<lparr>ks_records := ?recs @ [Some ?r0], ks_encrypted_keys := keys\<rparr>)
      = Ok (st\<lparr>ks_records := recs, ks_record_heads := heads, ks_encrypted_keys := keys\<rparr>)"
    and R: "recs_ok (ks_dim st) recs heads" and same: "same_recs recs (?recs @ [Some ?r0])"
    and refs: "node_refs_ok recs (ks_nodes st)"
    using insert_pool_ok [OF inv room r0 [unfolded i], of keys] i by auto
  have mark: "pool_mark_encrypted i (?recs @ [Some (record_new i (replicate d 0) (Some ct) tag ns)])
      = Ok (?recs @ [Some ?r0])"
    using room by (simp add: pool_mark_encrypted_def slot_simps i upd_slot_last enc_record_def record_new_def)
  have "index_ok (ks_dim st) (ks_index st) recs"
  proof (rule ai.mono [OF kernel_invD(5) [OF inv]])
    fix j
    have "\<not> is_searchable ?r0" by (simp add: is_searchable_iff)
    then have "same_searchable (?recs @ [Some ?r0]) ?recs j"
      using room by (simp add: same_searchable_def slot_simps)
    then show "same_searchable recs ?recs j"
      using same_recs_searchable [OF same, of j] by (fastforce simp: same_searchable_def)
  qed simp
  moreover have "keys_ok keys recs"
    unfolding keys_def i by (rule keys_ok_append_encrypted [OF kernel_invD(7) [OF inv] room _ same]) simp
  ultimately have "kernel_inv (st\<lparr>ks_records := recs, ks_record_heads := heads, ks_encrypted_keys := keys\<rparr>)"
    using inv R refs by (simp add: kernel_inv_def)
  moreover have "apply_insert_encrypted i key ct tag ns st
      = Ok (st\<lparr>ks_records := recs, ks_record_heads := heads, ks_encrypted_keys := keys\<rparr>)"
    using ns dim ct mark run
    by (simp add: apply_insert_encrypted_def pool_next_id_def pool_insert_def Let_def i [symmetric] keys_def)
  ultimately show ?thesis using same keys_def by blast
qed

section \<open>Deletion\<close>

lemma searchable_flag: "\<not> is_searchable (r\<lparr>r_flags := r_flags r OR FLAG_SOFT_DELETED\<rparr>)"
  by (simp add: is_searchable_iff is_active_iff flags_or_soft_deleted)

text \<open>Both deletions replace one slot after unlinking the record.\<close>

lemma remove_record_ok:
  assumes inv: "kernel_inv st" and r: "slot (ks_records st) i = Some r" "\<not> soft_deleted r"
    and u: "u = unlink_slots set_r_next set_r_prev (r_prev_in_ns r) (r_next_in_ns r) (ks_records st)"
    and heads: "heads = (if r_prev_in_ns r = NS_LIST_NIL
        then (ks_record_heads st)[unat (r_namespace_id r) := r_next_in_ns r] else ks_record_heads st)"
    and recs: "length recs = length (ks_records st)" "\<And>j. j \<noteq> i \<Longrightarrow> slot recs j = slot u j"
    and this_slot: "slot recs i = None \<or>
      slot recs i = map_option (\<lambda>r. r\<lparr>r_flags := r_flags r OR FLAG_SOFT_DELETED\<rparr>) (slot u i)"
  shows "kernel_inv (st\<lparr>ks_records := recs, ks_record_heads := heads, ks_index := index_on_delete i (ks_index st)\<rparr>)"
proof -
  note R = kernel_invD(1) [OF inv]
  have same: "same_recs u (ks_records st)" unfolding u by (rule same_recs_unlink)
  obtain ri where ri: "slot u i = Some ri" "r_core ri = r_core r"
    using same_recs_slot [OF same_recs_sym [OF same] r(1)] by metis
  have old: "\<exists>r0. slot (ks_records st) j = Some r0 \<and> r_namespace_id r' = r_namespace_id r0
      \<and> encrypted r' = encrypted r0 \<and> shredded r' = shredded r0" if "slot recs j = Some r'" for j r'
  proof -
    have "\<exists>ru. slot u j = Some ru \<and> r_namespace_id r' = r_namespace_id ru
        \<and> encrypted r' = encrypted ru \<and> shredded r' = shredded ru"
      using that recs(2) [of j] this_slot ri(1)
      by (cases "j = i") (auto simp: flags_or_soft_deleted)
    then obtain ru where ru: "slot u j = Some ru" "r_namespace_id r' = r_namespace_id ru"
      "encrypted r' = encrypted ru" "shredded r' = shredded ru" by blast
    obtain r0 where "slot (ks_records st) j = Some r0" "r_core ru = r_core r0"
      using same_recs_slot [OF same ru(1)] by blast
    then show ?thesis using ru r_core_eqD [of ru r0] by auto
  qed
  have "recs_ok (ks_dim st) recs heads"
    unfolding heads
  proof (rule recs_ok_remove [OF R r])
    show "slot recs j = slot (unlink_slots set_r_next set_r_prev (r_prev_in_ns r) (r_next_in_ns r) (ks_records st)) j"
      if "j \<noteq> i" for j using recs(2) [OF that] by (simp add: u)
    fix r' assume "slot recs i = Some r'"
    then have r': "r' = ri\<lparr>r_flags := r_flags ri OR FLAG_SOFT_DELETED\<rparr>" using this_slot ri(1) by auto
    have "rec_ok (ks_dim st) i ri" using recs_okD [OF R r(1)] rec_ok_core [OF ri(2)] by simp
    then show "soft_deleted r' \<and> rec_ok (ks_dim st) i r'"
      using r' by (simp add: flags_or_soft_deleted rec_ok_def)
  qed (rule recs(1))
  moreover have "index_ok (ks_dim st) (index_on_delete i (ks_index st)) recs"
  proof (rule ai.delete_ok [OF kernel_invD(5) [OF inv]])
    show "same_searchable recs (ks_records st) j" if "j \<noteq> i" for j
      using same_recs_searchable [OF same, of j] recs(2) [OF that] by (simp add: same_searchable_def)
    show "\<not> is_searchable r'" if "slot recs i = Some r'" for r'
      using that this_slot ri(1) by (auto simp: searchable_flag)
  qed
  moreover have "node_refs_ok recs (ks_nodes st)"
    by (rule node_refs_recs [OF kernel_invD(6) [OF inv]]) (use recs(1) old in \<open>auto dest!: old\<close>)
  moreover have "keys_ok (ks_encrypted_keys st) recs"
    by (rule keys_ok_frame [OF kernel_invD(7) [OF inv]]) (use recs(1) in \<open>auto dest!: old\<close>)
  ultimately show ?thesis using inv by (simp add: kernel_inv_def)
qed

lemma unlink_record_ok:
  assumes inv: "kernel_inv st" and r: "slot (ks_records st) i = Some r"
  shows "unlink_record_from_ns (r_namespace_id r) (r_prev_in_ns r) (r_next_in_ns r) st
    = Ok (st\<lparr>ks_records := unlink_slots set_r_next set_r_prev (r_prev_in_ns r) (r_next_in_ns r) (ks_records st),
             ks_record_heads := (if r_prev_in_ns r = NS_LIST_NIL
               then (ks_record_heads st)[unat (r_namespace_id r) := r_next_in_ns r] else ks_record_heads st)\<rparr>)"
  using recs_okD [OF kernel_invD(1) [OF inv] r] ns_lists_length [OF recs_ok_lists [OF kernel_invD(1) [OF inv]]]
  by (auto simp: unlink_record_from_ns_def rec_ok_def)

lemma apply_delete_record_ok:
  assumes inv: "kernel_inv st" and r: "slot (ks_records st) i = Some r" "\<not> soft_deleted r"
  shows "\<exists>recs heads. apply_delete_record i st
      = Ok (st\<lparr>ks_records := recs, ks_record_heads := heads, ks_index := index_on_delete i (ks_index st)\<rparr>) \<and>
    same_recs recs (clear_slot i (ks_records st)) \<and>
    kernel_inv (st\<lparr>ks_records := recs, ks_record_heads := heads, ks_index := index_on_delete i (ks_index st)\<rparr>)"
proof -
  define u where "u = unlink_slots set_r_next set_r_prev (r_prev_in_ns r) (r_next_in_ns r) (ks_records st)"
  define heads where "heads = (if r_prev_in_ns r = NS_LIST_NIL
      then (ks_record_heads st)[unat (r_namespace_id r) := r_next_in_ns r] else ks_record_heads st)"
  have same: "same_recs u (ks_records st)" unfolding u_def by (rule same_recs_unlink)
  have ui: "slot u i \<noteq> None"
    using same r(1) unfolding same_recs_def by (metis option.map_disc_iff option.distinct(1))
  have "kernel_inv (st\<lparr>ks_records := clear_slot i u, ks_record_heads := heads, ks_index := index_on_delete i (ks_index st)\<rparr>)"
    by (rule remove_record_ok [OF inv r u_def heads_def])
      (use same_recs_length [OF same] in \<open>simp_all add: slot_simps\<close>)
  moreover have "apply_delete_record i st
      = Ok (st\<lparr>ks_records := clear_slot i u, ks_record_heads := heads, ks_index := index_on_delete i (ks_index st)\<rparr>)"
    using r(1) ui unlink_record_ok [OF inv r(1)]
    by (auto simp: apply_delete_record_def pool_delete_slot u_def [symmetric] heads_def [symmetric])
  moreover have "same_recs (clear_slot i u) (clear_slot i (ks_records st))"
    using same by (simp add: same_recs_def slot_simps)
  ultimately show ?thesis by blast
qed

lemma apply_soft_delete_record_ok:
  assumes inv: "kernel_inv st" and r: "slot (ks_records st) i = Some r" "\<not> soft_deleted r"
  shows "\<exists>recs heads. apply_soft_delete_record i st
      = Ok (st\<lparr>ks_records := recs, ks_record_heads := heads, ks_index := index_on_delete i (ks_index st)\<rparr>) \<and>
    same_recs recs (upd_slot (\<lambda>r. r\<lparr>r_flags := r_flags r OR FLAG_SOFT_DELETED\<rparr>) i (ks_records st)) \<and>
    kernel_inv (st\<lparr>ks_records := recs, ks_record_heads := heads, ks_index := index_on_delete i (ks_index st)\<rparr>)"
proof -
  let ?f = "\<lambda>r. r\<lparr>r_flags := r_flags r OR FLAG_SOFT_DELETED\<rparr>"
  define u where "u = unlink_slots set_r_next set_r_prev (r_prev_in_ns r) (r_next_in_ns r) (ks_records st)"
  define heads where "heads = (if r_prev_in_ns r = NS_LIST_NIL
      then (ks_record_heads st)[unat (r_namespace_id r) := r_next_in_ns r] else ks_record_heads st)"
  have same: "same_recs u (ks_records st)" unfolding u_def by (rule same_recs_unlink)
  have ui: "slot u i \<noteq> None"
    using same r(1) unfolding same_recs_def by (metis option.map_disc_iff option.distinct(1))
  have "kernel_inv (st\<lparr>ks_records := upd_slot ?f i u, ks_record_heads := heads, ks_index := index_on_delete i (ks_index st)\<rparr>)"
    by (rule remove_record_ok [OF inv r u_def heads_def])
      (use same_recs_length [OF same] in \<open>simp_all add: slot_simps\<close>)
  moreover have "apply_soft_delete_record i st
      = Ok (st\<lparr>ks_records := upd_slot ?f i u, ks_record_heads := heads, ks_index := index_on_delete i (ks_index st)\<rparr>)"
    using r(1) ui unlink_record_ok [OF inv r(1)]
    by (auto simp: apply_soft_delete_record_def pool_soft_delete_slot u_def [symmetric] heads_def [symmetric])
  moreover have "same_recs (upd_slot ?f i u) (upd_slot ?f i (ks_records st))"
  proof -
    have "r_core (?f a) = r_core (?f b)" if "r_core a = r_core b" for a b
      using that by (simp add: r_core_def)
    then have "map_option r_core (map_option ?f (slot u i)) = map_option r_core (map_option ?f (slot (ks_records st) i))"
      using same unfolding same_recs_def option.map_comp comp_def
      by (elim conjE allE [of _ i] map_option_lift) blast
    with same show ?thesis by (simp add: same_recs_def slot_simps)
  qed
  ultimately show ?thesis by blast
qed

section \<open>In-place updates\<close>

text \<open>Changing a record without touching its identity, namespace, vector, links or tombstone.\<close>

lemma update_record_ok:
  assumes inv: "kernel_inv st"
    and f: "\<And>r. r_id (f r) = r_id r \<and> r_namespace_id (f r) = r_namespace_id r \<and> r_vector (f r) = r_vector r
        \<and> r_next_in_ns (f r) = r_next_in_ns r \<and> r_prev_in_ns (f r) = r_prev_in_ns r
        \<and> soft_deleted (f r) = soft_deleted r \<and> (is_searchable (f r) \<longrightarrow> is_searchable r)"
    and keys: "keys_ok keys (upd_slot f i (ks_records st))"
  shows "kernel_inv (st\<lparr>ks_records := upd_slot f i (ks_records st), ks_encrypted_keys := keys\<rparr>)"
proof -
  have "recs_ok (ks_dim st) (upd_slot f i (ks_records st)) (ks_record_heads st)"
    by (rule recs_ok_update [OF kernel_invD(1) [OF inv]]) (use f in blast)
  moreover have "index_ok (ks_dim st) (ks_index st) (upd_slot f i (ks_records st))"
    by (rule ai.mono [OF kernel_invD(5) [OF inv]])
      (use f in \<open>auto simp: same_searchable_def slot_simps\<close>)
  moreover have "node_refs_ok (upd_slot f i (ks_records st)) (ks_nodes st)"
    by (rule node_refs_recs [OF kernel_invD(6) [OF inv]])
      (use f in \<open>auto simp: slot_simps split: if_splits\<close>)
  ultimately show ?thesis using inv keys by (simp add: kernel_inv_def)
qed

lemma apply_update_metadata_ok:
  assumes inv: "kernel_inv st" and r: "slot (ks_records st) i = Some r"
  shows "apply_update_metadata i md st
      = Ok (st\<lparr>ks_records := upd_slot (\<lambda>r. r\<lparr>r_metadata := md\<rparr>) i (ks_records st)\<rparr>) \<and>
    kernel_inv (st\<lparr>ks_records := upd_slot (\<lambda>r. r\<lparr>r_metadata := md\<rparr>) i (ks_records st)\<rparr>)"
proof -
  let ?f = "\<lambda>r :: Record. r\<lparr>r_metadata := md\<rparr>"
  have flags: "soft_deleted (?f r) = soft_deleted r" "encrypted (?f r) = encrypted r"
    "shredded (?f r) = shredded r" "is_searchable (?f r) = is_searchable r" for r
    by (simp_all add: soft_deleted_def encrypted_def shredded_def is_searchable_def)
  have "keys_ok (ks_encrypted_keys st) (upd_slot ?f i (ks_records st))"
    by (rule keys_ok_frame [OF kernel_invD(7) [OF inv]])
      (auto simp: slot_simps flags split: if_splits)
  then have "kernel_inv (st\<lparr>ks_records := upd_slot ?f i (ks_records st), ks_encrypted_keys := ks_encrypted_keys st\<rparr>)"
    by (intro update_record_ok [OF inv]) (simp_all add: flags)
  then show ?thesis
    using r by (simp add: apply_update_metadata_def pool_update_metadata_def)
qed

lemma kernel_inv_set_meta:
  "kernel_inv st \<Longrightarrow> kernel_inv (st\<lparr>ks_meta := btree_insert k v (ks_meta st)\<rparr>)"
  by (simp add: kernel_inv_def)

lemma kernel_inv_version: "kernel_inv (st\<lparr>ks_version := v\<rparr>) \<longleftrightarrow> kernel_inv st"
  by (simp add: kernel_inv_def)

section \<open>Shredding a key\<close>

definition shred :: "Record \<Rightarrow> Record" where
  "shred r = r\<lparr>r_flags := r_flags r OR FLAG_SHREDDED, r_metadata := None\<rparr>"

lemma shred_flags [simp]: "soft_deleted (shred r) = soft_deleted r" "encrypted (shred r) = encrypted r"
  "shredded (shred r)" "\<not> is_active (shred r)" "\<not> is_searchable (shred r)"
  unfolding shred_def
  by (simp_all add: flags_or_shredded is_active_iff is_searchable_iff)

lemma shred_shred [simp]: "shred (shred r) = shred r"
  by (simp add: shred_def or.assoc)

lemma shred_one_eq: "shred_one i recs = upd_slot shred i recs"
  unfolding shred_one_def pool_mark_shredded_def shred_def [abs_def] by (cases "slot recs i") simp_all

lemma slot_shred_all:
  "slot (fold shred_one is recs) j = (if j \<in> set is then map_option shred (slot recs j) else slot recs j)"
proof (induction "is" arbitrary: recs)
  case (Cons i "is")
  then show ?case by (auto simp: shred_one_eq slot_simps option.map_comp comp_def)
qed simp

lemma length_shred_all [simp]: "length (fold shred_one is recs) = length recs"
  by (induction "is" arbitrary: recs) (simp_all add: shred_one_eq)

lemma kernel_inv_shred_all:
  assumes inv: "kernel_inv st" and keys: "keys_ok keys (fold shred_one is (ks_records st))"
  shows "kernel_inv (st\<lparr>ks_records := fold shred_one is (ks_records st), ks_encrypted_keys := keys\<rparr>)"
proof -
  have R: "recs_ok d (fold shred_one is recs) heads" if "recs_ok d recs heads" for d recs heads
    using that
  proof (induction "is" arbitrary: recs)
    case (Cons i "is")
    have "recs_ok d (upd_slot shred i recs) heads"
      by (rule recs_ok_update [OF Cons.prems]) (simp add: shred_def flags_or_shredded)
    then show ?case using Cons.IH by (simp add: shred_one_eq)
  qed simp
  have "index_ok (ks_dim st) (ks_index st) (fold shred_one is (ks_records st))"
    by (rule ai.mono [OF kernel_invD(5) [OF inv]])
      (auto simp: same_searchable_def slot_shred_all)
  moreover have "node_refs_ok (fold shred_one is (ks_records st)) (ks_nodes st)"
    by (rule node_refs_recs [OF kernel_invD(6) [OF inv]])
      (auto simp: slot_shred_all shred_def split: if_splits)
  ultimately show ?thesis
    using inv keys R [OF kernel_invD(1) [OF inv]] by (simp add: kernel_inv_def)
qed

lemma apply_shred_key_ok:
  assumes inv: "kernel_inv st"
    and is_def: "is = (case ks_encrypted_keys st key of None \<Rightarrow> [] | Some is \<Rightarrow> is)"
  shows "apply_shred_key key st = Ok (st\<lparr>ks_records := fold shred_one is (ks_records st),
      ks_encrypted_keys := (ks_encrypted_keys st)(key := None)\<rparr>)"
    "kernel_inv (st\<lparr>ks_records := fold shred_one is (ks_records st),
      ks_encrypted_keys := (ks_encrypted_keys st)(key := None)\<rparr>)"
proof -
  show "apply_shred_key key st = Ok (st\<lparr>ks_records := fold shred_one is (ks_records st),
      ks_encrypted_keys := (ks_encrypted_keys st)(key := None)\<rparr>)"
    by (simp add: apply_shred_key_def is_def Let_def)
  have K: "keys_ok (ks_encrypted_keys st) (ks_records st)" by (rule kernel_invD(7) [OF inv])
  have "keys_ok ((ks_encrypted_keys st)(key := None)) (fold shred_one is (ks_records st))"
    unfolding keys_ok_def
  proof (intro conjI allI impI)
    fix key' is' i
    assume "((ks_encrypted_keys st)(key := None)) key' = Some is' \<and> i \<in> set is'"
    then have k: "ks_encrypted_keys st key' = Some is' \<and> i \<in> set is'" by (auto split: if_splits)
    then show "unat i < length (fold shred_one is (ks_records st))"
      using K unfolding keys_ok_def by simp
    fix r' assume "slot (fold shred_one is (ks_records st)) i = Some r'"
    then obtain r where "slot (ks_records st) i = Some r" "encrypted r' = encrypted r"
      by (auto simp: slot_shred_all split: if_splits)
    then show "encrypted r'" using k K unfolding keys_ok_def by blast
  next
    fix i r' assume r': "slot (fold shred_one is (ks_records st)) i = Some r' \<and> encrypted r' \<and> \<not> shredded r'"
    then have i: "i \<notin> set is" "slot (ks_records st) i = Some r'" by (auto simp: slot_shred_all split: if_splits)
    then obtain key' is' where k: "ks_encrypted_keys st key' = Some is'" "i \<in> set is'"
      using r' K unfolding keys_ok_def by blast
    then have "key' \<noteq> key" using i(1) by (auto simp: is_def)
    with k show "\<exists>key' is'. ((ks_encrypted_keys st)(key := None)) key' = Some is' \<and> i \<in> set is'" by auto
  qed
  then show "kernel_inv (st\<lparr>ks_records := fold shred_one is (ks_records st),
      ks_encrypted_keys := (ks_encrypted_keys st)(key := None)\<rparr>)"
    by (rule kernel_inv_shred_all [OF inv])
qed

section \<open>Graph events\<close>

lemma map_option_same: "map_option f a = map_option f b \<Longrightarrow> a = Some x \<Longrightarrow> \<exists>y. b = Some y \<and> f x = f y"
  by (cases b) auto

definition record_ref_ok :: "KernelState \<Rightarrow> u16 \<Rightarrow> RecordId option \<Rightarrow> bool" where
  "record_ref_ok st ns rec \<longleftrightarrow>
     (\<forall>rid. rec = Some rid \<longrightarrow> (\<exists>r. slot (ks_records st) rid = Some r \<and> r_namespace_id r = ns))"

lemma create_node_body_ok:
  assumes inv: "kernel_inv st" and room: "length (ks_nodes st) < 2 ^ 32 - 1"
    and ns: "unat ns < MAX_NAMESPACES" and rec: "record_ref_ok st ns rec"
  shows "\<exists>nds heads. create_node_body i kind rec ns st
      = Ok (st\<lparr>ks_nodes := nds, ks_node_heads := heads\<rparr>) \<and>
    (\<forall>j. map_option n_info (slot nds j) = (if j = of_nat (length (ks_nodes st))
        then Some (of_nat (length (ks_nodes st)), kind, rec, ns)
        else map_option n_info (slot (ks_nodes st) j))) \<and>
    length nds = Suc (length (ks_nodes st)) \<and>
    kernel_inv (st\<lparr>ks_nodes := nds, ks_node_heads := heads\<rparr>)"
proof -
  let ?nds = "ks_nodes st"
  let ?n0 = "node_new (of_nat (length ?nds)) kind rec ns"
  note N = kernel_invD(2) [OF inv]
  have n0: "n_namespace_id ?n0 = ns" "n_id ?n0 = of_nat (length ?nds)" "n_first_out ?n0 = None"
    "n_first_in ?n0 = None" "n_record ?n0 = rec" "n_info ?n0 = (of_nat (length ?nds), kind, rec, ns)"
    by (simp_all add: node_new_def n_info_def)
  have heads: "unat ns < length (ks_node_heads st)"
    using N ns by (simp add: nodes_ok_def ns_lists_def)
  obtain nds where run: "link_front set_n_next set_n_prev (of_nat (length ?nds)) (ks_node_heads st ! unat ns)
      (?nds @ [Some ?n0]) = Ok nds"
    and ok: "nodes_ok nds ((ks_node_heads st)[unat ns := of_nat (length ?nds)])"
    and len: "length nds = Suc (length ?nds)"
    and info: "\<And>j. map_option n_info (slot nds j) = map_option n_info (slot (?nds @ [Some ?n0]) j)"
    and graph: "\<And>j. map_option n_graph (slot nds j) = map_option n_graph (slot (?nds @ [Some ?n0]) j)"
    using nodes_ok_insert [OF N room, of ?n0] n0 ns by auto
  have "graph_inv (?nds @ [Some ?n0]) (ks_edges st)"
    using room n0 by (intro graph_inv_new_node kernel_invD(3) [OF inv]) simp_all
  then have G: "graph_inv nds (ks_edges st)" by (rule graph_inv_frame [OF graph])
  have "node_refs_ok (ks_records st) (?nds @ [Some ?n0])"
    unfolding node_refs_ok_def
  proof (intro allI impI)
    fix j n rid assume n: "slot (?nds @ [Some ?n0]) j = Some n \<and> n_record n = Some rid"
    show "unat rid < length (ks_records st) \<and>
        (\<forall>r. slot (ks_records st) rid = Some r \<longrightarrow> r_namespace_id r = n_namespace_id n)"
    proof (cases "j = of_nat (length ?nds)")
      case True
      then have "n = ?n0" using n room by (simp add: slot_simps)
      then show ?thesis using n rec n0 by (auto simp: record_ref_ok_def dest: slot_SomeD)
    next
      case False
      then have "slot ?nds j = Some n" using n room by (simp add: slot_simps)
      then show ?thesis using n kernel_invD(6) [OF inv] unfolding node_refs_ok_def by blast
    qed
  qed
  then have refs: "node_refs_ok (ks_records st) nds"
  proof (rule node_refs_info)
    fix j n' assume "slot nds j = Some n'"
    then show "\<exists>n. slot (?nds @ [Some ?n0]) j = Some n \<and> n_info n' = n_info n"
      by (rule map_option_same [OF info])
  qed
  have "create_node_body i kind rec ns st = Ok (st\<lparr>ks_nodes := nds,
      ks_node_heads := (ks_node_heads st)[unat ns := of_nat (length ?nds)]\<rparr>)"
  proof -
    have "(case rec of None \<Rightarrow> Ok () | Some rid \<Rightarrow> (case pool_get (ks_records st) rid of
        None \<Rightarrow> Err NotFound | Some r \<Rightarrow> if r_namespace_id r \<noteq> ns then Err InvalidOperation else Ok ())) = Ok ()"
      using rec by (cases rec) (auto simp: record_ref_ok_def)
    moreover have "(node_new i kind rec ns)\<lparr>n_id := of_nat (length ?nds)\<rparr> = ?n0" by (simp add: node_new_def)
    ultimately show ?thesis
      using run heads by (simp add: create_node_body_def node_pool_insert_def link_node_def Let_def not_le)
  qed
  moreover have "kernel_inv (st\<lparr>ks_nodes := nds,
      ks_node_heads := (ks_node_heads st)[unat ns := of_nat (length ?nds)]\<rparr>)"
    using inv ok G refs by (simp add: kernel_inv_def)
  moreover have "map_option n_info (slot nds j) = (if j = of_nat (length ?nds)
      then Some (of_nat (length ?nds), kind, rec, ns) else map_option n_info (slot ?nds j))" for j
    using info [of j] room n0 by (simp add: slot_simps)
  ultimately show ?thesis using len by blast
qed

lemma create_edge_body_ok:
  assumes inv: "kernel_inv st" and room: "length (ks_edges st) < 2 ^ 32"
    and ends: "slot (ks_nodes st) a = Some na" "slot (ks_nodes st) b = Some nb" "n_namespace_id na = n_namespace_id nb"
  shows "\<exists>nds e. create_edge_body a b kind st
      = Ok (st\<lparr>ks_nodes := nds, ks_edges := ks_edges st @ [Some e]\<rparr>) \<and>
    same_nodes nds (ks_nodes st) \<and> e_core e = e_core (edge_new (of_nat (length (ks_edges st))) kind a b) \<and>
    kernel_inv (st\<lparr>ks_nodes := nds, ks_edges := ks_edges st @ [Some e]\<rparr>)"
proof -
  obtain nds es e where run: "add_edge kind a b (ks_nodes st) (ks_edges st) = Ok (of_nat (length (ks_edges st)), nds, es)"
    and G: "graph_inv nds es" and len: "length nds = length (ks_nodes st)"
    and core: "\<And>i. map_option n_core (slot nds i) = map_option n_core (slot (ks_nodes st) i)"
    and es: "es = ks_edges st @ [Some e]" and e: "e_core e = e_core (edge_new (of_nat (length (ks_edges st))) kind a b)"
    using graph_inv_add_edge [OF kernel_invD(3) [OF inv] room ends, of kind] by blast
  have same: "same_nodes nds (ks_nodes st)" using len core by (simp add: same_nodes_def)
  have "nodes_ok nds (ks_node_heads st)" by (rule nodes_ok_same [OF kernel_invD(2) [OF inv] same])
  moreover have "node_refs_ok (ks_records st) nds"
  proof (rule node_refs_info [OF kernel_invD(6) [OF inv]])
    fix j n' assume "slot nds j = Some n'"
    then show "\<exists>n. slot (ks_nodes st) j = Some n \<and> n_info n' = n_info n"
      using same_nodes_slot [OF same] n_core_info by blast
  qed
  ultimately have "kernel_inv (st\<lparr>ks_nodes := nds, ks_edges := es\<rparr>)"
    using inv G room es by (simp add: kernel_inv_def)
  moreover have "create_edge_body a b kind st = Ok (st\<lparr>ks_nodes := nds, ks_edges := es\<rparr>)"
    using ends run by (simp add: create_edge_body_def)
  ultimately show ?thesis using same e es by blast
qed

text \<open>Deleting edges keeps the invariant of the whole state.\<close>

lemma kernel_inv_edges:
  assumes inv: "kernel_inv st" and G: "graph_inv nds es" and same: "same_nodes nds (ks_nodes st)"
    and len: "length es = length (ks_edges st)"
  shows "kernel_inv (st\<lparr>ks_nodes := nds, ks_edges := es\<rparr>)"
proof -
  have "node_refs_ok (ks_records st) nds"
  proof (rule node_refs_info [OF kernel_invD(6) [OF inv]])
    fix j n' assume "slot nds j = Some n'"
    then show "\<exists>n. slot (ks_nodes st) j = Some n \<and> n_info n' = n_info n"
      using same_nodes_slot [OF same] n_core_info by blast
  qed
  then show ?thesis
    using inv G len nodes_ok_same [OF kernel_invD(2) [OF inv] same] by (simp add: kernel_inv_def)
qed

lemma apply_delete_edge_ok:
  assumes inv: "kernel_inv st" and e: "slot (ks_edges st) x = Some e"
  shows "\<exists>nds es. apply_delete_edge x st = Ok (st\<lparr>ks_nodes := nds, ks_edges := es\<rparr>) \<and>
    same_nodes nds (ks_nodes st) \<and> edges_minus {x} es (ks_edges st) \<and>
    kernel_inv (st\<lparr>ks_nodes := nds, ks_edges := es\<rparr>)"
proof -
  obtain nds es where d: "delete_edge x (ks_nodes st, ks_edges st) = Ok (nds, es)" "graph_inv nds es"
    "same_nodes nds (ks_nodes st)" "edges_minus {x} es (ks_edges st)"
    using delete_edge_ok [OF kernel_invD(3) [OF inv] e] .
  moreover have "kernel_inv (st\<lparr>ks_nodes := nds, ks_edges := es\<rparr>)"
    using d(4) by (intro kernel_inv_edges [OF inv d(2,3)]) (simp add: edges_minus_def)
  moreover have "apply_delete_edge x st = Ok (st\<lparr>ks_nodes := nds, ks_edges := es\<rparr>)"
    using d(1) by (simp add: apply_delete_edge_def)
  ultimately show ?thesis by blast
qed

lemma delete_node_ok:
  assumes inv: "kernel_inv st" and n: "slot (ks_nodes st) i = Some n"
  shows "\<exists>nds es heads. delete_node i st = Ok (st\<lparr>ks_nodes := nds, ks_edges := es, ks_node_heads := heads\<rparr>) \<and>
    (\<forall>j. map_option n_info (slot nds j) = (if j = i then None else map_option n_info (slot (ks_nodes st) j))) \<and>
    length nds = length (ks_nodes st) \<and>
    edges_minus (incident (ks_edges st) i) es (ks_edges st) \<and>
    kernel_inv (st\<lparr>ks_nodes := nds, ks_edges := es, ks_node_heads := heads\<rparr>)"
proof -
  note N = kernel_invD(2) [OF inv]
  define u where "u = unlink_slots set_n_next set_n_prev (n_prev_in_ns n) (n_next_in_ns n) (ks_nodes st)"
  define heads where "heads = (if n_prev_in_ns n = NS_LIST_NIL
      then (ks_node_heads st)[unat (n_namespace_id n) := n_next_in_ns n] else ks_node_heads st)"
  have unlink: "unlink_node_from_ns (n_namespace_id n) (n_prev_in_ns n) (n_next_in_ns n) st
      = Ok (st\<lparr>ks_nodes := u, ks_node_heads := heads\<rparr>)"
  proof -
    have "unat (n_namespace_id n) < length (ks_node_heads st)"
      using N n unfolding nodes_ok_def ns_lists_def by metis
    then show ?thesis by (auto simp: unlink_node_from_ns_def u_def heads_def)
  qed
  have ug: "map_option n_graph (slot u j) = map_option n_graph (slot (ks_nodes st) j)" for j
    unfolding u_def by (rule unlink_slots_frame) simp_all
  have ui: "map_option n_info (slot u j) = map_option n_info (slot (ks_nodes st) j)" for j
    unfolding u_def by (rule unlink_slots_frame) simp_all
  have G: "graph_inv u (ks_edges st)" by (rule graph_inv_frame [OF ug kernel_invD(3) [OF inv]])
  obtain n' where n': "slot u i = Some n'" using ug [of i] n by auto
  obtain outs ins nds es where c: "collect_edges (n_first_out n') e_next_out (ks_edges st) [] = Some outs"
    "collect_edges (n_first_in n') e_next_in (ks_edges st) [] = Some ins"
    and d: "delete_edges (outs @ ins) (u, ks_edges st) = Ok (nds, es)" "same_nodes nds u"
    and G': "graph_inv (clear_slot i nds) es" and minus: "edges_minus (incident (ks_edges st) i) es (ks_edges st)"
    using delete_node_graph_ok [OF G n'] by blast
  have "slot nds i \<noteq> None" using same_nodes_None [OF d(2), of i] n' by simp
  then have del: "node_pool_delete i nds = Ok (clear_slot i nds)" by (auto simp: node_pool_delete_slot)
  have run: "delete_node i st = Ok (st\<lparr>ks_nodes := clear_slot i nds, ks_edges := es, ks_node_heads := heads\<rparr>)"
    using n n' unlink c d(1) del by (simp add: delete_node_def)
  have info: "map_option n_info (slot (clear_slot i nds) j) = (if j = i then None else map_option n_info (slot (ks_nodes st) j))" for j
    using same_nodes_info [OF d(2), of j] ui [of j] by (simp add: slot_simps)
  have "nodes_ok (clear_slot i nds) heads"
    unfolding heads_def by (rule nodes_ok_unlink_clear [OF N n d(2) [unfolded u_def]])
  moreover have "node_refs_ok (ks_records st) (clear_slot i nds)"
  proof (rule node_refs_info [OF kernel_invD(6) [OF inv]])
    fix j m' assume m': "slot (clear_slot i nds) j = Some m'"
    then have "map_option n_info (slot (clear_slot i nds) j) = map_option n_info (slot (ks_nodes st) j)"
      using info [of j] by (simp split: if_splits)
    then show "\<exists>m. slot (ks_nodes st) j = Some m \<and> n_info m' = n_info m"
      using m' by (rule map_option_same)
  qed
  ultimately have "kernel_inv (st\<lparr>ks_nodes := clear_slot i nds, ks_edges := es, ks_node_heads := heads\<rparr>)"
    using inv G' minus by (simp add: kernel_inv_def edges_minus_def)
  moreover have "length (clear_slot i nds) = length (ks_nodes st)"
    using d(2) by (simp add: same_nodes_def u_def)
  ultimately show ?thesis using run info minus by blast
qed

section \<open>Dropping a namespace\<close>

lemma slot_clear_all: "slot (fold clear_slot xs recs) j = (if j \<in> set xs then None else slot recs j)"
  by (induction xs arbitrary: recs) (auto simp: slot_simps)

lemma length_clear_all [simp]: "length (fold clear_slot xs recs) = length recs"
  by (induction xs arbitrary: recs) auto

lemma drop_records_dll:
  assumes "dseg (rec_ptrs recs) p c xs NS_LIST_NIL" "distinct xs"
  shows "drop_records c recs ix = Some (Ok (fold clear_slot xs recs, fold index_on_delete xs ix))"
  using assms
proof (induction xs arbitrary: recs p c ix)
  case Nil
  then show ?case by (simp add: drop_records.simps)
next
  case (Cons x xs)
  then obtain n where x: "c = x" "x \<noteq> NS_LIST_NIL" "rec_ptrs recs x = Some (n, p)"
    and tl: "dseg (rec_ptrs recs) x n xs NS_LIST_NIL" by auto
  then obtain r where r: "slot recs x = Some r" "r_next_in_ns r = n" by (auto simp: ptrs_def)
  have "dseg (rec_ptrs (clear_slot x recs)) x n xs NS_LIST_NIL"
    using tl Cons.prems(2) by (subst dseg_cong [where h' = "rec_ptrs recs"]) (auto simp: ptrs_def slot_simps)
  then have "drop_records n (clear_slot x recs) (index_on_delete x ix)
      = Some (Ok (fold clear_slot xs (clear_slot x recs), fold index_on_delete xs (index_on_delete x ix)))"
    using Cons.IH Cons.prems(2) by simp
  then show ?case
    using x r slot_SomeD [OF r(1)] by (subst drop_records.simps) simp
qed

lemma collect_nodes_dll:
  "dseg (node_ptrs nds) p c xs NS_LIST_NIL \<Longrightarrow> collect_nodes c nds acc = Some (acc @ xs)"
proof (induction xs arbitrary: p c acc)
  case Nil
  then show ?case by (simp add: collect_nodes.simps)
next
  case (Cons x xs)
  then obtain n where x: "c = x" "x \<noteq> NS_LIST_NIL" "node_ptrs nds x = Some (n, p)"
    and tl: "dseg (node_ptrs nds) x n xs NS_LIST_NIL" by auto
  then obtain m where m: "slot nds x = Some m" "n_next_in_ns m = n" by (auto simp: ptrs_def)
  from Cons.IH [OF tl, of "acc @ [x]"] x m show ?case by (subst collect_nodes.simps) simp
qed

lemma index_ok_clear_all:
  assumes "index_ok d ix recs"
  shows "index_ok d (fold index_on_delete xs ix) (fold clear_slot xs recs)"
  using assms
proof (induction xs arbitrary: ix recs)
  case (Cons x xs)
  have "index_ok d (index_on_delete x ix) (clear_slot x recs)"
    by (rule ai.delete_ok [OF Cons.prems]) (auto simp: same_searchable_def slot_simps)
  then show ?case using Cons.IH by simp
qed simp

text \<open>Clearing a whole list.\<close>

lemma kernel_inv_clear_namespace:
  assumes inv: "kernel_inv st" and ns: "ns < MAX_NAMESPACES"
    and xs: "set xs = rec_members (ks_records st) ns"
  shows "kernel_inv (st\<lparr>ks_records := fold clear_slot xs (ks_records st),
    ks_index := fold index_on_delete xs (ks_index st), ks_record_heads := (ks_record_heads st)[ns := NS_LIST_NIL]\<rparr>)"
proof -
  let ?recs = "ks_records st" and ?heads = "ks_record_heads st"
  let ?recs' = "fold clear_slot xs ?recs"
  note R = kernel_invD(1) [OF inv]
  note L = recs_ok_lists [OF R]
  have mem: "rec_members ?recs' m = (if m = ns then {} else rec_members ?recs m)" for m
  proof -
    have "rec_members ?recs' m = rec_members ?recs m - set xs"
      by (auto simp: rec_members_def slot_clear_all split: if_splits)
    then show ?thesis using xs ns_lists_disjoint [OF L, of m ns] by auto
  qed
  have "\<exists>ys. distinct ys \<and> dll (rec_ptrs ?recs') (?heads[ns := NS_LIST_NIL] ! m) ys \<and> set ys = rec_members ?recs' m"
    if m: "m < MAX_NAMESPACES" for m
  proof (cases "m = ns")
    case True
    then show ?thesis using mem ns ns_lists_length [OF L] by (intro exI [of _ "[]"]) simp
  next
    case False
    obtain ys where ys: "distinct ys" "dll (rec_ptrs ?recs) (?heads ! m) ys" "set ys = rec_members ?recs m"
      using ns_listsE [OF L m] .
    have "dll (rec_ptrs ?recs') (?heads ! m) ys"
      using ys xs ns_lists_disjoint [OF L False]
      by (subst dseg_cong [where h' = "rec_ptrs ?recs"]) (auto simp: ptrs_def slot_clear_all)
    with False ys mem show ?thesis by auto
  qed
  moreover have "rec_members ?recs' a \<inter> rec_members ?recs' b = {}" if "a \<noteq> b" for a b
    using mem ns_lists_disjoint [OF L that] by auto
  ultimately have "ns_lists (rec_ptrs ?recs') (?heads[ns := NS_LIST_NIL]) (rec_members ?recs')"
    using ns_lists_length [OF L] unfolding ns_lists_def by simp
  then have "recs_ok (ks_dim st) ?recs' (?heads[ns := NS_LIST_NIL])"
    using R by (auto simp: recs_ok_def slot_clear_all split: if_splits)
  moreover have "node_refs_ok ?recs' (ks_nodes st)"
    by (rule node_refs_recs [OF kernel_invD(6) [OF inv]]) (auto simp: slot_clear_all split: if_splits)
  moreover have "keys_ok (ks_encrypted_keys st) ?recs'"
    by (rule keys_ok_frame [OF kernel_invD(7) [OF inv]]) (auto simp: slot_clear_all split: if_splits)
  ultimately show ?thesis
    using inv index_ok_clear_all [OF kernel_invD(5) [OF inv]] by (simp add: kernel_inv_def)
qed

lemma owned_minus:
  assumes "edges_minus X es' es" and own: "\<And>e e'. e_core e = e_core e' \<Longrightarrow> own e = own e'"
  shows "owned own es' j = owned own es j - X"
proof (rule set_eqI)
  fix y
  show "y \<in> owned own es' j \<longleftrightarrow> y \<in> owned own es j - X"
  proof (cases "slot es' y")
    case None
    moreover have "map_option e_core (slot es' y) = (if y \<in> X then None else map_option e_core (slot es y))"
      using assms(1) by (simp add: edges_minus_def)
    ultimately show ?thesis by (auto simp: owned_def split: if_splits)
  next
    case (Some e')
    obtain e where e: "slot es y = Some e" "y \<notin> X" "e_core e' = e_core e"
      using edges_minus_slot [OF assms(1) Some] by blast
    then show ?thesis using Some own [OF e(3)] by (simp add: owned_def)
  qed
qed

lemma incident_minus:
  assumes "edges_minus X es' es"
  shows "incident es' j = incident es j - X"
proof -
  have "owned e_from es' j = owned e_from es j - X"
    by (rule owned_minus [OF assms]) (drule e_coreD, simp)
  moreover have "owned e_to es' j = owned e_to es j - X"
    by (rule owned_minus [OF assms]) (drule e_coreD, simp)
  ultimately show ?thesis by (auto simp: incident_def)
qed

lemma delete_nodes_ok:
  assumes "kernel_inv st" "\<And>i. i \<in> set xs \<Longrightarrow> slot (ks_nodes st) i \<noteq> None" "distinct xs"
  shows "\<exists>nds es heads. delete_nodes xs st = Ok (st\<lparr>ks_nodes := nds, ks_edges := es, ks_node_heads := heads\<rparr>) \<and>
    (\<forall>j. map_option n_info (slot nds j) = (if j \<in> set xs then None else map_option n_info (slot (ks_nodes st) j))) \<and>
    length nds = length (ks_nodes st) \<and>
    edges_minus (\<Union>i \<in> set xs. incident (ks_edges st) i) es (ks_edges st) \<and>
    kernel_inv (st\<lparr>ks_nodes := nds, ks_edges := es, ks_node_heads := heads\<rparr>)"
  using assms
proof (induction xs arbitrary: st)
  case Nil
  then show ?case
    by (intro exI [of _ "ks_nodes st"] exI [of _ "ks_edges st"] exI [of _ "ks_node_heads st"])
      (simp add: edges_minus_def)
next
  case (Cons x xs)
  then obtain n where n: "slot (ks_nodes st) x = Some n" by fastforce
  obtain nds es heads where run: "delete_node x st = Ok (st\<lparr>ks_nodes := nds, ks_edges := es, ks_node_heads := heads\<rparr>)"
    and info: "\<And>j. map_option n_info (slot nds j) = (if j = x then None else map_option n_info (slot (ks_nodes st) j))"
    and len: "length nds = length (ks_nodes st)"
    and minus: "edges_minus (incident (ks_edges st) x) es (ks_edges st)"
    and inv: "kernel_inv (st\<lparr>ks_nodes := nds, ks_edges := es, ks_node_heads := heads\<rparr>)"
    using delete_node_ok [OF Cons.prems(1) n] by blast
  let ?st = "st\<lparr>ks_nodes := nds, ks_edges := es, ks_node_heads := heads\<rparr>"
  have live: "slot (ks_nodes ?st) i \<noteq> None" if "i \<in> set xs" for i
  proof -
    have "i \<noteq> x" using that Cons.prems(3) by auto
    then show ?thesis using info [of i] Cons.prems(2) [of i] that by auto
  qed
  obtain nds' es' heads' where run': "delete_nodes xs ?st = Ok (?st\<lparr>ks_nodes := nds', ks_edges := es', ks_node_heads := heads'\<rparr>)"
    and info': "\<And>j. map_option n_info (slot nds' j) = (if j \<in> set xs then None else map_option n_info (slot nds j))"
    and len': "length nds' = length nds"
    and minus': "edges_minus (\<Union>i \<in> set xs. incident es i) es' es"
    and inv': "kernel_inv (?st\<lparr>ks_nodes := nds', ks_edges := es', ks_node_heads := heads'\<rparr>)"
    using Cons.IH [OF inv live] Cons.prems(3) by auto
  have "edges_minus (incident (ks_edges st) x \<union> (\<Union>i \<in> set xs. incident es i)) es' (ks_edges st)"
    by (rule edges_minus_trans [OF minus' minus])
  moreover have "incident (ks_edges st) x \<union> (\<Union>i \<in> set xs. incident es i) = (\<Union>i \<in> set (x # xs). incident (ks_edges st) i)"
    using incident_minus [OF minus] by auto
  ultimately have "edges_minus (\<Union>i \<in> set (x # xs). incident (ks_edges st) i) es' (ks_edges st)" by simp
  moreover have "map_option n_info (slot nds' j) = (if j \<in> set (x # xs) then None else map_option n_info (slot (ks_nodes st) j))" for j
    using info' [of j] info [of j] by auto
  moreover have "delete_nodes (x # xs) st = Ok (st\<lparr>ks_nodes := nds', ks_edges := es', ks_node_heads := heads'\<rparr>)"
    using n run run' by simp
  ultimately show ?case using len len' inv' by (intro exI [of _ nds'] exI [of _ es'] exI [of _ heads']) simp
qed

lemma apply_drop_namespace_ok:
  assumes inv: "kernel_inv st" and ns: "unat ns \<noteq> 0" "unat ns < MAX_NAMESPACES"
  shows "\<exists>st'. apply_drop_namespace ns st = Ok st' \<and> kernel_inv st' \<and>
    (\<forall>j. slot (ks_records st') j = (if j \<in> rec_members (ks_records st) (unat ns) then None else slot (ks_records st) j)) \<and>
    (\<forall>j. map_option n_info (slot (ks_nodes st') j)
       = (if j \<in> node_members (ks_nodes st) (unat ns) then None else map_option n_info (slot (ks_nodes st) j))) \<and>
    edges_minus (\<Union>i \<in> node_members (ks_nodes st) (unat ns). incident (ks_edges st) i) (ks_edges st') (ks_edges st) \<and>
    ks_dim st' = ks_dim st \<and> ks_version st' = ks_version st \<and> ks_meta st' = ks_meta st \<and>
    ks_encrypted_keys st' = ks_encrypted_keys st \<and>
    length (ks_records st') = length (ks_records st) \<and> length (ks_nodes st') = length (ks_nodes st)"
proof -
  let ?recs = "ks_records st" and ?n = "unat ns"
  obtain xs where xs: "distinct xs" "dll (rec_ptrs ?recs) (ks_record_heads st ! ?n) xs" "set xs = rec_members ?recs ?n"
    using ns_listsE [OF recs_ok_lists [OF kernel_invD(1) [OF inv]] ns(2)] .
  define st1 where "st1 = st\<lparr>ks_records := fold clear_slot xs ?recs, ks_index := fold index_on_delete xs (ks_index st),
    ks_record_heads := (ks_record_heads st)[?n := NS_LIST_NIL]\<rparr>"
  have inv1: "kernel_inv st1" unfolding st1_def by (rule kernel_inv_clear_namespace [OF inv ns(2) xs(3)])
  have st1: "ks_nodes st1 = ks_nodes st" "ks_edges st1 = ks_edges st" "ks_node_heads st1 = ks_node_heads st"
    by (simp_all add: st1_def)
  have NL: "ns_lists (node_ptrs (ks_nodes st)) (ks_node_heads st) (node_members (ks_nodes st))"
    using kernel_invD(2) [OF inv] by (simp add: nodes_ok_def)
  obtain ys where ys: "distinct ys" "dll (node_ptrs (ks_nodes st)) (ks_node_heads st ! ?n) ys"
    "set ys = node_members (ks_nodes st) ?n"
    using ns_listsE [OF NL ns(2)] .
  have live: "slot (ks_nodes st1) i \<noteq> None" if "i \<in> set ys" for i
    using that ys(3) st1 by (auto simp: node_members_def)
  obtain nds es heads where run: "delete_nodes ys st1 = Ok (st1\<lparr>ks_nodes := nds, ks_edges := es, ks_node_heads := heads\<rparr>)"
    and info: "\<And>j. map_option n_info (slot nds j) = (if j \<in> set ys then None else map_option n_info (slot (ks_nodes st) j))"
    and len: "length nds = length (ks_nodes st)"
    and minus: "edges_minus (\<Union>i \<in> set ys. incident (ks_edges st) i) es (ks_edges st)"
    and inv2: "kernel_inv (st1\<lparr>ks_nodes := nds, ks_edges := es, ks_node_heads := heads\<rparr>)"
    using delete_nodes_ok [OF inv1 live ys(1)] st1 by auto
  have NL2: "ns_lists (node_ptrs nds) heads (node_members nds)"
    using kernel_invD(2) [OF inv2] by (simp add: nodes_ok_def)
  have "node_members nds ?n = {}"
  proof -
    have "slot nds j = Some m \<Longrightarrow> unat (n_namespace_id m) \<noteq> ?n" for j m
      using info [of j] ys(3) by (cases "slot (ks_nodes st) j") (auto simp: node_members_def n_info_def split: if_splits)
    then show ?thesis by (auto simp: node_members_def)
  qed
  then have "heads ! ?n = NS_LIST_NIL" using ns_listsE [OF NL2 ns(2)] by (metis dseg.simps(1) set_empty)
  then have heads: "heads[?n := NS_LIST_NIL] = heads" by (metis list_update_id)
  have "apply_drop_namespace ns st = Ok (st1\<lparr>ks_nodes := nds, ks_edges := es, ks_node_heads := heads\<rparr>)"
    using ns xs ys run heads ns_lists_length [OF NL] ns_lists_length [OF recs_ok_lists [OF kernel_invD(1) [OF inv]]]
      drop_records_dll [OF xs(2,1)] collect_nodes_dll [OF ys(2), of "[]"]
    by (simp add: apply_drop_namespace_def of_loop_def st1_def Let_def not_le)
  with inv2 info len minus ys(3) xs(3) show ?thesis
    by (intro exI [of _ "st1\<lparr>ks_nodes := nds, ks_edges := es, ks_node_heads := heads\<rparr>"])
      (simp add: st1_def slot_clear_all)
qed

section \<open>Every event\<close>

text \<open>
  What the callers of the kernel have to respect: ids fit 32 bits (with the list terminator spare),
  and a record is not deleted a second time after a soft deletion.
\<close>

fun event_safe :: "KernelEvent \<Rightarrow> KernelState \<Rightarrow> bool" where
  "event_safe (InsertRecord _ _ _ _) st \<longleftrightarrow> length (ks_records st) < 2 ^ 32 - 1"
| "event_safe (AutoInsertRecord _ _ _) st \<longleftrightarrow> length (ks_records st) < 2 ^ 32 - 1"
| "event_safe (InsertRecordEncrypted _ _ _ _ _) st \<longleftrightarrow> length (ks_records st) < 2 ^ 32 - 1"
| "event_safe (AutoInsertRecordEncrypted _ _ _ _) st \<longleftrightarrow> length (ks_records st) < 2 ^ 32 - 1"
| "event_safe (CreateNode _ _ _) st \<longleftrightarrow> length (ks_nodes st) < 2 ^ 32 - 1"
| "event_safe (AutoCreateNode _ _) st \<longleftrightarrow> length (ks_nodes st) < 2 ^ 32 - 1"
| "event_safe (CreateEdge _ _ _ _) st \<longleftrightarrow> length (ks_edges st) < 2 ^ 32"
| "event_safe (AutoCreateEdge _ _ _) st \<longleftrightarrow> length (ks_edges st) < 2 ^ 32"
| "event_safe (DeleteRecord i) st \<longleftrightarrow>
     (case slot (ks_records st) i of Some r \<Rightarrow> \<not> soft_deleted r | None \<Rightarrow> True)"
| "event_safe (SoftDeleteRecord i) st \<longleftrightarrow>
     (case slot (ks_records st) i of Some r \<Rightarrow> \<not> soft_deleted r | None \<Rightarrow> True)"
| "event_safe _ st \<longleftrightarrow> True"

lemma finish_ok:
  assumes "kernel_inv st" "(\<exists>st'. r = Ok st' \<and> kernel_inv st') \<or> (\<exists>e. r = Err e)"
  shows "returns (fst (finish st r)) \<and> kernel_inv (snd (finish st r))"
  using assms by (auto simp: finish_def)

lemma insert_vector_cases:
  fixes vec :: FxpVector
  assumes inv: "kernel_inv st" and room: "length (ks_records st) < 2 ^ 32 - 1" and ns: "unat ns < MAX_NAMESPACES"
  obtains (mismatch) d where "ks_dim st = Some d" "length vec \<noteq> d"
      "insert_vector vec md tag ns st = (Err (DimensionMismatch d (length vec)), st)"
    | (too_large) "ks_dim st = None \<or> ks_dim st = Some (length vec)" "\<not> metadata_fits md"
      "insert_vector vec md tag ns st = (Err MetadataTooLarge, st\<lparr>ks_dim := Some (length vec)\<rparr>)"
      "kernel_inv (st\<lparr>ks_dim := Some (length vec)\<rparr>)"
    | (inserted) recs heads ix where "ks_dim st = None \<or> ks_dim st = Some (length vec)" "metadata_fits md"
      "insert_vector vec md tag ns st = (Ok (), st\<lparr>ks_dim := Some (length vec),
         ks_records := recs, ks_record_heads := heads, ks_index := ix\<rparr>)"
      "same_recs recs (ks_records st @ [Some (record_new (of_nat (length (ks_records st))) vec md tag ns)])"
      "kernel_inv (st\<lparr>ks_dim := Some (length vec), ks_records := recs, ks_record_heads := heads, ks_index := ix\<rparr>)"
proof (cases "ks_dim st = None \<or> ks_dim st = Some (length vec)")
  case False
  then obtain d where "ks_dim st = Some d" "length vec \<noteq> d" by auto
  then show thesis by (intro mismatch [of d]) (simp_all add: insert_vector_def)
next
  case dim: True
  let ?st = "st\<lparr>ks_dim := Some (length vec)\<rparr>"
  have st: "?st = st" if "ks_dim st = Some (length vec)" using that by simp
  have inv': "kernel_inv ?st" using dim inv kernel_inv_set_dim [OF inv] st by metis
  have run: "insert_vector vec md tag ns st = finish ?st (insert_body vec md tag ns ?st)"
  proof (cases "ks_dim st = None")
    case True
    then show ?thesis by (simp add: insert_vector_def Let_def)
  next
    case False
    then have d: "ks_dim st = Some (length vec)" using dim by metis
    then show ?thesis by (simp add: insert_vector_def st [OF d])
  qed
  show thesis
  proof (cases "metadata_fits md")
    case False
    then have "insert_body vec md tag ns ?st = Err MetadataTooLarge"
      by (auto simp: insert_body_def metadata_fits_def split: option.splits)
    then show thesis using dim False run inv' by (intro too_large) (simp_all add: finish_def)
  next
    case True
    obtain recs heads ix where "insert_body vec md tag ns ?st
        = Ok (?st\<lparr>ks_records := recs, ks_record_heads := heads, ks_index := ix\<rparr>)"
      "same_recs recs (ks_records st @ [Some (record_new (of_nat (length (ks_records st))) vec md tag ns)])"
      "kernel_inv (?st\<lparr>ks_records := recs, ks_record_heads := heads, ks_index := ix\<rparr>)"
      using insert_body_ok [OF inv' _ ns _ True, of vec tag] room by auto
    then show thesis using dim True run by (intro inserted) (simp_all add: finish_def)
  qed
qed

lemma apply_delete_record_none: "slot (ks_records st) i = None \<Longrightarrow> apply_delete_record i st = Err NotFound"
  by (simp add: apply_delete_record_def)

lemma apply_soft_delete_record_none: "slot (ks_records st) i = None \<Longrightarrow> apply_soft_delete_record i st = Err NotFound"
  by (simp add: apply_soft_delete_record_def)

text \<open>The shape of a step: it returns, and the state it leaves satisfies the invariant.\<close>

definition good :: "unit kres \<times> KernelState \<Rightarrow> bool" where
  "good p \<longleftrightarrow> returns (fst p) \<and> kernel_inv (snd p)"

lemma good_finish: "kernel_inv st \<Longrightarrow> (\<exists>st'. r = Ok st' \<and> kernel_inv st') \<or> (\<exists>e. r = Err e) \<Longrightarrow> good (finish st r)"
  using finish_ok by (simp add: good_def)

lemma insert_vector_good:
  assumes "kernel_inv st" "length (ks_records st) < 2 ^ 32 - 1" "unat ns < MAX_NAMESPACES"
  shows "good (insert_vector vec md tag ns st)"
  by (rule insert_vector_cases [OF assms, of vec md tag]) (simp_all add: good_def assms(1))

lemma insert_encrypted_outcome:
  assumes inv: "kernel_inv st" and room: "length (ks_records st) < 2 ^ 32 - 1"
  shows "(\<exists>st'. apply_insert_encrypted i key ct tag ns st = Ok st' \<and> kernel_inv st')
    \<or> (\<exists>e. apply_insert_encrypted i key ct tag ns st = Err e)"
proof (cases "unat ns < MAX_NAMESPACES \<and> i = of_nat (length (ks_records st))
    \<and> length ct \<le> MAX_METADATA_SIZE + 28 \<and> ks_dim st \<noteq> None")
  case True
  then obtain d where "ks_dim st = Some d" by auto
  then show ?thesis using apply_insert_encrypted_ok [OF inv room] True by blast
next
  case False
  then show ?thesis
    by (auto simp: apply_insert_encrypted_def pool_next_id_def not_le split: option.splits)
qed

lemma create_node_outcome:
  assumes inv: "kernel_inv st" and room: "length (ks_nodes st) < 2 ^ 32 - 1" and ns: "unat ns < MAX_NAMESPACES"
  shows "(\<exists>st'. create_node_body i kind rec ns st = Ok st' \<and> kernel_inv st')
    \<or> (\<exists>e. create_node_body i kind rec ns st = Err e)"
proof (cases "record_ref_ok st ns rec")
  case True
  then show ?thesis using create_node_body_ok [OF inv room ns] by blast
next
  case False
  then obtain rid where rid: "rec = Some rid"
    "\<not> (\<exists>r. slot (ks_records st) rid = Some r \<and> r_namespace_id r = ns)"
    by (auto simp: record_ref_ok_def)
  then show ?thesis
    by (cases "slot (ks_records st) rid") (auto simp: create_node_body_def Let_def)
qed

lemma create_edge_outcome:
  assumes inv: "kernel_inv st" and room: "length (ks_edges st) < 2 ^ 32"
  shows "(\<exists>st'. create_edge_body a b kind st = Ok st' \<and> kernel_inv st')
    \<or> (\<exists>e. create_edge_body a b kind st = Err e)"
proof (cases "\<exists>na nb. slot (ks_nodes st) a = Some na \<and> slot (ks_nodes st) b = Some nb \<and> n_namespace_id na = n_namespace_id nb")
  case True
  then show ?thesis using create_edge_body_ok [OF inv room] by blast
next
  case False
  then show ?thesis
    by (cases "slot (ks_nodes st) a"; cases "slot (ks_nodes st) b") (auto simp: create_edge_body_def)
qed

lemma apply_arm_good:
  assumes inv: "kernel_inv st" and safe: "event_safe evt st"
  shows "good (apply_arm evt ns st)"
proof (cases evt)
  case (InsertRecord i vec md tag)
  then show ?thesis
    using inv safe insert_vector_good [OF inv] by (auto simp: apply_insert_record_def good_def)
next
  case (AutoInsertRecord vec md tag)
  then show ?thesis
    using inv safe insert_vector_good [OF inv] by (auto simp: apply_auto_insert_record_def good_def)
next
  case (DeleteRecord i)
  have "(\<exists>st'. apply_delete_record i st = Ok st' \<and> kernel_inv st') \<or> (\<exists>e. apply_delete_record i st = Err e)"
  proof (cases "slot (ks_records st) i")
    case (Some r)
    then show ?thesis using apply_delete_record_ok [OF inv Some] safe DeleteRecord by fastforce
  qed (simp add: apply_delete_record_none)
  then show ?thesis using DeleteRecord by (simp add: good_finish [OF inv])
next
  case (SoftDeleteRecord i)
  have "(\<exists>st'. apply_soft_delete_record i st = Ok st' \<and> kernel_inv st') \<or> (\<exists>e. apply_soft_delete_record i st = Err e)"
  proof (cases "slot (ks_records st) i")
    case (Some r)
    then show ?thesis using apply_soft_delete_record_ok [OF inv Some] safe SoftDeleteRecord by fastforce
  qed (simp add: apply_soft_delete_record_none)
  then show ?thesis using SoftDeleteRecord by (simp add: good_finish [OF inv])
next
  case (CreateNode i kind rec)
  then have "(\<exists>st'. apply_create_node i kind rec ns st = Ok st' \<and> kernel_inv st')
      \<or> (\<exists>e. apply_create_node i kind rec ns st = Err e)"
    using create_node_outcome [OF inv] safe by (auto simp: apply_create_node_def not_le)
  then show ?thesis using CreateNode by (simp add: good_finish [OF inv])
next
  case (AutoCreateNode kind rec)
  then have "(\<exists>st'. apply_auto_create_node kind rec ns st = Ok st' \<and> kernel_inv st')
      \<or> (\<exists>e. apply_auto_create_node kind rec ns st = Err e)"
    using create_node_outcome [OF inv] safe by (auto simp: apply_auto_create_node_def not_le)
  then show ?thesis using AutoCreateNode by (simp add: good_finish [OF inv])
next
  case (CreateEdge i a b kind)
  then have "(\<exists>st'. apply_create_edge i a b kind st = Ok st' \<and> kernel_inv st')
      \<or> (\<exists>e. apply_create_edge i a b kind st = Err e)"
    using create_edge_outcome [OF inv] safe by (auto simp: apply_create_edge_def)
  then show ?thesis using CreateEdge by (simp add: good_finish [OF inv])
next
  case (AutoCreateEdge a b kind)
  then show ?thesis
    using create_edge_outcome [OF inv] safe by (simp add: apply_auto_create_edge_def good_finish [OF inv])
next
  case (DeleteNode i)
  have "(\<exists>st'. delete_node i st = Ok st' \<and> kernel_inv st') \<or> (\<exists>e. delete_node i st = Err e)"
  proof (cases "slot (ks_nodes st) i")
    case (Some n)
    then show ?thesis using delete_node_ok [OF inv Some] by blast
  qed (simp add: delete_node_def)
  then show ?thesis using DeleteNode by (simp add: good_finish [OF inv])
next
  case (DeleteEdge i)
  have "(\<exists>st'. apply_delete_edge i st = Ok st' \<and> kernel_inv st') \<or> (\<exists>e. apply_delete_edge i st = Err e)"
  proof (cases "slot (ks_edges st) i")
    case (Some e)
    then show ?thesis using apply_delete_edge_ok [OF inv Some] by blast
  qed (simp add: apply_delete_edge_def delete_edge_def)
  then show ?thesis using DeleteEdge by (simp add: good_finish [OF inv])
next
  case (InsertRecordEncrypted i key ct mct tag)
  then show ?thesis
    using insert_encrypted_outcome [OF inv] safe by (simp add: good_finish [OF inv])
next
  case (AutoInsertRecordEncrypted ens key ct tag)
  then show ?thesis
    using insert_encrypted_outcome [OF inv] safe by (simp add: good_finish [OF inv])
next
  case (UpdateRecordMetadata i md)
  have "(\<exists>st'. apply_update_metadata i md st = Ok st' \<and> kernel_inv st') \<or> (\<exists>e. apply_update_metadata i md st = Err e)"
  proof (cases "slot (ks_records st) i")
    case (Some r)
    then show ?thesis using apply_update_metadata_ok [OF inv Some] by blast
  qed (simp add: apply_update_metadata_def pool_update_metadata_def)
  then show ?thesis using UpdateRecordMetadata by (simp add: good_finish [OF inv])
next
  case (SetMeta key val)
  then show ?thesis using kernel_inv_set_meta [OF inv] by (simp add: apply_set_meta_def good_finish [OF inv])
next
  case (AutoCreateNamespace name)
  then show ?thesis using inv by (simp add: apply_create_namespace_def good_finish [OF inv])
next
  case (DropNamespace name)
  have "(\<exists>st'. apply_drop_namespace ns st = Ok st' \<and> kernel_inv st') \<or> (\<exists>e. apply_drop_namespace ns st = Err e)"
  proof (cases "unat ns \<noteq> 0 \<and> unat ns < MAX_NAMESPACES")
    case True
    then show ?thesis using apply_drop_namespace_ok [OF inv] by blast
  qed (auto simp: apply_drop_namespace_def)
  then show ?thesis using DropNamespace by (simp add: good_finish [OF inv])
next
  case (ShredKey key)
  then show ?thesis
    using apply_shred_key_ok [OF inv refl, of key] by (simp add: good_finish [OF inv])
qed

end
