(* ===== verification/Kernel_Props.thy ===== *)
theory Kernel_Props
  imports Kernel_Steps
begin

text \<open>
  What the kernel guarantees: reachable states satisfy the invariant, the effect of every kind of
  event, and that the searches return exactly the nearest records.
\<close>

section \<open>What no event does\<close>

text \<open>Pools only grow, and an emptied slot stays empty: ids are never reused.\<close>

definition grows :: "'a option list \<Rightarrow> 'a option list \<Rightarrow> bool" where
  "grows xs ys \<longleftrightarrow> length xs \<le> length ys \<and> (\<forall>i. unat i < length xs \<and> slot xs i = None \<longrightarrow> slot ys i = None)"

definition evolves :: "KernelState \<Rightarrow> KernelState \<Rightarrow> bool" where
  "evolves st st' \<longleftrightarrow> ks_version st' = ks_version st \<and> grows (ks_records st) (ks_records st') \<and>
     grows (ks_nodes st) (ks_nodes st') \<and> grows (ks_edges st) (ks_edges st')"

lemma grows_refl [simp]: "grows xs xs"
  by (simp add: grows_def)

lemma grows_trans: "grows xs ys \<Longrightarrow> grows ys zs \<Longrightarrow> grows xs zs"
  unfolding grows_def by (meson le_trans less_le_trans)

lemma grows_upd [simp]: "grows xs (upd_slot f i xs)" "grows xs (clear_slot i xs)"
  by (auto simp: grows_def slot_simps)

lemma grows_append [simp]: "grows xs (xs @ [a])"
  by (auto simp: grows_def slot_def nth_append)

lemma grows_link: "link_front sn sp i old xs = Ok ys \<Longrightarrow> grows xs ys"
  by (auto simp: link_front_def Let_def split: option.splits if_splits
      intro: grows_trans [OF grows_upd(1) grows_upd(1)])

lemma grows_unlink [simp]: "grows xs (unlink_slots sn sp p n xs)"
  by (auto simp: unlink_slots_def Let_def intro: grows_trans [OF grows_upd(1) grows_upd(1)])

lemma res_bind_Ok: "res_bind r f = Ok y \<longleftrightarrow> (\<exists>x. r = Ok x \<and> f x = Ok y)"
  by (cases r) auto

lemma evolves_refl [simp]: "evolves st st"
  by (simp add: evolves_def)

lemma evolves_trans: "evolves a b \<Longrightarrow> evolves b c \<Longrightarrow> evolves a c"
  unfolding evolves_def by (metis grows_trans)

lemma grows_detach: "detach nxt sn first sf x o' (ns, es) = Ok (ns', es') \<Longrightarrow> grows ns ns' \<and> grows es es'"
  by (auto simp: detach_def Let_def split: option.splits if_splits)

lemma grows_delete_edge: "delete_edge x (ns, es) = Ok (ns', es') \<Longrightarrow> grows ns ns' \<and> grows es es'"
  by (auto simp: delete_edge_def res_bind_Ok edge_pool_delete_slot split: option.splits
      dest!: grows_detach intro: grows_trans)

lemma grows_delete_edges: "delete_edges xs (ns, es) = Ok (ns', es') \<Longrightarrow> grows ns ns' \<and> grows es es'"
proof (induction xs arbitrary: ns es)
  case (Cons x xs)
  show ?case
  proof (cases "slot es x")
    case (Some e)
    then obtain ns1 es1 where "delete_edge x (ns, es) = Ok (ns1, es1)" "delete_edges xs (ns1, es1) = Ok (ns', es')"
      using Cons.prems by (auto simp: res_bind_Ok)
    then show ?thesis using grows_delete_edge Cons.IH grows_trans by metis
  qed (use Cons in simp)
qed simp

lemma evolves_delete_node:
  assumes run: "delete_node i st = Ok st'"
  shows "evolves st st'"
proof -
  obtain n where n: "slot (ks_nodes st) i = Some n"
    using run by (cases "slot (ks_nodes st) i") (simp_all add: delete_node_def)
  obtain st1 where st1: "unlink_node_from_ns (n_namespace_id n) (n_prev_in_ns n) (n_next_in_ns n) st = Ok st1"
    using run n by (auto simp: delete_node_def res_bind_Ok)
  obtain outs where outs: "collect_edges (Option.bind (slot (ks_nodes st1) i) n_first_out) e_next_out (ks_edges st1) [] = Some outs"
    using run n st1 by (cases "collect_edges (Option.bind (slot (ks_nodes st1) i) n_first_out) e_next_out (ks_edges st1) []")
      (simp_all add: delete_node_def)
  obtain ins where ins: "collect_edges (Option.bind (slot (ks_nodes st1) i) n_first_in) e_next_in (ks_edges st1) [] = Some ins"
    using run n st1 outs by (cases "collect_edges (Option.bind (slot (ks_nodes st1) i) n_first_in) e_next_in (ks_edges st1) []")
      (simp_all add: delete_node_def)
  obtain ns' es' ns'' where d: "delete_edges (outs @ ins) (ks_nodes st1, ks_edges st1) = Ok (ns', es')"
    and p: "node_pool_delete i ns' = Ok ns''" and st': "st' = st1\<lparr>ks_nodes := ns'', ks_edges := es'\<rparr>"
    using run n st1 outs ins by (auto simp: delete_node_def res_bind_Ok)
  have "evolves st st1"
    using st1 by (auto simp: unlink_node_from_ns_def evolves_def split: if_splits)
  moreover have "grows ns' ns''"
    using p by (cases "slot ns' i") (auto simp: node_pool_delete_slot)
  then have "evolves st1 st'"
    using grows_delete_edges [OF d] st' by (auto simp: evolves_def intro: grows_trans)
  ultimately show ?thesis by (rule evolves_trans)
qed

lemma evolves_delete_nodes: "delete_nodes xs st = Ok st' \<Longrightarrow> evolves st st'"
proof (induction xs arbitrary: st)
  case (Cons x xs)
  then show ?case
    by (auto split: if_splits res.splits dest!: evolves_delete_node intro: evolves_trans)
qed simp

lemma grows_drop_records:
  assumes "drop_records c recs ix = Some (Ok (recs', ix'))"
  shows "grows recs recs'"
proof -
  have "\<forall>recs' ix'. res = Ok (recs', ix') \<longrightarrow> grows recs recs'" if "drop_records c recs ix = Some res" for res
    using that
  proof (rule drop_records.raw_induct [rotated, where P = "\<lambda>c recs ix res. \<forall>recs' ix'. res = Ok (recs', ix') \<longrightarrow> grows recs recs'"])
    fix f c recs ix and res :: "(RecordPool \<times> ActiveIndex) kres"
    assume IH: "\<And>c recs ix res. f c recs ix = Some res \<Longrightarrow> \<forall>recs' ix'. res = Ok (recs', ix') \<longrightarrow> grows recs recs'"
      and run: "(if c = NS_LIST_NIL then Some (Ok (recs, ix))
        else if length recs \<le> unat c then Some Panic
        else f (case slot recs c of None \<Rightarrow> NS_LIST_NIL | Some r \<Rightarrow> r_next_in_ns r)
               (clear_slot c recs) (index_on_delete c ix)) = Some res"
    show "\<forall>recs' ix'. res = Ok (recs', ix') \<longrightarrow> grows recs recs'"
    proof (cases "c = NS_LIST_NIL \<or> length recs \<le> unat c")
      case True
      then show ?thesis using run by (auto split: if_splits)
    next
      case False
      then have "\<forall>recs' ix'. res = Ok (recs', ix') \<longrightarrow> grows (clear_slot c recs) recs'"
        using run IH by simp
      then show ?thesis using grows_trans [OF grows_upd(2)] by blast
    qed
  qed
  then show ?thesis using assms by blast
qed

lemma evolves_link_record: "link_record i ns st = Ok st' \<Longrightarrow> evolves st st'"
  by (auto simp: link_record_def res_bind_Ok evolves_def split: if_splits dest: grows_link)

lemma evolves_link_node: "link_node i ns st = Ok st' \<Longrightarrow> evolves st st'"
  by (auto simp: link_node_def res_bind_Ok evolves_def split: if_splits dest: grows_link)

lemma evolves_with_records:
  "grows (ks_records st) recs \<Longrightarrow> evolves (st\<lparr>ks_records := recs, ks_encrypted_keys := keys\<rparr>) st' \<Longrightarrow> evolves st st'"
  by (auto simp: evolves_def intro: grows_trans)

lemma evolves_insert_body:
  assumes run: "insert_body vec md tag ns st = Ok st'"
  shows "evolves st st'"
proof -
  let ?i = "of_nat (length (ks_records st)) :: u32"
  let ?st = "st\<lparr>ks_records := ks_records st @ [Some (record_new ?i vec md tag ns)],
    ks_encrypted_keys := ks_encrypted_keys st\<rparr>"
  obtain st1 where "link_record ?i ns ?st = Ok st1" and st': "st' = st1\<lparr>ks_index := index_on_insert ?i vec (ks_index st1)\<rparr>"
    using run by (auto simp: insert_body_def pool_insert_def Let_def res_bind_Ok split: if_splits)
  then have "evolves ?st st1" by (intro evolves_link_record)
  then have "evolves st st1" by (rule evolves_with_records [rotated]) simp
  then show ?thesis by (simp add: st' evolves_def)
qed

lemma evolves_insert_encrypted:
  assumes run: "apply_insert_encrypted i key ct tag ns st = Ok st'"
  shows "evolves st st'"
proof -
  obtain d where d: "ks_dim st = Some d"
    using run by (cases "ks_dim st") (auto simp: apply_insert_encrypted_def split: if_splits)
  let ?i = "of_nat (length (ks_records st)) :: u32"
  let ?recs = "ks_records st @ [Some (record_new ?i (replicate d 0) (Some ct) tag ns)]"
  obtain recs where recs: "pool_mark_encrypted ?i ?recs = Ok recs"
    and link: "\<exists>keys. link_record ?i ns (st\<lparr>ks_records := recs, ks_encrypted_keys := keys\<rparr>) = Ok st'"
    using run d by (auto simp: apply_insert_encrypted_def pool_insert_def Let_def res_bind_Ok split: if_splits)
  have "grows ?recs recs"
    using recs by (cases "slot ?recs ?i") (auto simp: pool_mark_encrypted_def)
  then have "grows (ks_records st) recs" by (rule grows_trans [OF grows_append])
  then show ?thesis using link evolves_link_record evolves_with_records by blast
qed

lemma evolves_delete_record:
  assumes run: "apply_delete_record i st = Ok st'"
  shows "evolves st st'"
proof -
  obtain r where r: "slot (ks_records st) i = Some r"
    using run by (cases "slot (ks_records st) i") (simp_all add: apply_delete_record_def)
  obtain st1 recs where u: "unlink_record_from_ns (r_namespace_id r) (r_prev_in_ns r) (r_next_in_ns r) st = Ok st1"
    and d: "pool_delete i (ks_records st1) = Ok recs"
    and st': "st' = st1\<lparr>ks_records := recs, ks_index := index_on_delete i (ks_index st1)\<rparr>"
    using run r by (auto simp: apply_delete_record_def res_bind_Ok)
  have "evolves st st1" using u by (auto simp: unlink_record_from_ns_def evolves_def split: if_splits)
  moreover have "grows (ks_records st1) recs"
    using d by (cases "slot (ks_records st1) i") (auto simp: pool_delete_slot)
  ultimately show ?thesis using st' by (auto simp: evolves_def intro: grows_trans)
qed

lemma evolves_soft_delete_record:
  assumes run: "apply_soft_delete_record i st = Ok st'"
  shows "evolves st st'"
proof -
  obtain r where r: "slot (ks_records st) i = Some r"
    using run by (cases "slot (ks_records st) i") (simp_all add: apply_soft_delete_record_def)
  obtain st1 recs where u: "unlink_record_from_ns (r_namespace_id r) (r_prev_in_ns r) (r_next_in_ns r) st = Ok st1"
    and d: "pool_soft_delete i (ks_records st1) = Ok recs"
    and st': "st' = st1\<lparr>ks_records := recs, ks_index := index_on_delete i (ks_index st1)\<rparr>"
    using run r by (auto simp: apply_soft_delete_record_def res_bind_Ok)
  have "evolves st st1" using u by (auto simp: unlink_record_from_ns_def evolves_def split: if_splits)
  moreover have "grows (ks_records st1) recs"
    using d by (cases "slot (ks_records st1) i") (auto simp: pool_soft_delete_slot)
  ultimately show ?thesis using st' by (auto simp: evolves_def intro: grows_trans)
qed

lemma evolves_create_node:
  assumes run: "create_node_body i kind rec ns st = Ok st'"
  shows "evolves st st'"
proof -
  obtain j n where "link_node j ns (st\<lparr>ks_nodes := ks_nodes st @ [n]\<rparr>) = Ok st'"
    using run by (auto simp: create_node_body_def node_pool_insert_def Let_def res_bind_Ok)
  from evolves_link_node [OF this] show ?thesis
    using grows_trans [OF grows_append] by (auto simp: evolves_def)
qed

lemma evolves_create_edge:
  assumes run: "create_edge_body a b kind st = Ok st'"
  shows "evolves st st'"
proof -
  obtain na nb where "slot (ks_nodes st) a = Some na" "slot (ks_nodes st) b = Some nb"
    using run by (cases "slot (ks_nodes st) a"; cases "slot (ks_nodes st) b") (simp_all add: create_edge_body_def)
  then obtain x ns' es' where "add_edge kind a b (ks_nodes st) (ks_edges st) = Ok (x, ns', es')"
    "st' = st\<lparr>ks_nodes := ns', ks_edges := es'\<rparr>"
    using run by (auto simp: create_edge_body_def res_bind_Ok split: if_splits)
  then show ?thesis
    by (auto simp: add_edge_def edge_pool_insert_def Let_def evolves_def split: if_splits
        intro: grows_trans [OF grows_upd(1) grows_upd(1)])
qed

lemma evolves_drop_namespace:
  assumes run: "apply_drop_namespace ns st = Ok st'"
  shows "evolves st st'"
proof -
  obtain recs ix where d: "drop_records (ks_record_heads st ! unat ns) (ks_records st) (ks_index st) = Some (Ok (recs, ix))"
    using run by (auto simp: apply_drop_namespace_def res_bind_Ok of_loop_def split: if_splits option.splits)
  let ?st = "st\<lparr>ks_records := recs, ks_index := ix, ks_record_heads := (ks_record_heads st)[unat ns := NS_LIST_NIL]\<rparr>"
  obtain xs st1 where "delete_nodes xs ?st = Ok st1" and st': "\<exists>h. st' = st1\<lparr>ks_node_heads := h\<rparr>"
    using run d by (auto simp: apply_drop_namespace_def res_bind_Ok of_loop_def Let_def split: if_splits option.splits)
  then have "evolves ?st st1" by (intro evolves_delete_nodes)
  moreover have "evolves st ?st" using grows_drop_records [OF d] by (simp add: evolves_def)
  ultimately have "evolves st st1" by (rule evolves_trans [rotated])
  then show ?thesis using st' by (auto simp: evolves_def)
qed

lemma grows_shred: "grows recs (fold shred_one is recs)"
  by (auto simp: grows_def slot_shred_all)

lemma evolves_finish: "(\<And>st'. r = Ok st' \<Longrightarrow> evolves st st') \<Longrightarrow> evolves st (snd (finish st r))"
  by (cases r) (simp_all add: finish_def)

lemma evolves_dim: "evolves (st\<lparr>ks_dim := d\<rparr>) st' \<longleftrightarrow> evolves st st'"
  by (simp add: evolves_def)

lemma evolves_insert_vector: "evolves st (snd (insert_vector vec md tag ns st))"
proof (cases "ks_dim st")
  case None
  have "evolves (st\<lparr>ks_dim := Some (length vec)\<rparr>) (snd (insert_vector vec md tag ns st))"
    using None evolves_insert_body by (auto simp: insert_vector_def Let_def intro!: evolves_finish)
  then show ?thesis by (simp add: evolves_dim)
next
  case (Some d)
  then show ?thesis using evolves_insert_body by (auto simp: insert_vector_def intro!: evolves_finish)
qed

lemma evolves_update_metadata: "apply_update_metadata i md st = Ok st' \<Longrightarrow> evolves st st'"
  by (auto simp: apply_update_metadata_def pool_update_metadata_def res_bind_Ok evolves_def split: option.splits)

lemma evolves_delete_edge: "apply_delete_edge i st = Ok st' \<Longrightarrow> evolves st st'"
  by (auto simp: apply_delete_edge_def res_bind_Ok evolves_def dest: grows_delete_edge)

lemma evolves_set_meta: "apply_set_meta k v st = Ok st' \<Longrightarrow> evolves st st'"
  by (auto simp: apply_set_meta_def evolves_def)

lemma evolves_create_namespace: "apply_create_namespace ns st = Ok st' \<Longrightarrow> evolves st st'"
  by (auto simp: apply_create_namespace_def split: if_splits)

lemma evolves_shred_key: "apply_shred_key key st = Ok st' \<Longrightarrow> evolves st st'"
  by (auto simp: apply_shred_key_def Let_def evolves_def grows_shred)

lemma evolves_apply_arm: "evolves st (snd (apply_arm evt ns st))"
  by (cases evt)
    (auto intro!: evolves_finish intro: evolves_insert_vector evolves_insert_encrypted evolves_delete_record
      evolves_soft_delete_record evolves_create_node evolves_create_edge evolves_delete_node evolves_drop_namespace
      evolves_update_metadata evolves_delete_edge evolves_set_meta evolves_create_namespace evolves_shred_key
    simp: apply_insert_record_def apply_auto_insert_record_def apply_create_node_def apply_auto_create_node_def
      apply_create_edge_def apply_auto_create_edge_def split: if_splits)

section \<open>Applying one event\<close>

definition version_ok :: "KernelState \<Rightarrow> bool" where
  "version_ok st \<longleftrightarrow> version_next (ks_version st) \<noteq> None"

text \<open>The event's outcome in terms of its arm: success advances the version by one.\<close>

lemma apply_event_ns_arm:
  assumes "version_ok st" "apply_arm evt ns st = (r, st')"
  shows "apply_event_ns evt ns st = (r, if r = Ok () then st'\<lparr>ks_version := ks_version st + 1\<rparr> else st')"
proof -
  have "ks_version st' = ks_version st"
    using evolves_apply_arm [of st evt ns] assms(2) by (simp add: evolves_def)
  moreover have "version_next (ks_version st) = Some (ks_version st + 1)"
    using assms(1) by (auto simp: version_ok_def version_next_def split: if_splits)
  ultimately show ?thesis
    using assms(2) by (cases r) (simp_all add: apply_event_ns_def)
qed

lemma apply_event_ns_good:
  assumes inv: "kernel_inv st" and safe: "event_safe evt st" "version_ok st"
  shows "good (apply_event_ns evt ns st)"
proof -
  obtain r st' where arm: "apply_arm evt ns st = (r, st')" by fastforce
  have "good (r, st')" using apply_arm_good [OF inv safe(1), of ns] arm by simp
  then show ?thesis
    by (simp add: apply_event_ns_arm [OF safe(2) arm] good_def kernel_inv_version)
qed

text \<open>
  The states of a kernel: a fresh one, changed by events it is safe to apply (there is room for the
  id the event allocates, and a record is not deleted twice) and by changes of the index.
\<close>

inductive reachable :: "KernelState \<Rightarrow> bool" where
  start: "reachable (kernel_with_dim d)"
| step: "reachable st \<Longrightarrow> event_safe evt st \<Longrightarrow> version_ok st \<Longrightarrow> apply_event_ns evt ns st = (r, st') \<Longrightarrow> reachable st'"
| index: "reachable st \<Longrightarrow> reachable (set_index_kind v st)"

lemma kernel_inv_set_index_kind:
  assumes inv: "kernel_inv st"
  shows "kernel_inv (set_index_kind v st)"
proof -
  have "index_ok (ks_dim st) (index_rebuild (ks_records st) ix) (ks_records st)" for ix
    using kernel_invD(1) [OF inv]
    by (intro ai.rebuild_ok) (simp add: recs_ok_def, rule recs_ok_live(2))
  then show ?thesis using inv by (simp add: set_index_kind_def kernel_inv_def)
qed

lemma reachable_inv: "reachable st \<Longrightarrow> kernel_inv st"
proof (induction rule: reachable.induct)
  case (step st evt ns r st')
  then show ?case using apply_event_ns_good [of st evt ns] by (simp add: good_def)
qed (simp_all add: kernel_inv_with_dim kernel_inv_set_index_kind)

end
