(* ===== verification/Kernel_Spec.thy ===== *)
theory Kernel_Spec
  imports Kernel_Props
begin

text \<open>
  What the kernel promises, without slots, links and indexes: an abstract kernel of finite maps from
  ids to records, nodes and edges, the meaning of every event on it, and the proof that
  \<open>apply_event_ns\<close> implements exactly that meaning, errors included.
\<close>

section \<open>The abstract kernel\<close>

record ARecord =
  a_vector :: FxpVector
  a_metadata :: "bytes option"
  a_tag :: u64
  a_ns :: u16
  a_deleted :: bool
  a_encrypted :: bool
  a_shredded :: bool

record ANode =
  a_kind :: NodeKind
  a_record :: "RecordId option"
  a_node_ns :: u16

record AEdge =
  a_edge_kind :: EdgeKind
  a_from :: NodeId
  a_to :: NodeId

record AKernel =
  ak_dim :: "nat option"
  ak_version :: u64
  ak_record_slots :: nat
  ak_records :: "RecordId \<rightharpoonup> ARecord"
  ak_node_slots :: nat
  ak_nodes :: "NodeId \<rightharpoonup> ANode"
  ak_edge_slots :: nat
  ak_edges :: "EdgeId \<rightharpoonup> AEdge"
  ak_keys :: "KeyId \<rightharpoonup> RecordId list"
  ak_meta :: "rust_string \<rightharpoonup> rust_string"

section \<open>The meaning of events\<close>

definition a_finish :: "AKernel \<Rightarrow> AKernel kres \<Rightarrow> unit kres \<times> AKernel" where
  "a_finish a r = (case r of Ok a' \<Rightarrow> (Ok (), a') | Err e \<Rightarrow> (Err e, a) | Panic \<Rightarrow> (Panic, a) | Diverges \<Rightarrow> (Diverges, a))"

definition a_add_record :: "ARecord \<Rightarrow> AKernel \<Rightarrow> AKernel" where
  "a_add_record r a = a\<lparr>ak_records := (ak_records a)(of_nat (ak_record_slots a) \<mapsto> r),
     ak_record_slots := ak_record_slots a + 1\<rparr>"

definition a_insert :: "FxpVector \<Rightarrow> bytes option \<Rightarrow> u64 \<Rightarrow> u16 \<Rightarrow> AKernel \<Rightarrow> unit kres \<times> AKernel" where
  "a_insert vec md tag ns a =
     (if ak_dim a \<notin> {None, Some (length vec)}
      then (Err (DimensionMismatch (the (ak_dim a)) (length vec)), a)
      else let a = a\<lparr>ak_dim := Some (length vec)\<rparr> in
        if metadata_fits md
        then (Ok (), a_add_record \<lparr>a_vector = vec, a_metadata = md, a_tag = tag, a_ns = ns,
               a_deleted = False, a_encrypted = False, a_shredded = False\<rparr> a)
        else (Err MetadataTooLarge, a))"

definition a_insert_encrypted :: "RecordId \<Rightarrow> KeyId \<Rightarrow> bytes \<Rightarrow> u64 \<Rightarrow> u16 \<Rightarrow> AKernel \<Rightarrow> AKernel kres" where
  "a_insert_encrypted i key ct tag ns a =
     (if unat ns \<ge> MAX_NAMESPACES \<or> i \<noteq> of_nat (ak_record_slots a) then Err InvalidOperation
      else if length ct > MAX_METADATA_SIZE + 28 then Err MetadataTooLarge
      else case ak_dim a of
             None \<Rightarrow> Err InvalidOperation
           | Some d \<Rightarrow> Ok (a_add_record \<lparr>a_vector = replicate d 0, a_metadata = Some ct, a_tag = tag, a_ns = ns,
                 a_deleted = False, a_encrypted = True, a_shredded = False\<rparr>
               (a\<lparr>ak_keys := (ak_keys a)(key \<mapsto> (case ak_keys a key of None \<Rightarrow> [] | Some is \<Rightarrow> is) @ [i])\<rparr>)))"

definition a_update :: "(ARecord \<Rightarrow> ARecord option) \<Rightarrow> RecordId \<Rightarrow> AKernel \<Rightarrow> AKernel kres" where
  "a_update f i a =
     (case ak_records a i of None \<Rightarrow> Err NotFound | Some r \<Rightarrow> Ok (a\<lparr>ak_records := (ak_records a)(i := f r)\<rparr>))"

definition a_create_node :: "NodeKind \<Rightarrow> RecordId option \<Rightarrow> u16 \<Rightarrow> AKernel \<Rightarrow> AKernel kres" where
  "a_create_node kind rec ns a =
     (let new = a\<lparr>ak_nodes := (ak_nodes a)(of_nat (ak_node_slots a) \<mapsto> \<lparr>a_kind = kind, a_record = rec, a_node_ns = ns\<rparr>),
                  ak_node_slots := ak_node_slots a + 1\<rparr> in
      case rec of
        None \<Rightarrow> Ok new
      | Some rid \<Rightarrow> (case ak_records a rid of
           None \<Rightarrow> Err NotFound
         | Some r \<Rightarrow> if a_ns r = ns then Ok new else Err InvalidOperation))"

definition a_create_edge :: "NodeId \<Rightarrow> NodeId \<Rightarrow> EdgeKind \<Rightarrow> AKernel \<Rightarrow> AKernel kres" where
  "a_create_edge from to kind a =
     (case (ak_nodes a from, ak_nodes a to) of
        (Some f, Some t) \<Rightarrow>
          if a_node_ns f = a_node_ns t
          then Ok (a\<lparr>ak_edges := (ak_edges a)(of_nat (ak_edge_slots a) \<mapsto> \<lparr>a_edge_kind = kind, a_from = from, a_to = to\<rparr>),
                     ak_edge_slots := ak_edge_slots a + 1\<rparr>)
          else Err InvalidOperation
      | _ \<Rightarrow> Err NotFound)"

text \<open>Deleting nodes takes every edge that touches one of them along.\<close>

definition a_remove_nodes :: "NodeId set \<Rightarrow> AKernel \<Rightarrow> AKernel" where
  "a_remove_nodes X a = a\<lparr>ak_nodes := (\<lambda>i. if i \<in> X then None else ak_nodes a i),
     ak_edges := (\<lambda>x. case ak_edges a x of
        Some e \<Rightarrow> if a_from e \<in> X \<or> a_to e \<in> X then None else Some e | None \<Rightarrow> None)\<rparr>"

definition a_drop_namespace :: "u16 \<Rightarrow> AKernel \<Rightarrow> AKernel kres" where
  "a_drop_namespace ns a =
     (if unat ns = 0 \<or> unat ns \<ge> MAX_NAMESPACES then Err InvalidOperation
      else Ok (a_remove_nodes {i. \<exists>n. ak_nodes a i = Some n \<and> a_node_ns n = ns}
        (a\<lparr>ak_records := (\<lambda>i. case ak_records a i of
             Some r \<Rightarrow> if a_ns r = ns \<and> \<not> a_deleted r then None else Some r | None \<Rightarrow> None)\<rparr>)))"

definition a_shred_key :: "KeyId \<Rightarrow> AKernel \<Rightarrow> AKernel" where
  "a_shred_key key a =
     a\<lparr>ak_keys := (ak_keys a)(key := None),
       ak_records := (\<lambda>i. if \<exists>is. ak_keys a key = Some is \<and> i \<in> set is
          then map_option (\<lambda>r. r\<lparr>a_shredded := True, a_metadata := None\<rparr>) (ak_records a i)
          else ak_records a i)\<rparr>"

fun a_arm :: "KernelEvent \<Rightarrow> u16 \<Rightarrow> AKernel \<Rightarrow> unit kres \<times> AKernel" where
  "a_arm (InsertRecord i vec md tag) ns a =
     (if unat ns \<ge> MAX_NAMESPACES \<or> i \<noteq> of_nat (ak_record_slots a) then (Err InvalidOperation, a)
      else a_insert vec md tag ns a)"
| "a_arm (AutoInsertRecord vec md tag) ns a =
     (if unat ns \<ge> MAX_NAMESPACES then (Err InvalidOperation, a) else a_insert vec md tag ns a)"
| "a_arm (InsertRecordEncrypted i key ct _ tag) ns a = a_finish a (a_insert_encrypted i key ct tag ns a)"
| "a_arm (AutoInsertRecordEncrypted evt_ns key ct tag) ns a =
     a_finish a (a_insert_encrypted (of_nat (ak_record_slots a)) key ct tag evt_ns a)"
| "a_arm (DeleteRecord i) ns a = a_finish a (a_update (\<lambda>_. None) i a)"
| "a_arm (SoftDeleteRecord i) ns a = a_finish a (a_update (\<lambda>r. Some (r\<lparr>a_deleted := True\<rparr>)) i a)"
| "a_arm (UpdateRecordMetadata i md) ns a = a_finish a (a_update (\<lambda>r. Some (r\<lparr>a_metadata := md\<rparr>)) i a)"
| "a_arm (CreateNode i kind rec) ns a =
     a_finish a (if unat ns \<ge> MAX_NAMESPACES \<or> i \<noteq> of_nat (ak_node_slots a) then Err InvalidOperation
                 else a_create_node kind rec ns a)"
| "a_arm (AutoCreateNode kind rec) ns a =
     a_finish a (if unat ns \<ge> MAX_NAMESPACES then Err InvalidOperation else a_create_node kind rec ns a)"
| "a_arm (CreateEdge i from to kind) ns a =
     a_finish a (if i \<noteq> of_nat (ak_edge_slots a) then Err InvalidOperation else a_create_edge from to kind a)"
| "a_arm (AutoCreateEdge from to kind) ns a = a_finish a (a_create_edge from to kind a)"
| "a_arm (DeleteNode i) ns a =
     a_finish a (if ak_nodes a i = None then Err NotFound else Ok (a_remove_nodes {i} a))"
| "a_arm (DeleteEdge x) ns a =
     a_finish a (if ak_edges a x = None then Err NotFound else Ok (a\<lparr>ak_edges := (ak_edges a)(x := None)\<rparr>))"
| "a_arm (SetMeta key val) ns a = a_finish a (Ok (a\<lparr>ak_meta := (ak_meta a)(key \<mapsto> val)\<rparr>))"
| "a_arm (AutoCreateNamespace _) ns a = a_finish a (if unat ns \<ge> MAX_NAMESPACES then Err InvalidOperation else Ok a)"
| "a_arm (DropNamespace _) ns a = a_finish a (a_drop_namespace ns a)"
| "a_arm (ShredKey key) ns a = a_finish a (Ok (a_shred_key key a))"

definition a_apply :: "KernelEvent \<Rightarrow> u16 \<Rightarrow> AKernel \<Rightarrow> unit kres \<times> AKernel" where
  "a_apply evt ns a =
     (case a_arm evt ns a of
        (Ok _, a') \<Rightarrow> (Ok (), a'\<lparr>ak_version := ak_version a + 1\<rparr>)
      | (r, a') \<Rightarrow> (r, a'))"

section \<open>The abstraction\<close>

definition view_record :: "Record \<Rightarrow> ARecord" where
  "view_record r = \<lparr>a_vector = r_vector r, a_metadata = r_metadata r, a_tag = r_tag r, a_ns = r_namespace_id r,
     a_deleted = soft_deleted r, a_encrypted = encrypted r, a_shredded = shredded r\<rparr>"

definition view_node :: "GraphNode \<Rightarrow> ANode" where
  "view_node n = \<lparr>a_kind = n_kind n, a_record = n_record n, a_node_ns = n_namespace_id n\<rparr>"

definition view_edge :: "GraphEdge \<Rightarrow> AEdge" where
  "view_edge e = \<lparr>a_edge_kind = e_kind e, a_from = e_from e, a_to = e_to e\<rparr>"

definition view_slots :: "('a \<Rightarrow> 'b) \<Rightarrow> 'a option list \<Rightarrow> u32 \<rightharpoonup> 'b" where
  "view_slots f xs = (\<lambda>i. map_option f (slot xs i))"

definition view :: "KernelState \<Rightarrow> AKernel" where
  "view st = \<lparr>ak_dim = ks_dim st, ak_version = ks_version st,
     ak_record_slots = length (ks_records st), ak_records = view_slots view_record (ks_records st),
     ak_node_slots = length (ks_nodes st), ak_nodes = view_slots view_node (ks_nodes st),
     ak_edge_slots = length (ks_edges st), ak_edges = view_slots view_edge (ks_edges st),
     ak_keys = ks_encrypted_keys st, ak_meta = map_of (ks_meta st)\<rparr>"


lemma view_sel [simp]:
  "ak_dim (view st) = ks_dim st" "ak_version (view st) = ks_version st"
  "ak_record_slots (view st) = length (ks_records st)" "ak_records (view st) = view_slots view_record (ks_records st)"
  "ak_node_slots (view st) = length (ks_nodes st)" "ak_nodes (view st) = view_slots view_node (ks_nodes st)"
  "ak_edge_slots (view st) = length (ks_edges st)" "ak_edges (view st) = view_slots view_edge (ks_edges st)"
  "ak_keys (view st) = ks_encrypted_keys st" "ak_meta (view st) = map_of (ks_meta st)"
  by (simp_all add: view_def)

lemma view_slots_simps [simp]:
  "view_slots f (clear_slot i xs) = (view_slots f xs)(i := None)"
  "view_slots f xs i = map_option f (slot xs i)"
  by (auto simp: view_slots_def slot_simps fun_eq_iff)

lemma view_slots_eqI: "(\<And>j. map_option f (slot xs j) = map_option f (slot ys j)) \<Longrightarrow> view_slots f xs = view_slots f ys"
  by (simp add: view_slots_def)

lemma view_slots_append:
  "length xs < 2 ^ 32 \<Longrightarrow> view_slots f (xs @ [Some a]) = (view_slots f xs)(of_nat (length xs) \<mapsto> f a)"
  by (auto simp: view_slots_def slot_simps fun_eq_iff)

lemma view_record_core: "r_core r = r_core r' \<Longrightarrow> view_record r = view_record r'"
  using r_core_eqD [of r r'] by (simp add: view_record_def)

lemma view_node_info: "n_info n = n_info n' \<Longrightarrow> view_node n = view_node n'"
  by (simp add: n_info_def view_node_def)

lemma view_node_lift: "map_option n_info x = map_option n_info y \<Longrightarrow> map_option view_node x = map_option view_node y"
  by (rule map_option_lift [OF _ view_node_info])

lemma view_edge_core: "e_core e = e_core e' \<Longrightarrow> view_edge e = view_edge e'"
  using e_coreD [of e e'] by (simp add: view_edge_def)

lemma view_same_recs:
  assumes "same_recs a b"
  shows "view_slots view_record a = view_slots view_record b"
proof (rule view_slots_eqI)
  fix j
  have "map_option r_core (slot a j) = map_option r_core (slot b j)" using assms by (simp add: same_recs_def)
  then show "map_option view_record (slot a j) = map_option view_record (slot b j)"
    by (rule map_option_lift) (rule view_record_core)
qed

lemma view_infos:
  assumes "\<And>j. map_option n_info (slot a j) = map_option n_info (slot b j)"
  shows "view_slots view_node a = view_slots view_node b"
  using assms by (intro view_slots_eqI view_node_lift)

section \<open>The refinement, arm by arm\<close>

definition sim :: "unit kres \<times> KernelState \<Rightarrow> unit kres \<times> AKernel \<Rightarrow> bool" where
  "sim p q \<longleftrightarrow> (fst p, view (snd p)) = q"

lemma sim_finish:
  assumes "(\<exists>st'. r = Ok st' \<and> q = Ok (view st')) \<or> (\<exists>e. r = Err e \<and> q = Err e)"
  shows "sim (finish st r) (a_finish (view st) q)"
  using assms by (auto simp: sim_def finish_def a_finish_def)

lemma sim_finish_Ok: "r = Ok st' \<Longrightarrow> q = Ok (view st') \<Longrightarrow> sim (finish st r) (a_finish (view st) q)"
  by (intro sim_finish) simp

lemma sim_finish_Err: "r = Err e \<Longrightarrow> q = Err e \<Longrightarrow> sim (finish st r) (a_finish (view st) q)"
  by (intro sim_finish) simp

lemma view_record_new:
  "view_record (record_new i vec md tag ns) = \<lparr>a_vector = vec, a_metadata = md, a_tag = tag, a_ns = ns,
     a_deleted = False, a_encrypted = False, a_shredded = False\<rparr>"
  by (simp add: view_record_def)

lemma sim_insert:
  assumes "kernel_inv st" "length (ks_records st) < 2 ^ 32 - 1" "unat ns < MAX_NAMESPACES"
  shows "sim (insert_vector vec md tag ns st) (a_insert vec md tag ns (view st))"
  using assms
proof (cases rule: insert_vector_cases [where vec = vec and md = md and tag = tag])
  case (mismatch d)
  then show ?thesis by (simp add: sim_def a_insert_def view_def)
next
  case too_large
  then show ?thesis by (auto simp: sim_def a_insert_def view_def)
next
  case (inserted recs heads ix)
  have "view_slots view_record recs = (view_slots view_record (ks_records st))
      (of_nat (length (ks_records st)) \<mapsto> view_record (record_new (of_nat (length (ks_records st))) vec md tag ns))"
    using view_same_recs [OF inserted(4)] assms(2) by (simp add: view_slots_append)
  moreover have "length recs = Suc (length (ks_records st))"
    using same_recs_length [OF inserted(4)] by simp
  ultimately show ?thesis
    using inserted(1,2,3) by (auto simp: sim_def a_insert_def view_def a_add_record_def view_record_new)
qed

lemma sim_insert_encrypted:
  assumes inv: "kernel_inv st" and room: "length (ks_records st) < 2 ^ 32 - 1"
  shows "sim (finish st (apply_insert_encrypted i key ct tag ns st))
    (a_finish (view st) (a_insert_encrypted i key ct tag ns (view st)))"
proof (cases "unat ns < MAX_NAMESPACES \<and> i = of_nat (length (ks_records st)) \<and>
    length ct \<le> MAX_METADATA_SIZE + 28 \<and> ks_dim st \<noteq> None")
  case True
  then obtain d where d: "ks_dim st = Some d" by blast
  from True have ns: "unat ns < MAX_NAMESPACES" and i: "i = of_nat (length (ks_records st))"
    and ct: "length ct \<le> MAX_METADATA_SIZE + 28" by blast+
  obtain recs heads keys where run: "apply_insert_encrypted i key ct tag ns st
        = Ok (st\<lparr>ks_records := recs, ks_record_heads := heads, ks_encrypted_keys := keys\<rparr>)"
      and same: "same_recs recs (ks_records st @ [Some (enc_record (length (ks_records st)) d ct tag ns)])"
      and keys: "keys = (ks_encrypted_keys st)(key \<mapsto> (case ks_encrypted_keys st key of None \<Rightarrow> [] | Some is \<Rightarrow> is) @ [i])"
    using apply_insert_encrypted_ok [OF inv room ns d i ct] by blast
  have "view_slots view_record recs = (view_slots view_record (ks_records st))
      (of_nat (length (ks_records st)) \<mapsto> view_record (enc_record (length (ks_records st)) d ct tag ns))"
    using view_same_recs [OF same] room by (simp add: view_slots_append)
  moreover have "length recs = Suc (length (ks_records st))"
    using same_recs_length [OF same] by simp
  ultimately show ?thesis
    using run ns i ct d keys
    by (intro sim_finish_Ok) (auto simp: a_insert_encrypted_def view_def a_add_record_def view_record_def)
next
  case False
  then show ?thesis
    by (auto simp: apply_insert_encrypted_def a_insert_encrypted_def pool_next_id_def
        intro!: sim_finish_Err split: option.splits)
qed

lemma sim_update:
  assumes "slot (ks_records st) i = None \<Longrightarrow> r = Err NotFound"
    and "\<And>x. slot (ks_records st) i = Some x \<Longrightarrow> \<exists>recs heads ix.
      r = Ok (st\<lparr>ks_records := recs, ks_record_heads := heads, ks_index := ix\<rparr>) \<and> length recs = length (ks_records st) \<and>
      view_slots view_record recs = (view_slots view_record (ks_records st))(i := f (view_record x))"
  shows "sim (finish st r) (a_finish (view st) (a_update f i (view st)))"
proof (cases "slot (ks_records st) i")
  case None
  then show ?thesis using assms(1) by (intro sim_finish_Err) (auto simp: a_update_def view_def)
next
  case (Some x)
  then show ?thesis
    using assms(2) [OF Some] by (intro sim_finish) (auto simp: a_update_def view_def)
qed

lemma view_upd_slot:
  "slot xs i = Some x \<Longrightarrow> view_slots v (upd_slot f i xs) = (view_slots v xs)(i \<mapsto> v (f x))"
  by (auto simp: view_slots_def slot_simps fun_eq_iff)

lemma sim_delete_record:
  assumes inv: "kernel_inv st" and safe: "event_safe (DeleteRecord i) st"
  shows "sim (finish st (apply_delete_record i st)) (a_finish (view st) (a_update (\<lambda>_. None) i (view st)))"
proof (rule sim_update)
  show "apply_delete_record i st = Err NotFound" if "slot (ks_records st) i = None"
    using that by (rule apply_delete_record_none)
  fix x assume x: "slot (ks_records st) i = Some x"
  then have "\<not> soft_deleted x" using safe by simp
  from apply_delete_record_ok [OF inv x this] obtain recs heads where
    run: "apply_delete_record i st = Ok (st\<lparr>ks_records := recs, ks_record_heads := heads, ks_index := index_on_delete i (ks_index st)\<rparr>)"
    and same: "same_recs recs (clear_slot i (ks_records st))" by blast
  with view_same_recs [OF same] same_recs_length [OF same]
  show "\<exists>recs heads ix. apply_delete_record i st = Ok (st\<lparr>ks_records := recs, ks_record_heads := heads, ks_index := ix\<rparr>) \<and>
    length recs = length (ks_records st) \<and>
    view_slots view_record recs = (view_slots view_record (ks_records st))(i := None)"
    by (metis length_clear_slot view_slots_simps(1))
qed

lemma sim_soft_delete_record:
  assumes inv: "kernel_inv st" and safe: "event_safe (SoftDeleteRecord i) st"
  shows "sim (finish st (apply_soft_delete_record i st))
    (a_finish (view st) (a_update (\<lambda>r. Some (r\<lparr>a_deleted := True\<rparr>)) i (view st)))"
proof (rule sim_update)
  show "apply_soft_delete_record i st = Err NotFound" if "slot (ks_records st) i = None"
    using that by (rule apply_soft_delete_record_none)
  fix x assume x: "slot (ks_records st) i = Some x"
  let ?f = "\<lambda>r. r\<lparr>r_flags := r_flags r OR FLAG_SOFT_DELETED\<rparr>"
  from x have "\<not> soft_deleted x" using safe by simp
  from apply_soft_delete_record_ok [OF inv x this] obtain recs heads where
    run: "apply_soft_delete_record i st = Ok (st\<lparr>ks_records := recs, ks_record_heads := heads, ks_index := index_on_delete i (ks_index st)\<rparr>)"
    and same: "same_recs recs (upd_slot ?f i (ks_records st))" by blast
  have "view_record (?f x) = (view_record x)\<lparr>a_deleted := True\<rparr>"
    by (simp add: view_record_def flags_or_soft_deleted)
  then have "view_slots view_record recs = (view_slots view_record (ks_records st))(i \<mapsto> (view_record x)\<lparr>a_deleted := True\<rparr>)"
    using view_same_recs [OF same] view_upd_slot [OF x, of view_record ?f] by simp
  with run same_recs_length [OF same]
  show "\<exists>recs heads ix. apply_soft_delete_record i st = Ok (st\<lparr>ks_records := recs, ks_record_heads := heads, ks_index := ix\<rparr>) \<and>
    length recs = length (ks_records st) \<and>
    view_slots view_record recs = (view_slots view_record (ks_records st))(i := Some ((view_record x)\<lparr>a_deleted := True\<rparr>))"
    by auto
qed

lemma sim_update_metadata:
  assumes inv: "kernel_inv st"
  shows "sim (finish st (apply_update_metadata i md st))
    (a_finish (view st) (a_update (\<lambda>r. Some (r\<lparr>a_metadata := md\<rparr>)) i (view st)))"
proof (rule sim_update)
  show "apply_update_metadata i md st = Err NotFound" if "slot (ks_records st) i = None"
    using that by (simp add: apply_update_metadata_def pool_update_metadata_def)
  fix x assume x: "slot (ks_records st) i = Some x"
  let ?f = "\<lambda>r. r\<lparr>r_metadata := md\<rparr>"
  have "view_record (?f x) = (view_record x)\<lparr>a_metadata := md\<rparr>"
    by (simp add: view_record_def soft_deleted_def encrypted_def shredded_def)
  then have "view_slots view_record (upd_slot ?f i (ks_records st))
      = (view_slots view_record (ks_records st))(i \<mapsto> (view_record x)\<lparr>a_metadata := md\<rparr>)"
    using view_upd_slot [OF x, of view_record ?f] by simp
  moreover have "apply_update_metadata i md st = Ok (st\<lparr>ks_records := upd_slot ?f i (ks_records st),
      ks_record_heads := ks_record_heads st, ks_index := ks_index st\<rparr>)"
    using apply_update_metadata_ok [OF inv x, of md] by simp
  ultimately show "\<exists>recs heads ix. apply_update_metadata i md st = Ok (st\<lparr>ks_records := recs, ks_record_heads := heads, ks_index := ix\<rparr>) \<and>
    length recs = length (ks_records st) \<and>
    view_slots view_record recs = (view_slots view_record (ks_records st))(i := Some ((view_record x)\<lparr>a_metadata := md\<rparr>))"
    by (metis length_upd_slot)
qed

subsection \<open>Graph events\<close>

lemma sim_create_node:
  assumes inv: "kernel_inv st" and room: "length (ks_nodes st) < 2 ^ 32 - 1" and ns: "unat ns < MAX_NAMESPACES"
  shows "sim (finish st (create_node_body i kind rec ns st)) (a_finish (view st) (a_create_node kind rec ns (view st)))"
proof (cases "record_ref_ok st ns rec")
  case True
  let ?i = "of_nat (length (ks_nodes st)) :: u32"
  obtain nds heads where run: "create_node_body i kind rec ns st = Ok (st\<lparr>ks_nodes := nds, ks_node_heads := heads\<rparr>)"
    and info: "\<And>j. map_option n_info (slot nds j) = (if j = ?i then Some (?i, kind, rec, ns)
        else map_option n_info (slot (ks_nodes st) j))"
    and len: "length nds = Suc (length (ks_nodes st))"
    using create_node_body_ok [OF inv room ns True] by blast
  have "map_option view_node (slot nds j) = (if j = ?i then Some \<lparr>a_kind = kind, a_record = rec, a_node_ns = ns\<rparr>
      else map_option view_node (slot (ks_nodes st) j))" for j
  proof (cases "j = ?i")
    case True
    with info [of j] show ?thesis by (cases "slot nds j") (simp_all add: n_info_def view_node_def)
  next
    case False
    with info [of j] have "map_option n_info (slot nds j) = map_option n_info (slot (ks_nodes st) j)" by simp
    with False show ?thesis using view_node_lift [of "slot nds j"] by simp
  qed
  then have "view_slots view_node nds
      = (view_slots view_node (ks_nodes st))(?i \<mapsto> \<lparr>a_kind = kind, a_record = rec, a_node_ns = ns\<rparr>)"
    by (simp add: view_slots_def fun_eq_iff)
  moreover have "a_create_node kind rec ns (view st) = Ok ((view st)\<lparr>ak_nodes := (view_slots view_node (ks_nodes st))
      (?i \<mapsto> \<lparr>a_kind = kind, a_record = rec, a_node_ns = ns\<rparr>), ak_node_slots := length (ks_nodes st) + 1\<rparr>)"
    using True by (cases rec) (auto simp: a_create_node_def Let_def record_ref_ok_def view_record_def)
  ultimately show ?thesis using run len by (intro sim_finish_Ok) (auto simp: view_def)
next
  case False
  then obtain rid where rid: "rec = Some rid" by (auto simp: record_ref_ok_def)
  show ?thesis
  proof (cases "slot (ks_records st) rid")
    case None
    then show ?thesis using rid by (intro sim_finish_Err) (simp_all add: create_node_body_def a_create_node_def)
  next
    case (Some r)
    then have "r_namespace_id r \<noteq> ns" using False rid by (auto simp: record_ref_ok_def)
    then show ?thesis
      using rid Some by (intro sim_finish_Err) (simp_all add: create_node_body_def a_create_node_def view_record_def)
  qed
qed

lemma sim_create_edge:
  assumes inv: "kernel_inv st" and room: "length (ks_edges st) < 2 ^ 32"
  shows "sim (finish st (create_edge_body a b kind st)) (a_finish (view st) (a_create_edge a b kind (view st)))"
proof (cases "slot (ks_nodes st) a")
  case None
  then show ?thesis by (intro sim_finish_Err) (simp_all add: create_edge_body_def a_create_edge_def)
next
  case a: (Some na)
  show ?thesis
  proof (cases "slot (ks_nodes st) b")
    case None
    then show ?thesis using a by (intro sim_finish_Err) (simp_all add: create_edge_body_def a_create_edge_def)
  next
    case b: (Some nb)
    show ?thesis
    proof (cases "n_namespace_id na = n_namespace_id nb")
      case True
      obtain nds e where run: "create_edge_body a b kind st = Ok (st\<lparr>ks_nodes := nds, ks_edges := ks_edges st @ [Some e]\<rparr>)"
        and same: "same_nodes nds (ks_nodes st)"
        and e: "e_core e = e_core (edge_new (of_nat (length (ks_edges st))) kind a b)"
        using create_edge_body_ok [OF inv room a b True] by blast
      have "view_slots view_node nds = view_slots view_node (ks_nodes st)"
        by (rule view_infos) (rule same_nodes_info [OF same])
      moreover have "view_edge e = \<lparr>a_edge_kind = kind, a_from = a, a_to = b\<rparr>"
        using view_edge_core [OF e] by (simp add: view_edge_def edge_new_def)
      ultimately show ?thesis using run True a b room same
        by (intro sim_finish_Ok)
          (auto simp: a_create_edge_def view_def view_slots_append view_node_def same_nodes_def)
    next
      case False
      then show ?thesis using a b
        by (intro sim_finish_Err) (simp_all add: create_edge_body_def a_create_edge_def view_node_def)
    qed
  qed
qed

lemma view_edges_minus:
  assumes "edges_minus X es' es"
  shows "view_slots view_edge es' = (\<lambda>x. if x \<in> X then None else view_slots view_edge es x)"
proof
  fix x
  have "map_option e_core (slot es' x) = (if x \<in> X then None else map_option e_core (slot es x))"
    using assms by (simp add: edges_minus_def)
  then show "view_slots view_edge es' x = (if x \<in> X then None else view_slots view_edge es x)"
    using map_option_lift [OF _ view_edge_core] by (auto split: if_splits)
qed

lemma sim_delete_edge:
  assumes inv: "kernel_inv st"
  shows "sim (finish st (apply_delete_edge x st)) (a_finish (view st)
    (if ak_edges (view st) x = None then Err NotFound else Ok ((view st)\<lparr>ak_edges := (ak_edges (view st))(x := None)\<rparr>)))"
proof (cases "slot (ks_edges st) x")
  case None
  then show ?thesis by (intro sim_finish_Err) (simp_all add: apply_delete_edge_def delete_edge_def)
next
  case (Some e)
  obtain nds es where run: "apply_delete_edge x st = Ok (st\<lparr>ks_nodes := nds, ks_edges := es\<rparr>)"
    and same: "same_nodes nds (ks_nodes st)" and minus: "edges_minus {x} es (ks_edges st)"
    using apply_delete_edge_ok [OF inv Some] by blast
  have "view_slots view_node nds = view_slots view_node (ks_nodes st)"
    by (rule view_infos) (rule same_nodes_info [OF same])
  moreover have "view_slots view_edge es = (view_slots view_edge (ks_edges st))(x := None)"
    using view_edges_minus [OF minus] by (auto simp: fun_eq_iff)
  moreover have "length nds = length (ks_nodes st)" "length es = length (ks_edges st)"
    using same minus by (simp_all add: same_nodes_def edges_minus_def)
  ultimately show ?thesis using Some by (intro sim_finish_Ok [OF run]) (simp add: view_def)
qed

text \<open>Removing nodes, for one node and for a namespace.\<close>

lemma view_remove_nodes:
  assumes nodes: "\<And>j. map_option n_info (slot nds j) = (if j \<in> X then None else map_option n_info (slot (ks_nodes st) j))"
    and edges: "edges_minus (\<Union>i \<in> X. incident (ks_edges st) i) es (ks_edges st)"
    and len: "length nds = length (ks_nodes st)"
    and st': "st' = st\<lparr>ks_nodes := nds, ks_edges := es, ks_node_heads := heads\<rparr>"
  shows "view st' = a_remove_nodes X (view st)"
proof -
  have nodes': "map_option view_node (slot nds i) = (if i \<in> X then None else map_option view_node (slot (ks_nodes st) i))" for i
    using nodes [of i] view_node_lift [of "slot nds i" "slot (ks_nodes st) i"] by (auto split: if_splits)
  have edges': "map_option view_edge (slot es x) = (case slot (ks_edges st) x of
      Some e \<Rightarrow> if e_from e \<in> X \<or> e_to e \<in> X then None else Some (view_edge e) | None \<Rightarrow> None)" for x
    using fun_cong [OF view_edges_minus [OF edges], of x]
    by (auto simp: incident_def owned_def split: option.splits if_splits)
  have "length es = length (ks_edges st)" using edges by (simp add: edges_minus_def)
  then show ?thesis
    by (intro AKernel.equality ext)
      (simp_all add: a_remove_nodes_def st' len nodes' edges', auto simp: view_edge_def split: option.splits)
qed

lemma sim_delete_node:
  assumes inv: "kernel_inv st"
  shows "sim (finish st (delete_node i st)) (a_finish (view st)
    (if ak_nodes (view st) i = None then Err NotFound else Ok (a_remove_nodes {i} (view st))))"
proof (cases "slot (ks_nodes st) i")
  case None
  then show ?thesis by (intro sim_finish_Err) (simp_all add: delete_node_def)
next
  case (Some n)
  obtain nds es heads where run: "delete_node i st = Ok (st\<lparr>ks_nodes := nds, ks_edges := es, ks_node_heads := heads\<rparr>)"
    and nodes: "\<forall>j. map_option n_info (slot nds j) = (if j = i then None else map_option n_info (slot (ks_nodes st) j))"
    and len: "length nds = length (ks_nodes st)" and edges: "edges_minus (incident (ks_edges st) i) es (ks_edges st)"
    using delete_node_ok [OF inv Some] by blast
  have "view (st\<lparr>ks_nodes := nds, ks_edges := es, ks_node_heads := heads\<rparr>) = a_remove_nodes {i} (view st)"
    using nodes edges len by (intro view_remove_nodes [OF _ _ _ refl]) simp_all
  then show ?thesis using Some by (intro sim_finish_Ok [OF run]) simp
qed

lemma sim_drop_namespace:
  assumes inv: "kernel_inv st"
  shows "sim (finish st (apply_drop_namespace ns st)) (a_finish (view st) (a_drop_namespace ns (view st)))"
proof (cases "unat ns = 0 \<or> unat ns \<ge> MAX_NAMESPACES")
  case True
  then show ?thesis by (intro sim_finish_Err) (auto simp: apply_drop_namespace_def a_drop_namespace_def)
next
  case False
  then obtain st' where run: "apply_drop_namespace ns st = Ok st'"
    and recs: "\<forall>j. slot (ks_records st') j = (if j \<in> rec_members (ks_records st) (unat ns) then None else slot (ks_records st) j)"
    and nodes: "\<forall>j. map_option n_info (slot (ks_nodes st') j)
       = (if j \<in> node_members (ks_nodes st) (unat ns) then None else map_option n_info (slot (ks_nodes st) j))"
    and edges: "edges_minus (\<Union>i \<in> node_members (ks_nodes st) (unat ns). incident (ks_edges st) i) (ks_edges st') (ks_edges st)"
    and rest: "ks_dim st' = ks_dim st" "ks_version st' = ks_version st" "ks_meta st' = ks_meta st"
      "ks_encrypted_keys st' = ks_encrypted_keys st" "length (ks_records st') = length (ks_records st)"
      "length (ks_nodes st') = length (ks_nodes st)"
    using apply_drop_namespace_ok [OF inv] by (metis linorder_not_le)
  let ?mid = "st'\<lparr>ks_nodes := ks_nodes st, ks_edges := ks_edges st\<rparr>"
  have mem: "node_members (ks_nodes st) (unat ns) = {i. \<exists>n. ak_nodes (view st) i = Some n \<and> a_node_ns n = ns}"
    by (auto simp: node_members_def view_node_def word_unat_eq_iff)
  have "view_slots view_record (ks_records st') i = (case ak_records (view st) i of
      Some r \<Rightarrow> if a_ns r = ns \<and> \<not> a_deleted r then None else Some r | None \<Rightarrow> None)" for i
    using recs by (auto simp: rec_members_def view_record_def word_unat_eq_iff split: option.splits)
  then have mid: "view ?mid = (view st)\<lparr>ak_records := (\<lambda>i. case ak_records (view st) i of
      Some r \<Rightarrow> if a_ns r = ns \<and> \<not> a_deleted r then None else Some r | None \<Rightarrow> None)\<rparr>"
    using rest by (intro AKernel.equality ext) simp_all
  have "view st' = a_remove_nodes (node_members (ks_nodes st) (unat ns)) (view ?mid)"
    using nodes edges rest by (intro view_remove_nodes [where nds = "ks_nodes st'" and es = "ks_edges st'" and heads = "ks_node_heads st'"]) simp_all
  then show ?thesis
    using False by (intro sim_finish_Ok [OF run]) (simp add: a_drop_namespace_def mid mem)
qed

lemma sim_shred_key:
  assumes inv: "kernel_inv st"
  shows "sim (finish st (apply_shred_key key st)) (a_finish (view st) (Ok (a_shred_key key (view st))))"
proof -
  define is' where "is' = (case ks_encrypted_keys st key of None \<Rightarrow> [] | Some is \<Rightarrow> is)"
  have run: "apply_shred_key key st = Ok (st\<lparr>ks_records := fold shred_one is' (ks_records st),
      ks_encrypted_keys := (ks_encrypted_keys st)(key := None)\<rparr>)"
    by (rule apply_shred_key_ok(1) [OF inv is'_def])
  have shred: "view_record (shred r) = (view_record r)\<lparr>a_shredded := True, a_metadata := None\<rparr>" for r
    by (simp add: view_record_def) (simp add: shred_def)
  have "i \<in> set is' \<longleftrightarrow> (\<exists>is. ks_encrypted_keys st key = Some is \<and> i \<in> set is)" for i
    by (cases "ks_encrypted_keys st key") (auto simp: is'_def)
  then have "view (st\<lparr>ks_records := fold shred_one is' (ks_records st), ks_encrypted_keys := (ks_encrypted_keys st)(key := None)\<rparr>)
      = a_shred_key key (view st)"
    by (intro AKernel.equality ext)
      (simp_all add: a_shred_key_def slot_shred_all option.map_comp comp_def shred, auto)
  then show ?thesis by (intro sim_finish_Ok [OF run]) simp
qed

section \<open>The refinement\<close>

lemma sim_arm:
  assumes inv: "kernel_inv st" and safe: "event_safe evt st"
  shows "sim (apply_arm evt ns st) (a_arm evt ns (view st))"
proof (cases evt)
  case (InsertRecord i vec md tag)
  then show ?thesis using sim_insert [OF inv, of ns vec md tag] safe
    by (auto simp: apply_insert_record_def pool_next_id_def sim_def)
next
  case (AutoInsertRecord vec md tag)
  then show ?thesis using sim_insert [OF inv, of ns vec md tag] safe
    by (auto simp: apply_auto_insert_record_def sim_def)
next
  case (CreateNode i kind rec)
  show ?thesis
  proof (cases "unat ns \<ge> MAX_NAMESPACES \<or> i \<noteq> of_nat (length (ks_nodes st))")
    case True
    then show ?thesis using CreateNode
      by (simp, intro sim_finish_Err) (auto simp: apply_create_node_def next_node_id_def)
  next
    case False
    then show ?thesis using CreateNode sim_create_node [OF inv] safe
      by (simp add: apply_create_node_def next_node_id_def not_le)
  qed
next
  case (AutoCreateNode kind rec)
  show ?thesis
  proof (cases "unat ns \<ge> MAX_NAMESPACES")
    case True
    then show ?thesis using AutoCreateNode by (simp, intro sim_finish_Err) (simp_all add: apply_auto_create_node_def)
  next
    case False
    then show ?thesis using AutoCreateNode sim_create_node [OF inv] safe by (simp add: apply_auto_create_node_def not_le)
  qed
next
  case (CreateEdge i a b kind)
  show ?thesis
  proof (cases "i = of_nat (length (ks_edges st))")
    case True
    then show ?thesis using CreateEdge sim_create_edge [OF inv] safe by (simp add: apply_create_edge_def next_edge_id_def)
  next
    case False
    then show ?thesis using CreateEdge by (simp, intro sim_finish_Err) (simp_all add: apply_create_edge_def next_edge_id_def)
  qed
next
  case (SetMeta key val)
  let ?st = "st\<lparr>ks_meta := btree_insert key val (ks_meta st)\<rparr>"
  have "view ?st = (view st)\<lparr>ak_meta := (ak_meta (view st))(key \<mapsto> val)\<rparr>"
    by (intro AKernel.equality) (simp_all add: map_of_btree_insert [OF kernel_invD(8) [OF inv]])
  then show ?thesis unfolding SetMeta apply_arm.simps a_arm.simps
    by (intro sim_finish_Ok [of _ ?st]) (simp_all add: apply_set_meta_def)
next
  case (AutoCreateNamespace nm)
  then show ?thesis unfolding AutoCreateNamespace apply_arm.simps a_arm.simps
    by (intro sim_finish) (simp add: apply_create_namespace_def)
next
  case (AutoInsertRecordEncrypted evt_ns key ct tag)
  then show ?thesis using sim_insert_encrypted [OF inv] safe by (simp add: next_record_id_def)
qed (use inv safe sim_insert_encrypted sim_delete_record sim_soft_delete_record sim_update_metadata sim_create_edge
      sim_delete_edge sim_delete_node sim_drop_namespace sim_shred_key
     in \<open>simp_all add: apply_auto_create_edge_def\<close>)

lemma sim_event:
  assumes "kernel_inv st" "event_safe evt st" "version_ok st"
  shows "sim (apply_event_ns evt ns st) (a_apply evt ns (view st))"
proof -
  obtain r st' where arm: "apply_arm evt ns st = (r, st')" by fastforce
  have sim: "a_arm evt ns (view st) = (r, view st')"
    using sim_arm [OF assms(1,2), of ns] arm by (simp add: sim_def)
  have ver: "view (st'\<lparr>ks_version := v\<rparr>) = (view st')\<lparr>ak_version := v\<rparr>" for v
    by (intro AKernel.equality) simp_all
  show ?thesis
    by (cases r) (simp_all add: sim_def apply_event_ns_arm [OF assms(3) arm] a_apply_def sim ver)
qed

end
