(* ===== verification/Kernel_Search.thy ===== *)
theory Kernel_Search
  imports Kernel_Steps
begin

text \<open>
  The searches of the kernel return exactly the nearest records: the walk along a namespace's list
  (\<open>search_l2_ns\<close>) and the search through the active index (\<open>search_l2\<close>).
\<close>

section \<open>Namespace search\<close>

definition active_in :: "u16 \<Rightarrow> Record \<Rightarrow> bool" where
  "active_in ns r \<longleftrightarrow> is_active r \<and> r_namespace_id r = ns"

definition active_slot :: "RecordPool \<Rightarrow> RecordId \<Rightarrow> Record option" where
  "active_slot recs i = (case slot recs i of Some r \<Rightarrow> if is_active r then Some r else None | None \<Rightarrow> None)"

lemma ns_search_loop_dll:
  assumes "dseg (rec_ptrs recs) p c xs NS_LIST_NIL" "pool_ids recs"
  shows "ns_search_loop c cpu recs query k b
    = Some (fold (offer shift_in k) (map (candidate cpu query) (List.map_filter (active_slot recs) xs)) b)"
  using assms(1)
proof (induction xs arbitrary: p c b)
  case Nil
  then show ?case by (simp add: ns_search_loop.simps map_filter_simps)
next
  case (Cons x xs)
  then obtain n where x: "c = x" "x \<noteq> NS_LIST_NIL" "rec_ptrs recs x = Some (n, p)"
    and tl: "dseg (rec_ptrs recs) x n xs NS_LIST_NIL" by auto
  then obtain r where r: "slot recs x = Some r" "r_next_in_ns r = n" by (auto simp: ptrs_def)
  have id: "r_id r = x" using assms(2) r(1) by (simp add: pool_ids_def)
  show ?case
  proof (cases "is_active r")
    case True
    then have "candidate cpu query r = SearchResult (fxp_l2_sq cpu (r_vector r) query) x"
      by (simp add: candidate_def id)
    moreover have "active_slot recs x = Some r" using True r by (simp add: active_slot_def)
    ultimately show ?thesis
      using x r Cons.IH [OF tl] True by (subst ns_search_loop.simps) (simp add: map_filter_simps)
  next
    case False
    then have "active_slot recs x = None" using r by (simp add: active_slot_def)
    with False show ?thesis
      using x r Cons.IH [OF tl] by (subst ns_search_loop.simps) (simp add: map_filter_simps)
  qed
qed

lemma set_map_filter: "set (List.map_filter f xs) = {y. \<exists>x \<in> set xs. f x = Some y}"
  by (induction xs) (auto simp: map_filter_simps split: option.splits)

lemma distinct_map_filter_slots:
  assumes "distinct xs" "\<And>x y. x \<in> set xs \<Longrightarrow> f x = Some y \<Longrightarrow> g y = x"
  shows "distinct (List.map_filter f xs)"
  using assms
proof (induction xs)
  case (Cons x xs)
  show ?case
  proof (cases "f x")
    case (Some y)
    have "y \<notin> set (List.map_filter f xs)"
    proof
      assume "y \<in> set (List.map_filter f xs)"
      then obtain x' where x': "x' \<in> set xs" "f x' = Some y" by (auto simp: set_map_filter)
      then have "x' = x" using Cons.prems(2) [of x y] Cons.prems(2) [of x' y] Some by auto
      then show False using x' Cons.prems(1) by simp
    qed
    then show ?thesis using Cons Some by (simp add: map_filter_simps)
  qed (use Cons in \<open>simp add: map_filter_simps\<close>)
qed (simp add: map_filter_simps)

lemma namespace_records:
  assumes ids: "pool_ids recs"
    and xs: "distinct xs" "\<And>r. is_active r \<Longrightarrow> r_namespace_id r = ns \<Longrightarrow> slot recs (r_id r) = Some r \<Longrightarrow> r_id r \<in> set xs"
      "\<And>i r. i \<in> set xs \<Longrightarrow> slot recs i = Some r \<Longrightarrow> r_namespace_id r = ns"
  shows "mset (List.map_filter (active_slot recs) xs) = mset (filter (active_in ns) (live recs))"
proof -
  have "distinct (List.map_filter (active_slot recs) xs)"
    using xs(1)
  proof (rule distinct_map_filter_slots)
    show "r_id y = x" if "active_slot recs x = Some y" for x y
      using that ids by (auto simp: active_slot_def pool_ids_def split: option.splits if_splits)
  qed
  moreover have "distinct (filter (active_in ns) (live recs))"
    using pool_ids_distinct [OF ids] by (simp add: distinct_map)
  moreover have "set (List.map_filter (active_slot recs) xs) = set (filter (active_in ns) (live recs))"
  proof (rule set_eqI)
    fix r
    have "r \<in> set (List.map_filter (active_slot recs) xs) \<longleftrightarrow>
        (\<exists>i. i \<in> set xs \<and> slot recs i = Some r \<and> is_active r)"
      by (auto simp: set_map_filter active_slot_def split: option.splits if_splits)
    also have "\<dots> \<longleftrightarrow> slot recs (r_id r) = Some r \<and> active_in ns r"
    proof
      assume "\<exists>i. i \<in> set xs \<and> slot recs i = Some r \<and> is_active r"
      then obtain i where i: "i \<in> set xs" "slot recs i = Some r" "is_active r" by blast
      then have "r_id r = i" using ids by (simp add: pool_ids_def)
      with i xs(3) [OF i(1,2)] show "slot recs (r_id r) = Some r \<and> active_in ns r"
        by (simp add: active_in_def)
    next
      assume "slot recs (r_id r) = Some r \<and> active_in ns r"
      then show "\<exists>i. i \<in> set xs \<and> slot recs i = Some r \<and> is_active r"
        using xs(2) by (auto simp: active_in_def)
    qed
    finally show "r \<in> set (List.map_filter (active_slot recs) xs) \<longleftrightarrow> r \<in> set (filter (active_in ns) (live recs))"
      using pool_ids_live [OF ids] by auto
  qed
  ultimately show ?thesis using set_eq_iff_mset_eq_distinct by blast
qed

text \<open>
  Any list of the namespace's records that contains the active ones gives the exact answer, whatever
  its order and whichever tombstones it also contains.
\<close>

lemma search_l2_ns_list:
  assumes ids: "pool_ids (ks_records st)" and ns: "unat ns < MAX_NAMESPACES" "unat ns < length (ks_record_heads st)"
    and xs: "distinct xs" "dll (rec_ptrs (ks_records st)) (ks_record_heads st ! unat ns) xs"
      "\<And>r. is_active r \<Longrightarrow> r_namespace_id r = ns \<Longrightarrow> slot (ks_records st) (r_id r) = Some r \<Longrightarrow> r_id r \<in> set xs"
      "\<And>i r. i \<in> set xs \<Longrightarrow> slot (ks_records st) i = Some r \<Longrightarrow> r_namespace_id r = ns"
  shows "search_l2_ns cpu st query results ns
    = Ok (answer (candidates cpu query (active_in ns) (ks_records st)) (replicate (length results) sr_worst))"
proof (cases "results = []")
  case True
  then show ?thesis using ns by (simp add: search_l2_ns_def answer_def topk_def)
next
  case False
  let ?k = "length results" and ?buf = "replicate (length results) sr_worst"
  let ?cs = "map (candidate cpu query) (List.map_filter (active_slot (ks_records st)) xs)"
  have "mset ?cs = mset (candidates cpu query (active_in ns) (ks_records st))"
    by (simp only: candidates_def mset_map namespace_records [OF ids xs(1,3,4)])
  then have "answer ?cs ?buf = answer (candidates cpu query (active_in ns) (ks_records st)) ?buf"
    by (rule answer_mset)
  moreover have "fold (offer shift_in ?k) ?cs (0, ?buf) = answer ?cs ?buf"
    using False by (subst sh.offers_topk) (auto simp: answer_def)
  ultimately show ?thesis
    using False ns ns_search_loop_dll [OF xs(2) ids, of cpu query ?k "(0, ?buf)"]
    by (simp add: search_l2_ns_def Let_def of_loop_def not_le)
qed

lemma search_l2_ns_answer:
  assumes inv: "kernel_inv st" and ns: "unat ns < MAX_NAMESPACES"
  shows "search_l2_ns cpu st query results ns
    = Ok (answer (candidates cpu query (active_in ns) (ks_records st)) (replicate (length results) sr_worst))"
proof -
  note R = kernel_invD(1) [OF inv]
  obtain xs where xs: "distinct xs" "dll (rec_ptrs (ks_records st)) (ks_record_heads st ! unat ns) xs"
    "set xs = rec_members (ks_records st) (unat ns)"
    using ns_listsE [OF recs_ok_lists [OF R] ns] .
  show ?thesis
  proof (rule search_l2_ns_list [OF recs_ok_pool_ids [OF R] ns _ xs(1,2)])
    show "unat ns < length (ks_record_heads st)" using ns ns_lists_length [OF recs_ok_lists [OF R]] by simp
    show "r_id r \<in> set xs" if "is_active r" "r_namespace_id r = ns" "slot (ks_records st) (r_id r) = Some r" for r
      using that xs(3) by (auto simp: rec_members_def is_active_iff)
    show "r_namespace_id r = ns" if "i \<in> set xs" "slot (ks_records st) i = Some r" for i r
      using that xs(3) by (auto simp: rec_members_def word_unat_eq_iff)
  qed
qed

end
