(* ===== verification/Kernel_Demo.thy ===== *)
theory Kernel_Demo
  imports Kernel_Spec Kernel_Search
begin

text \<open>
  Sequences of events, and sample kernels on which the theorems are instantiated: a run of six events
  in two namespaces and the state it leaves, written out.
\<close>

section \<open>Runs\<close>

type_synonym ns_event = "u16 \<times> KernelEvent"

definition run_event :: "ns_event \<Rightarrow> KernelState \<Rightarrow> KernelState" where
  "run_event p st = snd (apply_event_ns (snd p) (fst p) st)"

definition run :: "ns_event list \<Rightarrow> KernelState \<Rightarrow> KernelState" where
  "run evs st = fold run_event evs st"

fun safe_run :: "ns_event list \<Rightarrow> KernelState \<Rightarrow> bool" where
  "safe_run [] st \<longleftrightarrow> True"
| "safe_run (p # evs) st \<longleftrightarrow> event_safe (snd p) st \<and> version_ok st \<and> safe_run evs (run_event p st)"

lemma safe_run_reachable: "reachable st \<Longrightarrow> safe_run evs st \<Longrightarrow> reachable (run evs st)"
proof (induction evs arbitrary: st)
  case (Cons p evs)
  have "apply_event_ns (snd p) (fst p) st = (fst (apply_event_ns (snd p) (fst p) st), run_event p st)"
    by (simp add: run_event_def)
  then have "reachable (run_event p st)" using Cons.prems by (auto intro: reachable.step)
  then show ?case using Cons by (simp add: run_def)
qed (simp add: run_def)

lemma kernel_new_reachable: "reachable kernel_new"
  using reachable.start [of 0] by (simp add: kernel_with_dim_def)

text \<open>Evaluating events on concrete states; the list heads stay symbolic.\<close>

lemma max_ns_compare: "MAX_NAMESPACES \<le> n \<longleftrightarrow> 1024 \<le> n" "n < MAX_NAMESPACES \<longleftrightarrow> n < 1024"
  "MAX_NAMESPACES \<noteq> 0"
  by (simp_all add: MAX_NAMESPACES_def)

lemmas kernel_eval =
  apply_event_ns_def apply_insert_record_def apply_auto_insert_record_def insert_vector_def insert_body_def
  finish_def pool_insert_def link_record_def link_node_def link_front_def slot_def upd_slot_def clear_slot_def
  record_new_def index_default_def kernel_new_def version_next_def version_ok_def max_ns_compare
  MAX_METADATA_SIZE_def NS_LIST_NIL_def set_r_next_def set_r_prev_def graph_setters node_new_def edge_new_def
  apply_auto_create_node_def create_node_body_def node_pool_insert_def edge_pool_insert_def next_node_id_def
  apply_auto_create_edge_def create_edge_body_def add_edge_def apply_insert_encrypted_def
  pool_mark_encrypted_def next_record_id_def pool_next_id_def flag_defs apply_soft_delete_record_def
  unlink_record_from_ns_def unlink_slots_def pool_soft_delete_def run_event_def run_def

section \<open>A kernel with two namespaces\<close>

definition demo_key :: KeyId where "demo_key = replicate 16 5"

definition demo_events :: "ns_event list" where
  "demo_events =
     [(1, AutoInsertRecord [65536, 0] (Some [1, 2]) 7),
      (1, AutoInsertRecord [0, 65536] None 8),
      (1, AutoCreateNode NK_Record (Some 0)),
      (1, AutoCreateNode NK_Concept None),
      (1, AutoCreateEdge 0 1 EK_Relation),
      (2, AutoInsertRecordEncrypted 2 demo_key [9] 3)]"

definition demo :: KernelState where
  "demo =
     \<lparr>ks_dim = Some 2, ks_version = 6,
      ks_records =
        [Some \<lparr>r_id = 0, r_vector = [65536, 0], r_metadata = Some [1, 2], r_tag = 7, r_flags = 0,
               r_namespace_id = 1, r_next_in_ns = NS_LIST_NIL, r_prev_in_ns = 1\<rparr>,
         Some \<lparr>r_id = 1, r_vector = [0, 65536], r_metadata = None, r_tag = 8, r_flags = 0,
               r_namespace_id = 1, r_next_in_ns = 0, r_prev_in_ns = NS_LIST_NIL\<rparr>,
         Some \<lparr>r_id = 2, r_vector = [0, 0], r_metadata = Some [9], r_tag = 3, r_flags = FLAG_ENCRYPTED,
               r_namespace_id = 2, r_next_in_ns = NS_LIST_NIL, r_prev_in_ns = NS_LIST_NIL\<rparr>],
      ks_nodes =
        [Some \<lparr>n_id = 0, n_kind = NK_Record, n_record = Some 0, n_first_out = Some 0, n_first_in = None,
               n_namespace_id = 1, n_next_in_ns = NS_LIST_NIL, n_prev_in_ns = 1\<rparr>,
         Some \<lparr>n_id = 1, n_kind = NK_Concept, n_record = None, n_first_out = None, n_first_in = Some 0,
               n_namespace_id = 1, n_next_in_ns = 0, n_prev_in_ns = NS_LIST_NIL\<rparr>],
      ks_edges =
        [Some \<lparr>e_id = 0, e_kind = EK_Relation, e_from = 0, e_to = 1, e_next_out = None, e_next_in = None\<rparr>],
      ks_index = BruteForce,
      ks_record_heads = (replicate MAX_NAMESPACES NS_LIST_NIL)[1 := 1, 2 := 2],
      ks_encrypted_keys = [demo_key \<mapsto> [2]],
      ks_node_heads = (replicate MAX_NAMESPACES NS_LIST_NIL)[1 := 1],
      ks_meta = []\<rparr>"

lemma demo_run: "run demo_events kernel_new = demo"
  by (simp add: demo_events_def demo_def kernel_eval)

lemma demo_safe: "safe_run demo_events kernel_new"
  by (simp add: demo_events_def kernel_eval)

lemma demo_reachable: "reachable demo"
  using safe_run_reachable [OF kernel_new_reachable demo_safe] by (simp add: demo_run)

lemma demo_inv: "kernel_inv demo"
  by (rule reachable_inv [OF demo_reachable])

end
