(* ===== verification/Kernel_Rebuild.thy ===== *)
theory Kernel_Rebuild
  imports Kernel_Search Kernel_Props
begin

text \<open>
  The reads and checks that walk the pools: the edge iterators, \<open>check_invariants\<close>, and
  \<open>rebuild_namespace_lists\<close>, which a snapshot restore uses to link the lists anew.
\<close>

section \<open>Edge iterators\<close>

lemma run_edge_iter_chain:
  "chain (nexts nxt es) c xs \<Longrightarrow> run_edge_iter c nxt es acc = Some (acc @ map (\<lambda>x. the (slot es x)) xs)"
proof (induction xs arbitrary: acc c)
  case Nil
  then show ?case by (simp add: run_edge_iter.simps edge_iter_next_def)
next
  case (Cons x xs)
  then obtain n where c: "c = Some x" "nexts nxt es x = Some n" "chain (nexts nxt es) n xs" by auto
  then obtain e where "slot es x = Some e" "nxt e = n" by (auto simp: nexts_def)
  with c Cons.IH [of n "acc @ [e]"] show ?case
    by (subst run_edge_iter.simps) (simp add: edge_iter_next_def)
qed

lemma run_edge_iter_owned:
  assumes adj: "adj own nxt first {} nds es" and n: "slot nds i = Some n"
    and ids: "\<And>x e. slot es x = Some e \<Longrightarrow> e_id e = x"
  shows "\<exists>out. run_edge_iter (first n) nxt es [] = Some out \<and> distinct out \<and>
    set out = {e. slot es (e_id e) = Some e \<and> own e = i}"
proof -
  obtain xs where xs: "distinct xs" "chain (nexts nxt es) (first n) xs" "set xs = owned own es i"
    using adjE [OF adj n] by auto
  let ?out = "map (\<lambda>x. the (slot es x)) xs"
  have live: "\<exists>e. slot es x = Some e \<and> e_id e = x \<and> own e = i" if "x \<in> set xs" for x
    using that xs(3) ids by (auto simp: owned_def)
  have "inj_on (\<lambda>x. the (slot es x)) (set xs)"
    by (rule inj_onI) (metis live option.sel)
  then have "distinct ?out" using xs(1) by (simp add: distinct_map)
  moreover have "set ?out = {e. slot es (e_id e) = Some e \<and> own e = i}"
  proof (intro set_eqI iffI)
    fix e assume "e \<in> set ?out"
    then show "e \<in> {e. slot es (e_id e) = Some e \<and> own e = i}" using live by fastforce
  next
    fix e assume "e \<in> {e. slot es (e_id e) = Some e \<and> own e = i}"
    then have e: "slot es (e_id e) = Some e" "own e = i" by simp_all
    then have "e_id e \<in> set xs" using xs(3) by (auto simp: owned_def)
    then show "e \<in> set ?out" using e by force
  qed
  ultimately show ?thesis using run_edge_iter_chain [OF xs(2), of "[]"] by auto
qed

section \<open>The checker\<close>

lemma chain_next: "chain h c xs \<Longrightarrow> x \<in> set xs \<Longrightarrow> h x = Some (Some y) \<Longrightarrow> y \<in> set xs"
proof (induction xs arbitrary: c)
  case (Cons z xs)
  then obtain n where n: "h z = Some n" "chain h n xs" by auto
  show ?case
  proof (cases "x = z")
    case True
    then have "chain h (Some y) xs" using n Cons.prems(3) by simp
    then show ?thesis by (cases xs) simp_all
  next
    case False
    then show ?thesis using Cons.IH [OF n(2)] Cons.prems by simp
  qed
qed simp

lemma adj_first:
  assumes "adj own nxt first {} nds es" "slot nds i = Some n" "first n = Some x"
  obtains e where "slot es x = Some e" "own e = i"
proof -
  obtain xs where xs: "chain (nexts nxt es) (first n) xs" "set xs = owned own es i"
    by (rule adjE [OF assms(1,2)]) simp
  have "x \<in> set xs" using xs(1) assms(3) by (cases xs) simp_all
  then show thesis using that xs(2) by (auto simp: owned_def)
qed

lemma adj_next:
  assumes "adj own nxt first {} nds es" "slot es x = Some e" "slot nds (own e) \<noteq> None" "nxt e = Some y"
  obtains e' where "slot es y = Some e'" "own e' = own e"
proof -
  obtain n where n: "slot nds (own e) = Some n" using assms(3) by blast
  obtain xs where xs: "chain (nexts nxt es) (first n) xs" "set xs = owned own es (own e)"
    by (rule adjE [OF assms(1) n]) simp
  moreover have "x \<in> set xs" using xs(2) assms(2) by (auto simp: owned_def)
  moreover have "nexts nxt es x = Some (Some y)" using assms(2,4) by (simp add: nexts_def)
  ultimately have "y \<in> owned own es (own e)" using chain_next by metis
  then show thesis using that by (auto simp: owned_def)
qed

lemma check_slots_eq:
  assumes "\<And>j a. j < length xs \<Longrightarrow> xs ! j = Some a \<Longrightarrow> chk (i + j) a = (if P a then Ok () else Err e)"
  shows "check_slots chk i xs = (if \<forall>a \<in> set (live xs). P a then Ok () else Err e)"
  using assms
proof (induction xs arbitrary: i)
  case (Cons x xs)
  have "check_slots chk (Suc i) xs = (if \<forall>a \<in> set (live xs). P a then Ok () else Err e)"
    using Cons.prems [of "Suc _"] by (intro Cons.IH) simp
  moreover have "chk i a = (if P a then Ok () else Err e)" if "x = Some a" for a
    using Cons.prems [of 0 a] that by simp
  ultimately show ?case by (cases x) (auto simp: live_def map_filter_simps)
qed (simp add: live_def map_filter_simps)

lemma check_invariants_eq:
  assumes inv: "kernel_inv st"
  shows "check_invariants st = (if \<forall>n \<in> set (live (ks_nodes st)). \<forall>rid. n_record n = Some rid \<longrightarrow>
      slot (ks_records st) rid \<noteq> None then Ok () else Err NotFound)"
proof -
  note G = kernel_invD(3) [OF inv]
  have out: "adj e_from e_next_out n_first_out {} (ks_nodes st) (ks_edges st)" using G by (simp add: graph_inv_def)
  have "check_node st (0 + j) n = (if \<forall>rid. n_record n = Some rid \<longrightarrow> slot (ks_records st) rid \<noteq> None
      then Ok () else Err NotFound)" if j: "j < length (ks_nodes st)" "ks_nodes st ! j = Some n" for j n
  proof -
    have "j < 2 ^ 32" using j kernel_invD(2) [OF inv] by (simp add: nodes_ok_def)
    then have n: "slot (ks_nodes st) (of_nat j) = Some n" "unat (of_nat j :: u32) = j"
      using j by (simp_all add: slot_nth unat_of_nat_len)
    then have id: "n_id n = of_nat j" using G by (simp add: graph_inv_def)
    have "\<exists>e. slot (ks_edges st) x = Some e \<and> e_from e = n_id n" if "n_first_out n = Some x" for x
      using adj_first [OF out n(1) that] id by metis
    then show ?thesis using n(2) by (auto simp: check_node_def id split: option.splits)
  qed
  then have nodes: "check_slots (check_node st) 0 (ks_nodes st) = (if \<forall>n \<in> set (live (ks_nodes st)). \<forall>rid.
      n_record n = Some rid \<longrightarrow> slot (ks_records st) rid \<noteq> None then Ok () else Err NotFound)"
    by (rule check_slots_eq)
  have "check_edge st (0 + j) e = (if True then Ok () else Err NotFound)"
    if j: "j < length (ks_edges st)" "ks_edges st ! j = Some e" for j e
  proof -
    have "j < 2 ^ 32" using j kernel_invD(4) [OF inv] by simp
    then have e: "slot (ks_edges st) (of_nat j) = Some e" "unat (of_nat j :: u32) = j"
      using j by (simp_all add: slot_nth unat_of_nat_len)
    then have id: "e_id e = of_nat j" using G by (simp add: graph_inv_def)
    have ends: "slot (ks_nodes st) (e_from e) \<noteq> None" "slot (ks_nodes st) (e_to e) \<noteq> None"
      using graph_inv_edgeD [OF G e(1)] by auto
    have "\<exists>e'. slot (ks_edges st) y = Some e' \<and> e_from e' = e_from e" if "e_next_out e = Some y" for y
      using adj_next [OF out e(1) ends(1) that] by metis
    then show ?thesis using e(2) ends by (auto simp: check_edge_def id split: option.splits)
  qed
  then have "check_slots (check_edge st) 0 (ks_edges st)
      = (if \<forall>e \<in> set (live (ks_edges st)). True then Ok () else Err NotFound)"
    by (rule check_slots_eq)
  then have edges: "check_slots (check_edge st) 0 (ks_edges st) = Ok ()" by simp
  show ?thesis unfolding check_invariants_def nodes by (simp add: edges)
qed

section \<open>Rebuilding the namespace lists\<close>

definition slots_from :: "nat \<Rightarrow> ('a \<Rightarrow> u16) \<Rightarrow> 'a option list \<Rightarrow> nat \<Rightarrow> u32 set" where
  "slots_from m ns_of pool ns = {i. m \<le> unat i \<and> (\<exists>a. slot pool i = Some a \<and> unat (ns_of a) = ns)}"

lemma slots_from_Suc:
  assumes "m < length pool" "length pool < 2 ^ 32"
  shows "slots_from m ns_of pool = (case pool ! m of
      None \<Rightarrow> slots_from (Suc m) ns_of pool
    | Some a \<Rightarrow> (slots_from (Suc m) ns_of pool)
        (unat (ns_of a) := insert (of_nat m) (slots_from (Suc m) ns_of pool (unat (ns_of a)))))"
proof -
  have m: "slot pool (of_nat m) = pool ! m" "unat (of_nat m :: u32) = m"
    using assms by (simp_all add: slot_nth unat_of_nat_len)
  have "m \<le> unat i \<longleftrightarrow> i = of_nat m \<or> Suc m \<le> unat i" for i :: u32
    using m(2) by (auto simp: word_unat_eq_iff)
  then show ?thesis
    using m by (auto simp: slots_from_def fun_eq_iff split: option.splits)
qed

lemma slots_from_end: "slots_from (length pool) ns_of pool = (\<lambda>_. {})"
  by (auto simp: slots_from_def fun_eq_iff dest: slot_SomeD)

context links
begin

lemma relink_loop:
  assumes m: "m \<le> length pool" and len: "length pool < 2 ^ 32" and heads: "length heads = MAX_NAMESPACES"
    and ns: "\<And>i a. slot pool i = Some a \<Longrightarrow> unat (ns_of a) < MAX_NAMESPACES"
    and frame: "\<And>n a. ns_of (set_nxt n a) = ns_of a \<and> f (set_nxt n a) = f a"
      "\<And>n a. ns_of (set_prv n a) = ns_of a \<and> f (set_prv n a) = f a"
  shows "\<exists>pool' heads'. fold (relink_step ns_of set_nxt set_prv) (rev [m..<length pool])
        (Ok (pool, map (\<lambda>_. NS_LIST_NIL) heads)) = Ok (pool', heads') \<and>
      length pool' = length pool \<and>
      (\<forall>j. map_option (\<lambda>a. (ns_of a, f a)) (slot pool' j) = map_option (\<lambda>a. (ns_of a, f a)) (slot pool j)) \<and>
      ns_lists (ptrs nxt prv pool') heads' (slots_from m ns_of pool)"
  using m
proof (induction rule: inc_induct)
  case base
  have "ns_lists (ptrs nxt prv pool) (map (\<lambda>_. NS_LIST_NIL) heads) (slots_from (length pool) ns_of pool)"
    using heads by (auto simp: ns_lists_def slots_from_end)
  then show ?case by (intro exI) auto
next
  case (step m)
  then obtain pool' heads' where IH: "fold (relink_step ns_of set_nxt set_prv) (rev [Suc m..<length pool])
        (Ok (pool, map (\<lambda>_. NS_LIST_NIL) heads)) = Ok (pool', heads')"
    and len': "length pool' = length pool"
    and fr: "\<forall>j. map_option (\<lambda>a. (ns_of a, f a)) (slot pool' j) = map_option (\<lambda>a. (ns_of a, f a)) (slot pool j)"
    and L: "ns_lists (ptrs nxt prv pool') heads' (slots_from (Suc m) ns_of pool)" by blast
  have slot_m: "slot pool (of_nat m) = pool ! m" "unat (of_nat m :: u32) = m"
    using step len by (simp_all add: slot_nth unat_of_nat_len)
  have run: "fold (relink_step ns_of set_nxt set_prv) (rev [m..<length pool]) (Ok (pool, map (\<lambda>_. NS_LIST_NIL) heads))
      = relink_step ns_of set_nxt set_prv m (Ok (pool', heads'))"
    using step.hyps IH by (simp add: upt_conv_Cons del: upt_Suc)
  show ?case
  proof (cases "pool ! m")
    case None
    have "slot pool' (of_nat m) = None" using fr [rule_format, of "of_nat m"] slot_m(1) None by simp
    moreover have "slots_from m ns_of pool = slots_from (Suc m) ns_of pool"
      using slots_from_Suc [of m pool ns_of] None step.hyps len by simp
    ultimately show ?thesis unfolding run using len' fr L by (simp add: relink_step_def)
  next
    case (Some a)
    then obtain a' where a': "slot pool' (of_nat m) = Some a'" "ns_of a' = ns_of a"
      using fr [rule_format, of "of_nat m"] slot_m(1) by auto
    have bound: "unat (ns_of a) < MAX_NAMESPACES" using ns slot_m Some by simp
    then have min: "min (unat (ns_of a')) (MAX_NAMESPACES - 1) = unat (ns_of a)" using a' by simp
    have fresh: "of_nat m \<notin> slots_from (Suc m) ns_of pool k" for k using slot_m by (simp add: slots_from_def)
    have nil: "(of_nat m :: u32) \<noteq> NS_LIST_NIL"
      using slot_m(2) step.hyps len by (auto simp: NS_LIST_NIL_def word_unat_eq_iff)
    obtain ys where ys: "link_front set_nxt set_prv (of_nat m) (heads' ! unat (ns_of a)) pool' = Ok ys"
      and L': "ns_lists (ptrs nxt prv ys) (heads'[unat (ns_of a) := of_nat m]) ((slots_from (Suc m) ns_of pool)
          (unat (ns_of a) := insert (of_nat m) (slots_from (Suc m) ns_of pool (unat (ns_of a)))))"
      using ns_lists_link [OF L bound a'(1) fresh nil] by blast
    have "relink_step ns_of set_nxt set_prv m (Ok (pool', heads')) = Ok (ys, heads'[unat (ns_of a) := of_nat m])"
      using a' min ys bound ns_lists_length [OF L] by (simp add: relink_step_def Let_def)
    moreover have "map_option (\<lambda>a. (ns_of a, f a)) (slot ys j) = map_option (\<lambda>a. (ns_of a, f a)) (slot pool j)" for j
      using link_front_frame [OF ys, of "\<lambda>a. (ns_of a, f a)" j] frame fr by simp
    moreover have "ns_lists (ptrs nxt prv ys) (heads'[unat (ns_of a) := of_nat m]) (slots_from m ns_of pool)"
    proof -
      have S: "slots_from m ns_of pool = (slots_from (Suc m) ns_of pool)
        (unat (ns_of a) := insert (of_nat m) (slots_from (Suc m) ns_of pool (unat (ns_of a))))"
        using Some slots_from_Suc [of m pool ns_of] step.hyps len by simp
      show ?thesis unfolding S by (rule L')
    qed
    ultimately show ?thesis
      unfolding run using link_front_length [OF ys] len' by simp
  qed
qed

lemma relink_all_ok:
  assumes "length pool < 2 ^ 32" "length heads = MAX_NAMESPACES"
    and "\<And>i a. slot pool i = Some a \<Longrightarrow> unat (ns_of a) < MAX_NAMESPACES"
    and "\<And>n a. ns_of (set_nxt n a) = ns_of a \<and> f (set_nxt n a) = f a"
      "\<And>n a. ns_of (set_prv n a) = ns_of a \<and> f (set_prv n a) = f a"
  shows "\<exists>pool' heads'. relink_all ns_of set_nxt set_prv pool heads = Ok (pool', heads') \<and>
      length pool' = length pool \<and>
      (\<forall>j. map_option f (slot pool' j) = map_option f (slot pool j)) \<and>
      ns_lists (ptrs nxt prv pool') heads' (slots_from 0 ns_of pool)"
proof -
  have "\<exists>pool' heads'. fold (relink_step ns_of set_nxt set_prv) (rev [0..<length pool])
        (Ok (pool, map (\<lambda>_. NS_LIST_NIL) heads)) = Ok (pool', heads') \<and>
      length pool' = length pool \<and>
      (\<forall>j. map_option (\<lambda>a. (ns_of a, f a)) (slot pool' j) = map_option (\<lambda>a. (ns_of a, f a)) (slot pool j)) \<and>
      ns_lists (ptrs nxt prv pool') heads' (slots_from 0 ns_of pool)"
    by (rule relink_loop) (use assms in auto)
  then obtain pool' heads' where run: "fold (relink_step ns_of set_nxt set_prv) (rev [0..<length pool])
        (Ok (pool, map (\<lambda>_. NS_LIST_NIL) heads)) = Ok (pool', heads')"
    and len: "length pool' = length pool"
    and fr: "\<And>j. map_option (\<lambda>a. (ns_of a, f a)) (slot pool' j) = map_option (\<lambda>a. (ns_of a, f a)) (slot pool j)"
    and L: "ns_lists (ptrs nxt prv pool') heads' (slots_from 0 ns_of pool)" by blast
  have "map_option f (slot pool' j) = map_option f (slot pool j)" for j
    using fr [of j] by (rule map_option_lift) simp
  then show ?thesis using run len L by (auto simp: relink_all_def)
qed

end

lemma slots_from_records: "slots_from 0 r_namespace_id recs ns = {i. \<exists>r. slot recs i = Some r \<and> unat (r_namespace_id r) = ns}"
  by (simp add: slots_from_def)

text \<open>
  The rebuilt lists contain every record of the namespace, the soft-deleted ones included: the state is
  the same apart from the links, but only if nothing is soft-deleted does it satisfy the invariant again.
\<close>

lemma rebuild_namespace_lists_ok:
  assumes inv: "kernel_inv st"
  shows "\<exists>recs heads nds nheads. rebuild_namespace_lists st = Ok (st\<lparr>ks_records := recs, ks_record_heads := heads,
      ks_nodes := nds, ks_node_heads := nheads\<rparr>) \<and> same_recs recs (ks_records st) \<and>
    ns_lists (rec_ptrs recs) heads (slots_from 0 r_namespace_id (ks_records st)) \<and>
    length nds = length (ks_nodes st) \<and>
    (\<forall>j. map_option (\<lambda>n. (n_info n, n_graph n)) (slot nds j) = map_option (\<lambda>n. (n_info n, n_graph n)) (slot (ks_nodes st) j)) \<and>
    nodes_ok nds nheads"
proof -
  note R = kernel_invD(1) [OF inv] and N = kernel_invD(2) [OF inv]
  have "ns_lists (node_ptrs (ks_nodes st)) (ks_node_heads st) (node_members (ks_nodes st))" using N by (simp add: nodes_ok_def)
  note heads = ns_lists_length [OF recs_ok_lists [OF R]] ns_lists_length [OF this]
  obtain recs rh where r: "relink_all r_namespace_id set_r_next set_r_prev (ks_records st) (ks_record_heads st) = Ok (recs, rh)"
      "length recs = length (ks_records st)"
      "\<forall>j. map_option r_core (slot recs j) = map_option r_core (slot (ks_records st) j)"
      "ns_lists (rec_ptrs recs) rh (slots_from 0 r_namespace_id (ks_records st))"
    using rl.relink_all_ok [where ns_of = r_namespace_id and f = r_core and pool = "ks_records st"
        and heads = "ks_record_heads st"] R heads
    by (auto simp: recs_ok_def rec_ok_def set_r_next_def set_r_prev_def r_core_def)
  obtain nds nh where n: "relink_all n_namespace_id set_n_next set_n_prev (ks_nodes st) (ks_node_heads st) = Ok (nds, nh)"
      "length nds = length (ks_nodes st)"
      "\<forall>j. map_option (\<lambda>n. (n_info n, n_graph n)) (slot nds j) = map_option (\<lambda>n. (n_info n, n_graph n)) (slot (ks_nodes st) j)"
      "ns_lists (node_ptrs nds) nh (slots_from 0 n_namespace_id (ks_nodes st))"
    using nl.relink_all_ok [where ns_of = n_namespace_id and f = "\<lambda>n. (n_info n, n_graph n)" and pool = "ks_nodes st"
        and heads = "ks_node_heads st"] N heads
    by (auto simp: nodes_ok_def graph_setters n_info_def n_graph_def)
  have info: "map_option n_info (slot nds j) = map_option n_info (slot (ks_nodes st) j)" for j
    using n(3) [rule_format, of j] by (rule map_option_lift) simp
  have "slots_from 0 n_namespace_id (ks_nodes st) = node_members nds"
    using members_info [OF info] by (auto simp: slots_from_def node_members_def fun_eq_iff)
  moreover have "unat (n_namespace_id m) < MAX_NAMESPACES" if "slot nds j = Some m" for j m
    using ns_bound_info [OF info _ that] N by (auto simp: nodes_ok_def)
  ultimately have "nodes_ok nds nh" using n(2,4) N by (simp add: nodes_ok_def)
  then show ?thesis
    using r n by (intro exI [of _ recs] exI [of _ rh] exI [of _ nds] exI [of _ nh])
      (simp add: rebuild_namespace_lists_def same_recs_def)
qed

text \<open>The candidates of a search depend only on what each slot contributes.\<close>

definition pick :: "target \<Rightarrow> FxpVector \<Rightarrow> (Record \<Rightarrow> bool) \<Rightarrow> Record option \<Rightarrow> SearchResult option" where
  "pick cpu query P x = (case x of Some r \<Rightarrow> if P r then Some (candidate cpu query r) else None | None \<Rightarrow> None)"

lemma candidates_pick: "candidates cpu query P pool = List.map_filter (pick cpu query P) pool"
proof (induction pool)
  case (Cons x pool)
  then show ?case by (cases x) (simp_all add: candidates_def pick_def map_filter_simps)
qed (simp add: candidates_def map_filter_simps)

lemma candidates_eqI:
  assumes len: "length a = length b" "length b \<le> 2 ^ 32"
    and eq: "\<And>i. pick cpu query P (slot a i) = pick cpu query P (slot b i)"
  shows "candidates cpu query P a = candidates cpu query P b"
proof -
  have "map (pick cpu query P) a = map (pick cpu query P) b"
  proof (rule nth_equalityI)
    show "length (map (pick cpu query P) a) = length (map (pick cpu query P) b)" using len by simp
    fix i assume "i < length (map (pick cpu query P) a)"
    then have "i < length a" "i < length b" "i < 2 ^ 32" using len by simp_all
    then have "slot a (of_nat i) = a ! i" "slot b (of_nat i) = b ! i" "i < length a" "i < length b" by (simp_all add: slot_nth)
    then show "map (pick cpu query P) a ! i = map (pick cpu query P) b ! i" using eq [of "of_nat i"] by simp
  qed
  then have "List.map_filter (\<lambda>x. x) (map (pick cpu query P) a) = List.map_filter (\<lambda>x. x) (map (pick cpu query P) b)"
    by simp
  then show ?thesis by (simp add: candidates_pick map_filter_def comp_def filter_map)
qed

lemma same_recs_candidates:
  assumes same: "same_recs a b" and len: "length b \<le> 2 ^ 32"
    and P: "\<And>r r'. r_core r = r_core r' \<Longrightarrow> P r = P r'"
  shows "candidates cpu query P a = candidates cpu query P b"
proof (rule candidates_eqI [OF same_recs_length [OF same] len])
  fix i
  have eq: "map_option r_core (slot a i) = map_option r_core (slot b i)" using same by (simp add: same_recs_def)
  show "pick cpu query P (slot a i) = pick cpu query P (slot b i)"
  proof (cases "slot a i")
    case None
    then show ?thesis using eq by simp
  next
    case (Some r)
    then obtain r' where r': "slot b i = Some r'" "r_core r = r_core r'" using same_recs_slot [OF same] by blast
    show ?thesis using P [OF r'(2)] r_core_eqD(1,2) [OF r'(2)] by (simp add: pick_def candidate_def Some r'(1))
  qed
qed

lemma same_recs_pool_ids: "same_recs a b \<Longrightarrow> pool_ids b \<Longrightarrow> pool_ids a"
  unfolding pool_ids_def using same_recs_slot [of a b] same_recs_length [of a b] by (fastforce dest: r_core_eqD(1))

lemma same_recs_ns:
  "same_recs a b \<Longrightarrow> (\<exists>r. slot a i = Some r \<and> r_namespace_id r = ns) \<longleftrightarrow> (\<exists>r. slot b i = Some r \<and> r_namespace_id r = ns)"
  using same_recs_slot [of a b i] same_recs_slot [OF same_recs_sym, of a b i] by (fastforce dest: r_core_eqD(6))

lemma active_in_core: "r_core r = r_core r' \<Longrightarrow> active_in ns r = active_in ns r'"
  using r_core_eqD [of r r'] by (simp add: active_in_def)

lemma rebuild_search:
  assumes inv: "kernel_inv st" and run: "rebuild_namespace_lists st = Ok st'"
  shows "search_l2_ns cpu st' query results ns = search_l2_ns cpu st query results ns"
proof (cases "unat ns < MAX_NAMESPACES")
  case True
  note R = kernel_invD(1) [OF inv]
  obtain recs heads nds nheads where st': "st' = st\<lparr>ks_records := recs, ks_record_heads := heads,
      ks_nodes := nds, ks_node_heads := nheads\<rparr>" and same: "same_recs recs (ks_records st)"
    and L: "ns_lists (rec_ptrs recs) heads (slots_from 0 r_namespace_id (ks_records st))"
    using rebuild_namespace_lists_ok [OF inv] run by auto
  obtain xs where xs: "distinct xs" "dll (rec_ptrs recs) (heads ! unat ns) xs"
    "set xs = slots_from 0 r_namespace_id (ks_records st) (unat ns)" using ns_listsE [OF L True] .
  have mem: "i \<in> set xs \<longleftrightarrow> (\<exists>r. slot recs i = Some r \<and> r_namespace_id r = ns)" for i
    using same_recs_ns [OF same, of i ns] xs(3) by (simp add: slots_from_records word_unat_eq_iff)
  have "search_l2_ns cpu st' query results ns
      = Ok (answer (candidates cpu query (active_in ns) (ks_records st')) (replicate (length results) sr_worst))"
    using same_recs_pool_ids [OF same recs_ok_pool_ids [OF R]] True ns_lists_length [OF L] xs(1,2) mem
    by (intro search_l2_ns_list [where xs = xs]) (auto simp: st')
  also have "candidates cpu query (active_in ns) (ks_records st') = candidates cpu query (active_in ns) (ks_records st)"
    unfolding st' using R same by (intro same_recs_candidates active_in_core) (simp_all add: recs_ok_def)
  finally show ?thesis by (simp add: search_l2_ns_answer [OF inv True])
qed (simp add: search_l2_ns_def)

lemma rebuild_inv:
  assumes inv: "kernel_inv st" and run: "rebuild_namespace_lists st = Ok st'"
    and none: "\<And>i r. slot (ks_records st) i = Some r \<Longrightarrow> \<not> soft_deleted r"
  shows "kernel_inv st'"
proof -
  note R = kernel_invD(1) [OF inv]
  obtain recs heads nds nheads where st': "st' = st\<lparr>ks_records := recs, ks_record_heads := heads,
      ks_nodes := nds, ks_node_heads := nheads\<rparr>" and same: "same_recs recs (ks_records st)"
    and L: "ns_lists (rec_ptrs recs) heads (slots_from 0 r_namespace_id (ks_records st))"
    and nodes: "\<forall>j. map_option (\<lambda>n. (n_info n, n_graph n)) (slot nds j) = map_option (\<lambda>n. (n_info n, n_graph n)) (slot (ks_nodes st) j)"
    and nok: "nodes_ok nds nheads"
    using rebuild_namespace_lists_ok [OF inv] run by auto
  have old: "\<exists>r. slot (ks_records st) i = Some r \<and> r_core r' = r_core r" if "slot recs i = Some r'" for i r'
    using same_recs_slot [OF same that] .
  have "slots_from 0 r_namespace_id (ks_records st) = rec_members (ks_records st)"
    using none by (auto simp: slots_from_records rec_members_def fun_eq_iff)
  then have lists: "ns_lists (rec_ptrs recs) heads (rec_members recs)" using L same_recs_members [OF same] by simp
  have "rec_ok (ks_dim st) i r'" if "slot recs i = Some r'" for i r'
    using old [OF that] recs_okD [OF R] rec_ok_core by blast
  then have "recs_ok (ks_dim st) recs heads"
    using lists R same_recs_length [OF same] by (simp add: recs_ok_def)
  moreover have "graph_inv nds (ks_edges st)"
    by (rule graph_inv_frame [OF _ kernel_invD(3) [OF inv]]) (rule map_option_lift [OF nodes [rule_format]], simp)
  moreover have "index_ok (ks_dim st) (ks_index st) recs"
    by (rule ai.mono [OF kernel_invD(5) [OF inv]]) (simp_all add: same_recs_searchable [OF same])
  moreover have "node_refs_ok recs nds"
  proof (rule node_refs_info)
    show "node_refs_ok recs (ks_nodes st)"
    proof (rule node_refs_recs [OF kernel_invD(6) [OF inv]])
      show "\<exists>r. slot (ks_records st) i = Some r \<and> r_namespace_id r' = r_namespace_id r" if "slot recs i = Some r'" for i r'
        using old [OF that] by (auto dest: r_core_eqD(6))
    qed (simp add: same_recs_length [OF same])
    show "\<exists>n. slot (ks_nodes st) j = Some n \<and> n_info n' = n_info n" if "slot nds j = Some n'" for j n'
      using nodes [rule_format, of j] that by (cases "slot (ks_nodes st) j") auto
  qed
  moreover have "keys_ok (ks_encrypted_keys st) recs"
  proof (rule keys_ok_frame [OF kernel_invD(7) [OF inv] same_recs_length [OF same]])
    show "\<exists>r. slot (ks_records st) i = Some r \<and> encrypted r' = encrypted r \<and> shredded r' = shredded r"
      if "slot recs i = Some r'" for i r'
      using old [OF that] by (auto dest: r_core_eqD(10,11))
  qed
  ultimately show ?thesis using inv nok by (simp add: kernel_inv_def st')
qed

end
