(* ===== verification/Kernel_Theorems.thy ===== *)
theory Kernel_Theorems
  imports Kernel_Demo Kernel_Rebuild
begin

text \<open>
  The theorems about the kernel: it never panics or loops and keeps its invariant, it implements the
  abstract kernel, ids are not reused, errors change nothing, searches return exactly the nearest
  records, and what the checker and the rebuild of the namespace lists do.
\<close>

section \<open>Safety and refinement\<close>

text \<open>C2: In every state that satisfies the invariant, every event that has room for the id it allocates
  and does not delete a soft-deleted record returns success or an error, without panicking or looping,
  and the state it leaves satisfies the invariant.\<close>

theorem apply_event_returns:
  assumes "kernel_inv st" "event_safe evt st" "version_ok st"
  shows "\<exists>r st'. apply_event_ns evt ns st = (r, st') \<and> (r = Ok () \<or> (\<exists>e. r = Err e)) \<and> kernel_inv st'"
  using apply_event_ns_good [OF assms, of ns]
  by (cases "apply_event_ns evt ns st") (auto simp: good_def returns_def split: res.splits)

lemma demo_version: "version_ok demo"
  by (simp add: version_ok_def version_next_def demo_def)

theorem apply_event_returns_witness:
  "\<exists>r st'. apply_event_ns (DropNamespace []) 1 demo = (r, st') \<and> (r = Ok () \<or> (\<exists>e. r = Err e)) \<and> kernel_inv st'"
  by (rule apply_event_returns [OF demo_inv _ demo_version]) simp

text \<open>C3: Every state a kernel can reach by safe events and changes of its index satisfies the invariant: the
  namespace lists run through exactly the records and nodes of their namespace, the adjacency lists through
  exactly the edges of their node, the index agrees with the pool, and the key table with the records.\<close>

theorem reachable_kernel_inv: "reachable st \<Longrightarrow> kernel_inv st"
  by (rule reachable_inv)

theorem reachable_kernel_inv_witness: "reachable demo \<and> kernel_inv demo"
  using reachable_kernel_inv demo_reachable by blast

text \<open>C1: \<open>apply_event_ns\<close> refines the abstract kernel: in every state that satisfies the invariant it returns
  exactly what the meaning of the event returns (success or the same error) and leaves a state that looks
  like the abstract one.\<close>

theorem apply_event_refines:
  assumes "kernel_inv st" "event_safe evt st" "version_ok st"
  shows "map_prod id view (apply_event_ns evt ns st) = a_apply evt ns (view st)"
  using sim_event [OF assms, of ns] by (simp add: sim_def map_prod_def split_beta)

theorem apply_event_refines_witness:
  "map_prod id view (apply_event_ns (DeleteNode 0) 1 demo) = a_apply (DeleteNode 0) 1 (view demo)"
  by (rule apply_event_refines [OF demo_inv _ demo_version]) simp

section \<open>Ids, errors and versions\<close>

lemma evolves_event:
  assumes "apply_event_ns evt ns st = (r, st')"
  shows "grows (ks_records st) (ks_records st')" "grows (ks_nodes st) (ks_nodes st')" "grows (ks_edges st) (ks_edges st')"
proof -
  have "evolves st (snd (apply_arm evt ns st))" by (rule evolves_apply_arm)
  moreover have "\<exists>v. st' = (snd (apply_arm evt ns st))\<lparr>ks_version := v\<rparr> \<or> st' = snd (apply_arm evt ns st)"
    using assms by (auto simp: apply_event_ns_def split: prod.splits res.splits option.splits)
  ultimately show "grows (ks_records st) (ks_records st')" "grows (ks_nodes st) (ks_nodes st')"
      "grows (ks_edges st) (ks_edges st')"
    by (auto simp: evolves_def)
qed

lemma grows_run:
  "grows (ks_records st) (ks_records (run evs st)) \<and> grows (ks_nodes st) (ks_nodes (run evs st)) \<and>
   grows (ks_edges st) (ks_edges (run evs st))"
proof (induction evs arbitrary: st)
  case (Cons p evs)
  have "apply_event_ns (snd p) (fst p) st = (fst (apply_event_ns (snd p) (fst p) st), run_event p st)"
    by (simp add: run_event_def)
  from evolves_event [OF this] Cons.IH [of "run_event p st"] show ?case
    by (auto simp: run_def intro: grows_trans)
qed (simp add: run_def)

text \<open>C9: Ids are never reused: whatever events follow, safe or not, an id once given out and deleted names nothing,
  and the next id to be given out never goes back.\<close>

theorem ids_never_reused:
  assumes "unat i < total_record_slots st" "get_record st i = None"
  shows "get_record (run evs st) i = None \<and> total_record_slots st \<le> total_record_slots (run evs st)"
  using grows_run [of st evs] assms
  by (auto simp: grows_def get_record_def total_record_slots_def pool_total_slots_def)

definition deleted_demo :: KernelState where
  "deleted_demo = run_event (1, DeleteRecord 0) demo"

theorem ids_never_reused_witness:
  "get_record (run [(1, AutoInsertRecord [1, 1] None 0)] deleted_demo) 0 = None \<and>
   total_record_slots deleted_demo \<le> total_record_slots (run [(1, AutoInsertRecord [1, 1] None 0)] deleted_demo)"
  by (rule ids_never_reused)
    (simp_all add: deleted_demo_def demo_def kernel_eval get_record_def total_record_slots_def pool_total_slots_def
      apply_delete_record_def pool_delete_def)

lemma rejected_keeps_state:
  assumes "apply_event_ns evt ns st = (Err e, st')"
  shows "st' = st \<or> (e = MetadataTooLarge \<and> ks_dim st = None \<and> (\<exists>d. st' = st\<lparr>ks_dim := Some d\<rparr>))"
proof -
  have arm: "apply_arm evt ns st = (Err e, st')"
    using assms by (auto simp: apply_event_ns_def split: prod.splits res.splits option.splits)
  have fin: "x = st" if "finish st r = (Err e, x)" for r x
    using that by (cases r) (auto simp: finish_def)
  have ins: "st' = st \<or> (e = MetadataTooLarge \<and> ks_dim st = None \<and> (\<exists>d. st' = st\<lparr>ks_dim := Some d\<rparr>))"
    if "insert_vector vec md tag ns' st = (Err e, st')" for vec md tag ns'
    using that
    by (auto simp: insert_vector_def insert_body_def finish_def link_record_def link_front_def pool_insert_def
        slot_def Let_def split: option.splits res.splits if_splits)
  show ?thesis
    using arm ins by (cases evt) (auto simp: apply_insert_record_def apply_auto_insert_record_def dest: fin split: if_splits)
qed



text \<open>The version counts the events applied: success advances it by exactly one, an error leaves it.\<close>

theorem version_counts_events:
  assumes "version_ok st" "apply_event_ns evt ns st = (r, st')"
  shows "unat (ks_version st') = unat (ks_version st) + (if r = Ok () then 1 else 0)"
proof -
  obtain r0 st0 where arm: "apply_arm evt ns st = (r0, st0)" by fastforce
  have "ks_version st0 = ks_version st"
    using evolves_apply_arm [of st evt ns] arm by (simp add: evolves_def)
  moreover have "unat (ks_version st + 1) = unat (ks_version st) + 1"
    by (rule version_next_Some) (use assms(1) in \<open>auto simp: version_ok_def version_next_def split: if_splits\<close>)
  ultimately show ?thesis
    using assms(2) apply_event_ns_arm [OF assms(1) arm] by (auto split: if_splits)
qed

theorem version_counts_events_witness:
  "unat (ks_version (snd (apply_event_ns (DeleteEdge 0) 1 demo)))
    = unat (ks_version demo) + (if fst (apply_event_ns (DeleteEdge 0) 1 demo) = Ok () then 1 else 0)"
  by (rule version_counts_events [OF demo_version]) simp

text \<open>The exception is real: a fresh kernel that rejects an insert for its metadata has fixed its dimension, and
  then rejects vectors of every other dimension.\<close>

theorem rejected_insert_fixes_dimension:
  assumes "length md > MAX_METADATA_SIZE" "length vec \<noteq> length vec'"
  shows "run_event (0, AutoInsertRecord vec (Some md) 0) kernel_new = kernel_new\<lparr>ks_dim := Some (length vec)\<rparr> \<and>
    fst (apply_event_ns (AutoInsertRecord vec' None 0) 0 (run_event (0, AutoInsertRecord vec (Some md) 0) kernel_new))
      = Err (DimensionMismatch (length vec) (length vec'))"
  using assms by (simp add: run_event_def apply_event_ns_def apply_auto_insert_record_def insert_vector_def insert_body_def
      finish_def kernel_new_def max_ns_compare)

definition big_metadata :: bytes where "big_metadata = replicate 70000 0"

theorem rejected_insert_fixes_dimension_witness:
  "run_event (0, AutoInsertRecord [1] (Some big_metadata) 0) kernel_new = kernel_new\<lparr>ks_dim := Some (length [1::i32])\<rparr> \<and>
    fst (apply_event_ns (AutoInsertRecord [1, 2] None 0) 0
        (run_event (0, AutoInsertRecord [1] (Some big_metadata) 0) kernel_new))
      = Err (DimensionMismatch (length [1::i32]) (length [1::i32, 2]))"
  by (rule rejected_insert_fixes_dimension) (simp_all add: big_metadata_def MAX_METADATA_SIZE_def)

section \<open>Searches\<close>





text \<open>C6: With the binary-quantization index the search is exact as long as at most \<open>max (40 * k) 400\<close> records match:
  the coarse Hamming scan then drops none of them.\<close>

theorem search_l2_bq_exact:
  assumes inv: "kernel_inv st" and ix: "ks_index st = BinaryQuantization bq"
    and q: "ks_dim st = Some (length query)" "query \<noteq> []"
    and few: "length (filter (\<lambda>r. is_searchable r \<and> matches flt r) (live (ks_records st))) \<le> max (40 * length results) 400"
  shows "search_l2 cpu st query results flt
    = answer (candidates cpu query (\<lambda>r. is_searchable r \<and> matches flt r) (ks_records st)) (replicate (length results) sr_worst)"
proof -
  let ?P = "\<lambda>r. is_searchable r \<and> matches flt r"
  note R = kernel_invD(1) [OF inv]
  have bq: "bq_ok bq (ks_records st)" "bq_dim bq \<noteq> 0 \<Longrightarrow> length query = bq_dim bq"
    using kernel_invD(5) [OF inv] ix q(1) by auto
  have dims: "length (r_vector r) = length query" if "r \<in> set (live (ks_records st))" for r
    using recs_ok_live(2) [OF R that] q(1) by simp
  have "mset (shortlist (max (40 * length results) 400) query ?P (ks_records st)) = mset (filter ?P (live (ks_records st)))"
    by (rule shortlist_all [OF recs_ok_pool_ids [OF R] few])
  then have "mset (map (candidate cpu query) (shortlist (max (40 * length results) 400) query ?P (ks_records st)))
      = mset (candidates cpu query ?P (ks_records st))"
    by (simp add: candidates_def)
  then have "answer (map (candidate cpu query) (shortlist (max (40 * length results) 400) query ?P (ks_records st)))
        (replicate (length results) sr_worst)
      = answer (candidates cpu query ?P (ks_records st)) (replicate (length results) sr_worst)"
    by (rule answer_mset)
  moreover have "bq_search cpu bq (ks_records st) query results flt
      = answer (map (candidate cpu query) (shortlist (max (40 * length results) 400) query ?P (ks_records st)))
          (replicate (length results) sr_worst)"
    by (rule bq_search_shortlist [OF bq(1) recs_ok_pool_ids [OF R] q(2) dims bq(2)])
  ultimately show ?thesis by (simp add: search_l2_def ix)
qed

definition demo_bq :: KernelState where "demo_bq = set_index_kind IV_BinaryQuantization demo"

lemma demo_bq_sel:
  "ks_records demo_bq = ks_records demo" "ks_dim demo_bq = Some 2"
  "ks_index demo_bq = BinaryQuantization (bq_rebuild (ks_records demo))"
  by (simp_all add: demo_bq_def set_index_kind_def demo_def)

lemma demo_bq_inv: "kernel_inv demo_bq"
  unfolding demo_bq_def by (rule kernel_inv_set_index_kind [OF demo_inv])

theorem search_l2_bq_exact_witness:
  "search_l2 Portable demo_bq [65536, 1] [sr_default] None
    = answer (candidates Portable [65536, 1] (\<lambda>r. is_searchable r \<and> matches None r) (ks_records demo_bq)) (replicate (length [sr_default]) sr_worst)"
proof (rule search_l2_bq_exact [OF demo_bq_inv demo_bq_sel(3)])
  have "length (filter (\<lambda>r. is_searchable r \<and> matches None r) (live (ks_records demo))) \<le> length (live (ks_records demo))"
    by (rule length_filter_le)
  also have "\<dots> \<le> 400" by (simp add: demo_def)
  finally show "length (filter (\<lambda>r. is_searchable r \<and> matches None r) (live (ks_records demo_bq))) \<le> max (40 * length [sr_default]) 400"
    by (simp add: demo_bq_sel)
qed (simp_all add: demo_bq_sel)

text \<open>Whichever index is active, what a search returns is sound: at most \<open>k\<close> results, sorted, each id once, each
  the id of an active record with the requested tag and its true distance.\<close>

theorem search_l2_sound:
  assumes inv: "kernel_inv st" and q: "ks_dim st = Some (length query)" "query \<noteq> []"
    and run: "search_l2 cpu st query results flt = (n, rs)"
  shows "n \<le> length results \<and> length rs = length results \<and> sorted (take n rs) \<and> distinct (map sr_id (take n rs)) \<and>
    (\<forall>x \<in> set (take n rs). \<exists>r. get_record st (sr_id x) = Some r \<and> is_active r \<and> matches flt r
       \<and> score x = fxp_l2_sq cpu (r_vector r) query)"
proof -
  note R = kernel_invD(1) [OF inv]
  have ok: "index_ok (Some (length query)) (ks_index st) (ks_records st)" using kernel_invD(5) [OF inv] q(1) by simp
  have dims: "length (r_vector r) = length query" if "r \<in> set (live (ks_records st))" for r
    using recs_ok_live(2) [OF R that] q(1) by simp
  have run': "index_search cpu (ks_index st) (ks_records st) query results flt = (n, rs)"
    using run by (simp add: search_l2_def)
  note results = ai.search_results [OF ok recs_ok_pool_ids [OF R] q(2) dims run']
  show ?thesis using results(1-4) results(5) by (auto simp: get_record_def)
qed

theorem search_l2_sound_witness:
  "\<exists>n rs. search_l2 Portable demo_bq [65536, 1] [sr_default] None = (n, rs) \<and>
    n \<le> length [sr_default] \<and> length rs = length [sr_default] \<and> sorted (take n rs) \<and> distinct (map sr_id (take n rs)) \<and>
    (\<forall>x \<in> set (take n rs). \<exists>r. get_record demo_bq (sr_id x) = Some r \<and> is_active r \<and> matches None r
       \<and> score x = fxp_l2_sq Portable (r_vector r) [65536, 1])"
proof -
  obtain n rs where run: "search_l2 Portable demo_bq [65536, 1] [sr_default] None = (n, rs)" by fastforce
  show ?thesis using run search_l2_sound [OF demo_bq_inv _ _ run] by (simp add: demo_bq_sel)
qed

section \<open>Namespaces and keys\<close>

lemma candidates_empty: "(\<And>i r. slot pool i = Some r \<Longrightarrow> \<not> P r) \<Longrightarrow> length pool \<le> 2 ^ 32 \<Longrightarrow> candidates cpu query P pool = []"
  by (auto simp: candidates_def filter_empty_conv set_live_slot)

text \<open>C7: Dropping a namespace isolates it: afterwards a search in it finds nothing, and a search in any other
  namespace returns what it returned before.\<close>

theorem drop_namespace_isolates:
  assumes inv: "kernel_inv st" and ver: "version_ok st" and ns: "0 < unat ns" "unat ns < MAX_NAMESPACES"
    and run: "apply_event_ns (DropNamespace nm) ns st = (r, st')"
  shows "r = Ok () \<and> search_l2_ns cpu st' query results ns = Ok (0, replicate (length results) sr_worst) \<and>
    (\<forall>ns'. ns' \<noteq> ns \<longrightarrow> search_l2_ns cpu st' query results ns' = search_l2_ns cpu st query results ns')"
proof -
  obtain st1 where st1: "apply_drop_namespace ns st = Ok st1" "kernel_inv st1"
      "\<forall>j. slot (ks_records st1) j = (if j \<in> rec_members (ks_records st) (unat ns) then None else slot (ks_records st) j)"
      "length (ks_records st1) = length (ks_records st)"
    using apply_drop_namespace_ok [OF inv, of ns] ns by auto
  then have arm: "apply_arm (DropNamespace nm) ns st = (Ok (), st1)" by (simp add: finish_def)
  have st': "r = Ok ()" "st' = st1\<lparr>ks_version := ks_version st + 1\<rparr>"
    using run apply_event_ns_arm [OF ver arm] by simp_all
  have inv': "kernel_inv st'" using st1(2) by (simp add: st' kernel_inv_version)
  have recs: "ks_records st' = ks_records st1" by (simp add: st')
  have len: "length (ks_records st1) \<le> 2 ^ 32" "length (ks_records st) \<le> 2 ^ 32"
    using kernel_invD(1) [OF inv] st1(4) by (simp_all add: recs_ok_def)
  have gone: "candidates cpu query (active_in ns) (ks_records st') = []" if "unat ns < MAX_NAMESPACES"
    unfolding recs using st1(3) len
    by (intro candidates_empty) (auto simp: active_in_def rec_members_def is_active_iff split: if_splits)
  have kept: "candidates cpu query (active_in ns') (ks_records st') = candidates cpu query (active_in ns') (ks_records st)"
    if "ns' \<noteq> ns" for ns'
    unfolding recs using st1(3,4) len that
    by (intro candidates_eqI) (auto simp: pick_def rec_members_def active_in_def word_unat_eq_iff)
  have "search_l2_ns cpu st' query results ns' = search_l2_ns cpu st query results ns'" if "ns' \<noteq> ns" for ns'
  proof (cases "unat ns' < MAX_NAMESPACES")
    case True
    then show ?thesis using kept [OF that] by (simp add: search_l2_ns_answer inv inv')
  qed (simp add: search_l2_ns_def)
  then show ?thesis
    using st'(1) gone ns by (simp add: search_l2_ns_answer [OF inv'] answer_def topk_def)
qed

theorem drop_namespace_isolates_witness:
  "\<exists>st'. apply_event_ns (DropNamespace []) 1 demo = (Ok (), st') \<and>
    search_l2_ns Portable st' [65536, 0] [sr_default] 1 = Ok (0, replicate (length [sr_default]) sr_worst) \<and>
    (\<forall>ns'. ns' \<noteq> 1 \<longrightarrow> search_l2_ns Portable st' [65536, 0] [sr_default] ns' = search_l2_ns Portable demo [65536, 0] [sr_default] ns')"
proof -
  obtain r st' where run: "apply_event_ns (DropNamespace []) 1 demo = (r, st')" by fastforce
  show ?thesis
    using run drop_namespace_isolates [OF demo_inv demo_version _ _ run, of Portable "[65536, 0]" "[sr_default]"]
    by (auto simp: max_ns_compare)
qed



section \<open>Reads of the graph and the checker\<close>

text \<open>C25: The edge iterators of a node terminate and yield each of its outgoing and incoming edges exactly once.\<close>

theorem edge_iterators_exact:
  assumes inv: "kernel_inv st" and n: "get_node st i = Some n"
  shows "\<exists>outs ins. outgoing_edges st i = Some (Some outs) \<and> incoming_edges st i = Some (Some ins) \<and>
    distinct outs \<and> set outs = {e. get_edge st (e_id e) = Some e \<and> e_from e = i} \<and>
    distinct ins \<and> set ins = {e. get_edge st (e_id e) = Some e \<and> e_to e = i}"
proof -
  note G = kernel_invD(3) [OF inv]
  have n': "slot (ks_nodes st) i = Some n" using n by (simp add: get_node_def)
  have ids: "e_id e = x" if "slot (ks_edges st) x = Some e" for x e using graph_inv_edgeD [OF G that] by simp
  have "adj e_from e_next_out n_first_out {} (ks_nodes st) (ks_edges st)"
    "adj e_to e_next_in n_first_in {} (ks_nodes st) (ks_edges st)" using G by (simp_all add: graph_inv_def)
  from run_edge_iter_owned [OF this(1) n' ids] run_edge_iter_owned [OF this(2) n' ids] show ?thesis
    by (auto simp: outgoing_edges_def incoming_edges_def get_edge_def n')
qed

theorem edge_iterators_exact_witness:
  "\<exists>outs ins. outgoing_edges demo 0 = Some (Some outs) \<and> incoming_edges demo 0 = Some (Some ins) \<and>
    distinct outs \<and> set outs = {e. get_edge demo (e_id e) = Some e \<and> e_from e = 0} \<and>
    distinct ins \<and> set ins = {e. get_edge demo (e_id e) = Some e \<and> e_to e = 0}"
  by (rule edge_iterators_exact [OF demo_inv]) (simp add: get_node_def slot_def demo_def)

text \<open>C26: On a state that satisfies the invariant, \<open>check_invariants\<close> accepts exactly when every node's record still
  exists, and otherwise reports \<open>NotFound\<close>: deleting a record a node refers to makes the checker fail.\<close>

theorem check_invariants_decides:
  assumes "kernel_inv st"
  shows "check_invariants st = (if \<forall>n \<in> set (iter_nodes st). \<forall>rid. n_record n = Some rid \<longrightarrow>
      get_record st rid \<noteq> None then Ok () else Err NotFound)"
  using check_invariants_eq [OF assms] by (simp add: iter_nodes_def get_record_def)

theorem check_invariants_decides_witness:
  "check_invariants demo = (if \<forall>n \<in> set (iter_nodes demo). \<forall>rid. n_record n = Some rid \<longrightarrow>
      get_record demo rid \<noteq> None then Ok () else Err NotFound)"
  by (rule check_invariants_decides [OF demo_inv])

text \<open>Rebuilding the namespace lists always succeeds, changes no search result, and, when no record is
  soft-deleted, gives a state that satisfies the invariant again.\<close>

theorem rebuild_keeps_searches:
  assumes inv: "kernel_inv st"
  shows "\<exists>st'. rebuild_namespace_lists st = Ok st' \<and>
    search_l2_ns cpu st' query results ns = search_l2_ns cpu st query results ns \<and>
    ((\<forall>i r. get_record st i = Some r \<longrightarrow> \<not> soft_deleted r) \<longrightarrow> kernel_inv st')"
proof -
  obtain st' where run: "rebuild_namespace_lists st = Ok st'" using rebuild_namespace_lists_ok [OF inv] by blast
  with rebuild_search [OF inv run] rebuild_inv [OF inv run] show ?thesis
    by (auto simp: get_record_def)
qed

theorem rebuild_keeps_searches_witness:
  "\<exists>st'. rebuild_namespace_lists demo = Ok st' \<and>
    search_l2_ns Portable st' [0, 0] [sr_default] 1 = search_l2_ns Portable demo [0, 0] [sr_default] 1 \<and>
    ((\<forall>i r. get_record demo i = Some r \<longrightarrow> \<not> soft_deleted r) \<longrightarrow> kernel_inv st')"
  by (rule rebuild_keeps_searches [OF demo_inv])

section \<open>Deleting twice\<close>

text \<open>
  \<open>DeleteRecord\<close> and \<open>SoftDeleteRecord\<close> do not look at the tombstone: on a record that is already
  soft-deleted they unlink once more, by the neighbours it had when it left the list.
\<close>

definition twice_events :: "ns_event list" where
  "twice_events =
     [(0, AutoInsertRecord [1] None 0), (0, AutoInsertRecord [2] None 0), (0, SoftDeleteRecord 1),
      (0, AutoInsertRecord [3] None 0), (0, SoftDeleteRecord 1)]"

definition twice :: KernelState where
  "twice =
     \<lparr>ks_dim = Some 1, ks_version = 5,
      ks_records =
        [Some \<lparr>r_id = 0, r_vector = [1], r_metadata = None, r_tag = 0, r_flags = 0,
               r_namespace_id = 0, r_next_in_ns = NS_LIST_NIL, r_prev_in_ns = NS_LIST_NIL\<rparr>,
         Some \<lparr>r_id = 1, r_vector = [2], r_metadata = None, r_tag = 0, r_flags = FLAG_SOFT_DELETED,
               r_namespace_id = 0, r_next_in_ns = 0, r_prev_in_ns = NS_LIST_NIL\<rparr>,
         Some \<lparr>r_id = 2, r_vector = [3], r_metadata = None, r_tag = 0, r_flags = 0,
               r_namespace_id = 0, r_next_in_ns = 0, r_prev_in_ns = NS_LIST_NIL\<rparr>],
      ks_nodes = [], ks_edges = [], ks_index = BruteForce,
      ks_record_heads = (replicate MAX_NAMESPACES NS_LIST_NIL)[0 := 0],
      ks_encrypted_keys = Map.empty, ks_node_heads = replicate MAX_NAMESPACES NS_LIST_NIL, ks_meta = []\<rparr>"

lemma twice_run: "run twice_events kernel_new = twice"
  by (simp add: twice_events_def twice_def kernel_eval)

text \<open>C27: Deleting a soft-deleted record again loses another record: after five accepted events record 2 is active and in
  namespace 0, but a search of namespace 0 does not reach it.\<close>

theorem double_delete_loses_record:
  "ks_version (run twice_events kernel_new) = 5 \<and>
   (\<exists>r. get_record (run twice_events kernel_new) 2 = Some r \<and> is_active r \<and> r_namespace_id r = 0) \<and>
   search_l2_ns cpu (run twice_events kernel_new) query [sr_default, sr_default] 0
     = Ok (1, [SearchResult (fxp_l2_sq cpu [1] query) 0, sr_worst])"
proof -
  have nil: "(0::u32) \<noteq> NS_LIST_NIL" by (simp add: NS_LIST_NIL_def)
  have "ns_search_loop 0 cpu (ks_records twice) query 2 (0, [sr_worst, sr_worst])
      = Some (1, [SearchResult (fxp_l2_sq cpu [1] query) 0, sr_worst])"
    by (simp add: twice_def ns_search_loop.simps [of 0] ns_search_loop.simps [of NS_LIST_NIL] slot_def is_active_def
        offer_def nil)
  then have "search_l2_ns cpu twice query [sr_default, sr_default] 0
      = Ok (1, [SearchResult (fxp_l2_sq cpu [1] query) 0, sr_worst])"
    by (simp add: search_l2_ns_def max_ns_compare of_loop_def twice_def numeral_2_eq_2)
  then show ?thesis
    by (simp add: twice_run) (simp add: twice_def get_record_def slot_def is_active_def)
qed

end
