(* ===== verification/Snapshot.thy ===== *)
theory Snapshot
  imports Kernel_Rebuild
begin

text \<open>
  \<open>valori-kernel/src/snapshot/encode.rs\<close> and \<open>decode.rs\<close>: the byte format of a kernel state. The decoder
  keeps an offset into its buffer; the model keeps the bytes that are left.
\<close>

section \<open>Encoding\<close>

definition MAGIC :: bytes where "MAGIC = [86, 65, 76, 75]"
definition SCHEMA_VERSION :: u32 where "SCHEMA_VERSION = 7"

definition push_opt :: "u32 option \<Rightarrow> bytes" where
  "push_opt x = (case x of Some i \<Rightarrow> 1 # le32 i | None \<Rightarrow> [0])"

definition encode_header :: "KernelState \<Rightarrow> bytes" where
  "encode_header st =
     MAGIC @ le32 SCHEMA_VERSION @ le64 (ks_version st) @
     le32 (of_nat (length (ks_records st))) @
     le32 (of_nat (case ks_dim st of Some d \<Rightarrow> d | None \<Rightarrow> 0)) @
     le32 (of_nat (length (ks_nodes st))) @ le32 (of_nat (length (ks_edges st))) @ [ACTIVE_FORMAT_ID]"

definition encode_record :: "Record \<Rightarrow> bytes" where
  "encode_record r =
     le32 (r_id r) @ [r_flags r] @ le64 (r_tag r) @ concat (map le32 (r_vector r)) @
     (case r_metadata r of Some m \<Rightarrow> le32 (of_nat (length m)) @ m | None \<Rightarrow> le32 0) @
     le16 (r_namespace_id r) @ le32 (r_next_in_ns r) @ le32 (r_prev_in_ns r)"

definition encode_slot :: "Record option \<Rightarrow> bytes" where
  "encode_slot s = (case s of Some r \<Rightarrow> 1 # encode_record r | None \<Rightarrow> [0])"

definition encode_node :: "GraphNode \<Rightarrow> bytes" where
  "encode_node n =
     le32 (n_id n) @ [node_kind_u8 (n_kind n)] @ push_opt (n_record n) @ push_opt (n_first_out n) @
     push_opt (n_first_in n) @ le16 (n_namespace_id n) @ le32 (n_next_in_ns n) @ le32 (n_prev_in_ns n)"

definition encode_edge :: "GraphEdge \<Rightarrow> bytes" where
  "encode_edge e =
     le32 (e_id e) @ [edge_kind_u8 (e_kind e)] @ le32 (e_from e) @ le32 (e_to e) @
     push_opt (e_next_out e) @ push_opt (e_next_in e)"

definition push_str :: "rust_string \<Rightarrow> bytes" where
  "push_str s = le32 (of_nat (length s)) @ s"

definition encode_state :: "KernelState \<Rightarrow> bytes" where
  "encode_state st =
     encode_header st @
     le32 (of_nat (length (ks_records st))) @ concat (map encode_slot (ks_records st)) @
     le32 (of_nat (live_count (ks_nodes st))) @ concat (map encode_node (live (ks_nodes st))) @
     le32 (of_nat (live_count (ks_edges st))) @ concat (map encode_edge (live (ks_edges st))) @
     concat (map le32 (take MAX_NAMESPACES (ks_record_heads st))) @
     concat (map le32 (take MAX_NAMESPACES (ks_node_heads st))) @
     le32 (of_nat (length (ks_meta st))) @ concat (map (\<lambda>(k, v). push_str k @ push_str v) (ks_meta st))"

section \<open>Reading\<close>

type_synonym 'a reader = "bytes \<Rightarrow> ('a \<times> bytes) kres"

definition read_u8 :: "u8 reader" where
  "read_u8 bs = (case bs of [] \<Rightarrow> Err InvalidOperation | b # r \<Rightarrow> Ok (b, r))"

definition read_flag :: "bool reader" where
  "read_flag bs = res_bind (read_u8 bs) (\<lambda>(b, r).
     if b = 0 then Ok (False, r) else if b = 1 then Ok (True, r) else Err InvalidOperation)"

definition read_le :: "nat \<Rightarrow> nat reader" where
  "read_le n bs = (if length bs < n then Err InvalidOperation else Ok (nat_le (take n bs), drop n bs))"

definition read_u16 :: "u16 reader" where
  "read_u16 bs = res_bind (read_le 2 bs) (\<lambda>(n, r). Ok (of_nat n, r))"

definition read_u32 :: "u32 reader" where
  "read_u32 bs = res_bind (read_le 4 bs) (\<lambda>(n, r). Ok (of_nat n, r))"

definition read_u64 :: "u64 reader" where
  "read_u64 bs = res_bind (read_le 8 bs) (\<lambda>(n, r). Ok (of_nat n, r))"

definition read_i32 :: "i32 reader" where
  "read_i32 bs = res_bind (read_le 4 bs) (\<lambda>(n, r). Ok (of_nat n, r))"

definition read_blob :: "nat \<Rightarrow> nat \<Rightarrow> bytes reader" where
  "read_blob len limit bs =
     (if len > limit then Err InvalidOperation
      else if length bs < len then Err InvalidOperation
      else Ok (take len bs, drop len bs))"

definition read_str :: "nat \<Rightarrow> rust_string reader" where
  "read_str limit bs = res_bind (read_u32 bs) (\<lambda>(len, r). res_bind (read_blob (unat len) limit r) (\<lambda>(s, r).
     if utf8_valid s then Ok (s, r) else Err InvalidOperation))"

definition read_opt_edge :: "EdgeId option reader" where
  "read_opt_edge bs = res_bind (read_flag bs) (\<lambda>(f, r).
     if f then res_bind (read_u32 r) (\<lambda>(i, r). Ok (Some i, r)) else Ok (None, r))"

fun read_many :: "'a reader \<Rightarrow> nat \<Rightarrow> 'a list reader" where
  "read_many rd 0 bs = Ok ([], bs)"
| "read_many rd (Suc n) bs =
     res_bind (rd bs) (\<lambda>(x, r). res_bind (read_many rd n r) (\<lambda>(xs, r). Ok (x # xs, r)))"

section \<open>Decoding\<close>

text \<open>The header: schema version, kernel version and dimension.\<close>

definition decode_header :: "(u32 \<times> u64 \<times> nat) reader" where
  "decode_header bs =
     (if length bs < 4 then Err InvalidOperation
      else if take 4 bs \<noteq> MAGIC then Err InvalidOperation
      else res_bind (read_u32 (drop 4 bs)) (\<lambda>(v, r).
        if unat v < 1 \<or> unat v > 7 then Err InvalidOperation
        else res_bind (read_u64 r) (\<lambda>(version, r).
        res_bind (read_u32 r) (\<lambda>(_, r). res_bind (read_u32 r) (\<lambda>(dim, r).
        res_bind (read_u32 r) (\<lambda>(_, r). res_bind (read_u32 r) (\<lambda>(_, r).
        res_bind (if unat v \<ge> 5
                  then res_bind (read_u8 r) (\<lambda>(f, r). if f \<noteq> ACTIVE_FORMAT_ID then Err InvalidOperation else Ok r)
                  else Ok r) (\<lambda>r.
        if unat dim > MAX_DIM then Err InvalidOperation else Ok ((v, version, unat dim), r)))))))))"

text \<open>The namespace and the two links of a record or node, absent before version 6.\<close>

definition decode_links :: "u32 \<Rightarrow> (u16 \<times> u32 \<times> u32) reader" where
  "decode_links v bs =
     (if unat v \<ge> 6
      then res_bind (read_u16 bs) (\<lambda>(ns, r).
        if unat ns \<ge> MAX_NAMESPACES then Err InvalidOperation
        else res_bind (read_u32 r) (\<lambda>(nxt, r). res_bind (read_u32 r) (\<lambda>(prv, r). Ok ((ns, nxt, prv), r))))
      else Ok ((0, NS_LIST_NIL, NS_LIST_NIL), bs))"

definition decode_metadata :: "u32 \<Rightarrow> bytes option reader" where
  "decode_metadata v bs =
     (if unat v \<ge> 2
      then res_bind (read_u32 bs) (\<lambda>(len, r).
        if unat len > 0 then res_bind (read_blob (unat len) MAX_METADATA_SIZE r) (\<lambda>(m, r). Ok (Some m, r))
        else Ok (None, r))
      else Ok (None, bs))"

definition decode_record :: "u32 \<Rightarrow> nat \<Rightarrow> nat \<Rightarrow> Record option reader" where
  "decode_record v dim i bs =
     res_bind (read_flag bs) (\<lambda>(present, r).
     if \<not> present then Ok (None, r)
     else res_bind (read_u32 r) (\<lambda>(id_val, r).
       if unat id_val \<noteq> i then Err InvalidOperation
       else res_bind (read_u8 r) (\<lambda>(flags, r).
       res_bind (if unat v \<ge> 3 then read_u64 r else Ok (0, r)) (\<lambda>(tag, r).
       if length r < dim * 4 then Err InvalidOperation
       else res_bind (read_many read_i32 dim r) (\<lambda>(vec, r).
       res_bind (decode_metadata v r) (\<lambda>(md, r).
       res_bind (decode_links v r) (\<lambda>((ns, nxt, prv), r).
       Ok (Some \<lparr>r_id = of_nat i, r_vector = vec, r_metadata = md, r_tag = tag, r_flags = flags,
                 r_namespace_id = ns, r_next_in_ns = nxt, r_prev_in_ns = prv\<rparr>, r))))))))"

fun decode_records :: "u32 \<Rightarrow> nat \<Rightarrow> nat \<Rightarrow> nat \<Rightarrow> Record option list reader" where
  "decode_records v dim i 0 bs = Ok ([], bs)"
| "decode_records v dim i (Suc n) bs =
     res_bind (decode_record v dim i bs) (\<lambda>(s, r).
     res_bind (decode_records v dim (Suc i) n r) (\<lambda>(ss, r). Ok (s # ss, r)))"

definition decode_node :: "u32 \<Rightarrow> RecordPool \<Rightarrow> nat \<Rightarrow> (nat \<times> GraphNode) reader" where
  "decode_node v recs cnt bs =
     res_bind (read_u32 bs) (\<lambda>(id_val, r).
     if unat id_val \<ge> cnt then Err InvalidOperation
     else res_bind (read_u8 r) (\<lambda>(k, r).
     case node_kind_from_u8 k of None \<Rightarrow> Err InvalidOperation | Some kind \<Rightarrow>
     res_bind (read_flag r) (\<lambda>(f, r).
     res_bind (if f then res_bind (read_u32 r) (\<lambda>(i, r). Ok (Some i, r)) else Ok (None, r)) (\<lambda>(rec, r).
     res_bind (read_opt_edge r) (\<lambda>(first_out, r).
     res_bind (if unat v \<ge> 4 then read_opt_edge r else Ok (None, r)) (\<lambda>(first_in, r).
     res_bind (decode_links v r) (\<lambda>((ns, nxt, prv), r).
     if (case rec of Some rid \<Rightarrow> unat rid \<ge> length recs \<or> recs ! unat rid = None | None \<Rightarrow> False)
     then Err InvalidOperation
     else Ok ((unat id_val,
               \<lparr>n_id = of_nat (unat id_val), n_kind = kind, n_record = rec, n_first_out = first_out,
                n_first_in = first_in, n_namespace_id = ns, n_next_in_ns = nxt, n_prev_in_ns = prv\<rparr>), r))))))))"

text \<open>The loop over the entries of a pool: each entry is written at the index it names.\<close>

fun decode_pool :: "(nat \<times> 'a) reader \<Rightarrow> nat \<Rightarrow> 'a option list \<Rightarrow> 'a option list reader" where
  "decode_pool rd 0 pool bs = Ok (pool, bs)"
| "decode_pool rd (Suc n) pool bs =
     res_bind (rd bs) (\<lambda>((i, x), r). decode_pool rd n (pool[i := Some x]) r)"

definition decode_nodes :: "u32 \<Rightarrow> RecordPool \<Rightarrow> nat \<Rightarrow> NodePool reader" where
  "decode_nodes v recs cnt bs = decode_pool (decode_node v recs cnt) cnt (replicate cnt None) bs"

definition decode_edge :: "u32 \<Rightarrow> NodePool \<Rightarrow> nat \<Rightarrow> (nat \<times> GraphEdge) reader" where
  "decode_edge v nds cnt bs =
     res_bind (read_u32 bs) (\<lambda>(id_val, r).
     if unat id_val \<ge> cnt then Err InvalidOperation
     else res_bind (read_u8 r) (\<lambda>(k, r).
     case edge_kind_from_u8 k of None \<Rightarrow> Err InvalidOperation | Some kind \<Rightarrow>
     res_bind (read_u32 r) (\<lambda>(a, r). res_bind (read_u32 r) (\<lambda>(b, r).
     if unat a \<ge> length nds \<or> nds ! unat a = None then Err InvalidOperation
     else if unat b \<ge> length nds \<or> nds ! unat b = None then Err InvalidOperation
     else res_bind (read_opt_edge r) (\<lambda>(next_out, r).
     res_bind (if unat v \<ge> 4 then read_opt_edge r else Ok (None, r)) (\<lambda>(next_in, r).
     Ok ((unat id_val, \<lparr>e_id = of_nat (unat id_val), e_kind = kind, e_from = a, e_to = b,
                        e_next_out = next_out, e_next_in = next_in\<rparr>), r)))))))"

definition decode_edges :: "u32 \<Rightarrow> NodePool \<Rightarrow> nat \<Rightarrow> EdgePool reader" where
  "decode_edges v nds cnt bs = decode_pool (decode_edge v nds cnt) cnt (replicate cnt None) bs"

text \<open>Snapshots before version 4 have no incoming lists: they are rebuilt edge by edge.\<close>

definition restore_incoming :: "EdgeId \<times> NodeId \<Rightarrow> NodePool \<times> EdgePool \<Rightarrow> NodePool \<times> EdgePool" where
  "restore_incoming p g =
     (let head = Option.bind (slot (fst g) (snd p)) n_first_in in
      (upd_slot (set_first_in (Some (fst p))) (snd p) (fst g), upd_slot (set_next_in head) (fst p) (snd g)))"

definition restore_all_incoming :: "NodePool \<times> EdgePool \<Rightarrow> NodePool \<times> EdgePool" where
  "restore_all_incoming g = fold restore_incoming (map (\<lambda>e. (e_id e, e_to e)) (live (snd g))) g"

definition read_head :: "nat \<Rightarrow> u32 reader" where
  "read_head cnt bs = res_bind (read_u32 bs) (\<lambda>(h, r).
     if h \<noteq> NS_LIST_NIL \<and> unat h \<ge> cnt then Err InvalidOperation else Ok (h, r))"

fun decode_meta :: "nat \<Rightarrow> meta_map \<Rightarrow> meta_map reader" where
  "decode_meta 0 m bs = Ok (m, bs)"
| "decode_meta (Suc n) m bs =
     res_bind (read_str MAX_METADATA_SIZE bs) (\<lambda>(k, r).
     res_bind (read_str MAX_METADATA_SIZE r) (\<lambda>(val, r). decode_meta n (btree_insert k val m) r))"

text \<open>A pool's cnt: bounded by the configuration and by the bytes that are left.\<close>

definition read_count :: "nat \<Rightarrow> nat reader" where
  "read_count limit bs = res_bind (read_u32 bs) (\<lambda>(n, r).
     if unat n > limit then Err InvalidOperation
     else if unat n > length r then Err InvalidOperation else Ok (unat n, r))"

definition decode_heads :: "u32 \<Rightarrow> KernelState \<Rightarrow> KernelState reader" where
  "decode_heads v st bs =
     (if unat v \<ge> 6
      then res_bind (read_many (read_head (length (ks_records st))) MAX_NAMESPACES bs) (\<lambda>(rh, r).
        res_bind (read_many (read_head (length (ks_nodes st))) MAX_NAMESPACES r) (\<lambda>(nh, r).
        Ok (st\<lparr>ks_record_heads := rh, ks_node_heads := nh\<rparr>, r)))
      else res_bind (rebuild_namespace_lists st) (\<lambda>st. Ok (st, bs)))"

definition decode_state :: "bytes \<Rightarrow> KernelState kres" where
  "decode_state buf =
     res_bind (decode_header buf) (\<lambda>((v, version, dim), r).
     res_bind (read_count MAX_RECORDS r) (\<lambda>(total_slots, r).
     res_bind (decode_records v dim 0 total_slots r) (\<lambda>(recs, r).
     res_bind (read_count MAX_NODES r) (\<lambda>(node_count, r).
     res_bind (decode_nodes v recs node_count r) (\<lambda>(nds, r).
     res_bind (read_count MAX_EDGES r) (\<lambda>(edge_count, r).
     res_bind (decode_edges v nds edge_count r) (\<lambda>(es, r).
     let (nds, es) = (if unat v < 4 then restore_all_incoming (nds, es) else (nds, es));
         st = kernel_new\<lparr>ks_version := version, ks_dim := (if dim > 0 then Some dim else None),
                         ks_records := recs, ks_nodes := nds, ks_edges := es\<rparr> in
     res_bind (decode_heads v st r) (\<lambda>(st, r).
     if unat v \<ge> 7
     then res_bind (read_u32 r) (\<lambda>(n, r).
       if unat n > MAX_META_ENTRIES then Err InvalidOperation
       else res_bind (decode_meta (unat n) [] r) (\<lambda>(m, r). Ok (st\<lparr>ks_meta := m\<rparr>)))
     else Ok st))))))))"

end
