(* ===== verification/Snapshot_Props.thy ===== *)
theory Snapshot_Props
  imports Snapshot
begin

text \<open>
  Reading back what was written, piece by piece, and the state a snapshot restores.
\<close>

section \<open>Readers\<close>

lemma read_u8_Cons [simp]: "read_u8 (b # r) = Ok (b, r)"
  by (simp add: read_u8_def)

lemma read_flag_Cons [simp]: "read_flag (0 # r) = Ok (False, r)" "read_flag (1 # r) = Ok (True, r)"
  by (simp_all add: read_flag_def)

lemma read_words [simp]:
  "read_u16 (le16 a @ r) = Ok (a, r)" "read_u32 (le32 b @ r) = Ok (b, r)"
  "read_u64 (le64 c @ r) = Ok (c, r)" "read_i32 (le32 d @ r) = Ok (d, r)"
  by (simp_all add: read_u16_def read_u32_def read_u64_def read_i32_def read_le_def nat_le_inverse)

lemma read_opt_edge_push [simp]: "read_opt_edge (push_opt x @ r) = Ok (x, r)"
  by (cases x) (simp_all add: read_opt_edge_def push_opt_def)

lemma read_blob_append [simp]: "length m \<le> limit \<Longrightarrow> read_blob (length m) limit (m @ r) = Ok (m, r)"
  by (simp add: read_blob_def)

lemma read_str_push:
  assumes "length s \<le> limit" "limit < 2 ^ 32" "utf8_valid s"
  shows "read_str limit (push_str s @ r) = Ok (s, r)"
proof -
  have "unat (of_nat (length s) :: u32) = length s" using assms by (intro unat_of_nat_len) simp
  then show ?thesis using assms by (simp add: read_str_def push_str_def)
qed

lemma read_many_concat:
  assumes "\<And>x r. x \<in> set xs \<Longrightarrow> rd (enc x @ r) = Ok (x, r)"
  shows "read_many rd (length xs) (concat (map enc xs) @ r) = Ok (xs, r)"
  using assms
proof (induction xs)
  case (Cons x xs)
  then have "rd (enc x @ s) = Ok (x, s)" for s by simp
  then show ?case using Cons by simp
qed simp

lemma read_count_le32:
  assumes "n \<le> limit" "limit < 2 ^ 32" "n \<le> length r"
  shows "read_count limit (le32 (of_nat n) @ r) = Ok (n, r)"
proof -
  have "unat (of_nat n :: u32) = n" using assms by (intro unat_of_nat_len) simp
  then show ?thesis using assms by (simp add: read_count_def)
qed

section \<open>Records\<close>

definition record_fits :: "nat \<Rightarrow> nat \<Rightarrow> Record \<Rightarrow> bool" where
  "record_fits dim i r \<longleftrightarrow> unat (r_id r) = i \<and> length (r_vector r) = dim \<and>
     unat (r_namespace_id r) < MAX_NAMESPACES \<and>
     (case r_metadata r of Some m \<Rightarrow> m \<noteq> [] \<and> length m \<le> MAX_METADATA_SIZE | None \<Rightarrow> True)"

lemma unat_small: "n \<le> MAX_METADATA_SIZE \<Longrightarrow> unat (of_nat n :: u32) = n"
  by (intro unat_of_nat_len) (simp add: MAX_METADATA_SIZE_def)

lemma decode_metadata_encode:
  assumes "case md of Some m \<Rightarrow> m \<noteq> [] \<and> length m \<le> MAX_METADATA_SIZE | None \<Rightarrow> True"
  shows "decode_metadata 7 ((case md of Some m \<Rightarrow> le32 (of_nat (length m)) @ m | None \<Rightarrow> le32 0) @ r) = Ok (md, r)"
proof (cases md)
  case (Some m)
  then show ?thesis using assms unat_small [of "length m"] by (simp add: decode_metadata_def)
qed (simp add: decode_metadata_def)

lemma decode_links_encode:
  "unat ns < MAX_NAMESPACES \<Longrightarrow> decode_links 7 (le16 ns @ le32 a @ le32 b @ r) = Ok ((ns, a, b), r)"
  by (simp add: decode_links_def not_le)

lemma length_concat_le32 [simp]: "length (concat (map le32 xs)) = 4 * length xs"
  by (induction xs) simp_all

lemma decode_record_encode:
  assumes "\<And>rec. s = Some rec \<Longrightarrow> record_fits dim i rec"
  shows "decode_record 7 dim i (encode_slot s @ r) = Ok (s, r)"
proof (cases s)
  case None
  then show ?thesis by (simp add: decode_record_def encode_slot_def)
next
  case (Some rec)
  then have fits: "record_fits dim i rec" using assms by simp
  then have id: "of_nat i = r_id rec" by (auto simp: record_fits_def)
  have vec: "read_many read_i32 dim (concat (map le32 (r_vector rec)) @ t) = Ok (r_vector rec, t)" for t
    using read_many_concat [of "r_vector rec" read_i32 le32 t] fits by (simp add: record_fits_def)
  show ?thesis
    using fits id by (simp add: decode_record_def encode_slot_def encode_record_def Some record_fits_def vec
        decode_metadata_encode decode_links_encode)
qed

lemma decode_records_encode:
  assumes "\<And>j rec. j < length recs \<Longrightarrow> recs ! j = Some rec \<Longrightarrow> record_fits dim (i + j) rec"
  shows "decode_records 7 dim i (length recs) (concat (map encode_slot recs) @ r) = Ok (recs, r)"
  using assms
proof (induction recs arbitrary: i)
  case (Cons s recs)
  have "decode_record 7 dim i (encode_slot s @ t) = Ok (s, t)" for t
    using Cons.prems [of 0] by (intro decode_record_encode) simp
  moreover have "decode_records 7 dim (Suc i) (length recs) (concat (map encode_slot recs) @ r) = Ok (recs, r)"
    using Cons.prems [of "Suc _"] by (intro Cons.IH) simp
  ultimately show ?case by simp
qed simp

section \<open>Pools\<close>

lemma decode_pool_good:
  assumes "\<And>x r. x \<in> set xs \<Longrightarrow> rd (enc x @ r) = Ok ((idx x, x), r)"
  shows "decode_pool rd (length xs) pool (concat (map enc xs) @ r) = Ok (fold (\<lambda>x p. p[idx x := Some x]) xs pool, r)"
  using assms
proof (induction xs arbitrary: pool)
  case (Cons x xs)
  then have "rd (enc x @ s) = Ok ((idx x, x), s)" for s by simp
  then show ?case using Cons by simp
qed simp

lemma decode_pool_bad:
  assumes "\<And>x r. x \<in> set xs \<Longrightarrow> rd (enc x @ r) = (if bad x then Err e else Ok ((idx x, x), r))" "\<exists>x \<in> set xs. bad x"
  shows "decode_pool rd (length xs) pool (concat (map enc xs) @ r) = Err e"
  using assms
proof (induction xs arbitrary: pool)
  case (Cons x xs)
  then have "rd (enc x @ s) = (if bad x then Err e else Ok ((idx x, x), s))" for s by simp
  then show ?case using Cons by (cases "bad x") simp_all
qed simp

lemma fold_writes:
  assumes "map idx xs = [length ys..<length ys + length xs]"
  shows "fold (\<lambda>x p. p[idx x := Some x]) xs (map Some ys @ replicate (length xs) None) = map Some (ys @ xs)"
  using assms
proof (induction xs arbitrary: ys)
  case (Cons x xs)
  have "idx x = length ys" "map idx xs = [length (ys @ [x])..<length (ys @ [x]) + length xs]"
    using Cons.prems by (simp_all add: upt_conv_Cons del: upt_Suc)
  then show ?case using Cons.IH [of "ys @ [x]"] by (simp add: list_update_append)
qed simp

text \<open>The live entries of a pool whose entries know their slot, in slot order.\<close>

lemma live_indices:
  assumes "\<And>j a. j < length xs \<Longrightarrow> xs ! j = Some a \<Longrightarrow> idx a = k + j"
  shows "map idx (live xs) = filter (\<lambda>j. xs ! (j - k) \<noteq> None) [k..<k + length xs]"
  using assms
proof (induction xs arbitrary: k)
  case (Cons x xs)
  have "map idx (live xs) = filter (\<lambda>j. xs ! (j - Suc k) \<noteq> None) [Suc k..<Suc k + length xs]"
    using Cons.prems [of "Suc _"] by (intro Cons.IH) simp
  also have "\<dots> = filter (\<lambda>j. (x # xs) ! (j - k) \<noteq> None) [Suc k..<Suc k + length xs]"
    by (intro filter_cong) (auto simp: nth_Cons' Suc_diff_Suc diff_Suc)
  finally have tl: "map idx (live xs) = filter (\<lambda>j. (x # xs) ! (j - k) \<noteq> None) [Suc k..<Suc k + length xs]" .
  moreover have "idx a = k" if "x = Some a" for a using Cons.prems [of 0 a] that by simp
  moreover have "[k..<k + length (x # xs)] = k # [Suc k..<Suc k + length xs]" by (simp add: upt_conv_Cons del: upt_Suc)
  ultimately show ?case by (cases x) simp_all
qed simp

lemma dense_indices:
  assumes ids: "\<And>j a. j < length xs \<Longrightarrow> xs ! j = Some a \<Longrightarrow> idx a = j"
    and dense: "\<And>a. a \<in> set (live xs) \<Longrightarrow> idx a < length (live xs)"
  shows "map idx (live xs) = [0..<length (live xs)]"
proof (rule sorted_distinct_set_unique)
  have eq: "map idx (live xs) = filter (\<lambda>j. xs ! j \<noteq> None) [0..<length xs]"
    using live_indices [of xs idx 0] ids by simp
  show "sorted (map idx (live xs))" unfolding eq by (rule sorted_wrt_filter) simp
  show dist: "distinct (map idx (live xs))" unfolding eq by simp
  have "set (map idx (live xs)) \<subseteq> {0..<length (live xs)}" using dense by auto
  moreover have "card (set (map idx (live xs))) = length (live xs)" using distinct_card [OF dist] by simp
  ultimately have "set (map idx (live xs)) = {0..<length (live xs)}" by (intro card_subset_eq) simp_all
  then show "set (map idx (live xs)) = set [0..<length (live xs)]" by simp
qed simp_all

lemma decode_pool_dense:
  assumes rd: "\<And>x r. x \<in> set (live xs) \<Longrightarrow> rd (enc x @ r) = Ok ((idx x, x), r)"
    and ids: "\<And>j a. j < length xs \<Longrightarrow> xs ! j = Some a \<Longrightarrow> idx a = j"
    and dense: "\<And>a. a \<in> set (live xs) \<Longrightarrow> idx a < length (live xs)"
  shows "decode_pool rd (length (live xs)) (replicate (length (live xs)) None) (concat (map enc (live xs)) @ r)
    = Ok (map Some (live xs), r)"
  using decode_pool_good [of "live xs" rd enc idx, OF rd] fold_writes [of idx "live xs" "[]"] dense_indices [OF ids dense]
  by simp

section \<open>Nodes and edges\<close>

definition dangling :: "RecordPool \<Rightarrow> GraphNode \<Rightarrow> bool" where
  "dangling recs n \<longleftrightarrow> (\<exists>rid. n_record n = Some rid \<and> slot recs rid = None)"

lemma decode_node_encode:
  assumes "unat (n_namespace_id n) < MAX_NAMESPACES"
  shows "decode_node 7 recs cnt (encode_node n @ r)
    = (if unat (n_id n) \<ge> cnt \<or> dangling recs n then Err InvalidOperation else Ok ((unat (n_id n), n), r))"
proof -
  have "(case n_record n of Some rid \<Rightarrow> unat rid \<ge> length recs \<or> recs ! unat rid = None | None \<Rightarrow> False) = dangling recs n"
    by (auto simp: dangling_def slot_def split: option.splits)
  then show ?thesis
    using assms by (cases "n_record n")
      (simp_all add: decode_node_def encode_node_def node_kind_roundtrip decode_links_encode push_opt_def [of "n_record n"]
        push_opt_def [of None] push_opt_def [of "Some _"])
qed

lemma decode_edge_encode:
  "decode_edge 7 nds cnt (encode_edge e @ r)
    = (if unat (e_id e) \<ge> cnt \<or> slot nds (e_from e) = None \<or> slot nds (e_to e) = None then Err InvalidOperation
       else Ok ((unat (e_id e), e), r))"
  by (auto simp: decode_edge_def encode_edge_def edge_kind_roundtrip slot_def not_le)

section \<open>Metadata, heads and header\<close>

definition text_fits :: "rust_string \<Rightarrow> bool" where
  "text_fits s \<longleftrightarrow> length s \<le> MAX_METADATA_SIZE \<and> utf8_valid s"

lemma read_str_fits: "text_fits s \<Longrightarrow> read_str MAX_METADATA_SIZE (push_str s @ r) = Ok (s, r)"
  by (intro read_str_push) (simp_all add: text_fits_def MAX_METADATA_SIZE_def)

lemma btree_insert_last: "\<forall>k' \<in> set (map fst m). k' < k \<Longrightarrow> btree_insert k v m = m @ [(k, v)]"
  by (induction k v m rule: btree_insert.induct) (auto simp: order_less_not_sym)

lemma decode_meta_encode:
  assumes "btree_ok (acc @ m)" "\<And>k v. (k, v) \<in> set m \<Longrightarrow> text_fits k \<and> text_fits v"
  shows "decode_meta (length m) acc (concat (map (\<lambda>(k, v). push_str k @ push_str v) m) @ r) = Ok (acc @ m, r)"
  using assms
proof (induction m arbitrary: acc)
  case (Cons p m)
  obtain k v where p: "p = (k, v)" by fastforce
  then have fits: "text_fits k" "text_fits v" using Cons.prems(2) by auto
  have "btree_insert k v acc = acc @ [(k, v)]"
    using Cons.prems(1) by (intro btree_insert_last) (auto simp: btree_ok_def p sorted_wrt_append)
  moreover have "decode_meta (length m) (acc @ [(k, v)]) (concat (map (\<lambda>(k, v). push_str k @ push_str v) m) @ r)
      = Ok ((acc @ [(k, v)]) @ m, r)"
    using Cons.prems by (intro Cons.IH) (auto simp: p)
  ultimately show ?case using fits by (simp add: p read_str_fits)
qed simp

lemma read_heads:
  assumes "length hs = MAX_NAMESPACES" "\<And>h. h \<in> set hs \<Longrightarrow> h = NS_LIST_NIL \<or> unat h < cnt"
  shows "read_many (read_head cnt) MAX_NAMESPACES (concat (map le32 hs) @ r) = Ok (hs, r)"
proof -
  have "read_head cnt (le32 h @ t) = Ok (h, t)" if "h \<in> set hs" for h t
    using assms(2) [OF that] by (auto simp: read_head_def)
  then show ?thesis using read_many_concat [of hs "read_head cnt" le32 r] assms(1) by simp
qed

definition dim_value :: "KernelState \<Rightarrow> nat" where
  "dim_value st = (case ks_dim st of Some d \<Rightarrow> d | None \<Rightarrow> 0)"

lemma decode_header_encode:
  assumes "dim_value st \<le> MAX_DIM"
  shows "decode_header (encode_header st @ r) = Ok ((7, ks_version st, dim_value st), r)"
proof -
  have "unat (of_nat (dim_value st) :: u32) = dim_value st"
    using assms by (intro unat_of_nat_len) (simp add: MAX_DIM_def)
  then show ?thesis
    using assms by (simp add: decode_header_def encode_header_def MAGIC_def SCHEMA_VERSION_def dim_value_def)
qed

section \<open>The restored state\<close>

text \<open>Limits the decoder enforces and the encoder does not; and pools without holes.\<close>

definition snapshot_fits :: "KernelState \<Rightarrow> bool" where
  "snapshot_fits st \<longleftrightarrow>
     ks_dim st \<noteq> Some 0 \<and> dim_value st \<le> MAX_DIM \<and> length (ks_records st) \<le> MAX_RECORDS \<and>
     live_count (ks_nodes st) \<le> MAX_NODES \<and> live_count (ks_edges st) \<le> MAX_EDGES \<and>
     length (ks_meta st) \<le> MAX_META_ENTRIES \<and>
     (\<forall>r \<in> set (live (ks_records st)). case r_metadata r of Some m \<Rightarrow> m \<noteq> [] \<and> length m \<le> MAX_METADATA_SIZE | None \<Rightarrow> True) \<and>
     (\<forall>p \<in> set (ks_meta st). text_fits (fst p) \<and> text_fits (snd p))"

definition dense_nodes :: "KernelState \<Rightarrow> bool" where
  "dense_nodes st \<longleftrightarrow> (\<forall>n \<in> set (live (ks_nodes st)). unat (n_id n) < live_count (ks_nodes st) \<and> \<not> dangling (ks_records st) n)"

definition dense_edges :: "KernelState \<Rightarrow> bool" where
  "dense_edges st \<longleftrightarrow> (\<forall>e \<in> set (live (ks_edges st)). unat (e_id e) < live_count (ks_edges st))"

definition restored :: "KernelState \<Rightarrow> KernelState" where
  "restored st = st\<lparr>ks_nodes := map Some (live (ks_nodes st)), ks_edges := map Some (live (ks_edges st)),
     ks_index := BruteForce, ks_encrypted_keys := Map.empty\<rparr>"

lemma records_fit:
  assumes inv: "kernel_inv st" and fits: "snapshot_fits st"
    and j: "j < length (ks_records st)" "ks_records st ! j = Some r"
  shows "record_fits (dim_value st) (0 + j) r"
proof -
  note R = kernel_invD(1) [OF inv]
  have "j < 2 ^ 32" using R j by (simp add: recs_ok_def)
  then have s: "slot (ks_records st) (of_nat j) = Some r" "unat (of_nat j :: u32) = j"
    using j by (simp_all add: slot_nth unat_of_nat_len)
  then have "r \<in> set (live (ks_records st))" using R by (auto simp: set_live_slot recs_ok_def)
  then show ?thesis
    using recs_okD [OF R s(1)] s(2) fits by (auto simp: record_fits_def rec_ok_def dim_value_def snapshot_fits_def)
qed

lemma length_concat_ge: "(\<And>x. enc x \<noteq> []) \<Longrightarrow> length xs \<le> length (concat (map enc xs))"
proof (induction xs)
  case (Cons x xs)
  have "1 \<le> length (enc x)" using Cons.prems [of x] by (cases "enc x") simp_all
  then show ?case using Cons.IH [OF Cons.prems] by simp
qed simp

lemma length_encode_slots: "length recs \<le> length (concat (map encode_slot recs))"
  by (rule length_concat_ge) (simp add: encode_slot_def split: option.split)

text \<open>The decoder up to the node section, and the rest of it.\<close>

definition decode_after_nodes :: "KernelState \<Rightarrow> NodePool \<Rightarrow> bytes \<Rightarrow> KernelState kres" where
  "decode_after_nodes st nds r =
     res_bind (read_count MAX_EDGES r) (\<lambda>(edge_count, r).
     res_bind (decode_edges 7 nds edge_count r) (\<lambda>(es, r).
     res_bind (decode_heads 7 (kernel_new\<lparr>ks_version := ks_version st, ks_dim := ks_dim st,
         ks_records := ks_records st, ks_nodes := nds, ks_edges := es\<rparr>) r) (\<lambda>(st, r).
     res_bind (read_u32 r) (\<lambda>(n, r).
       if unat n > MAX_META_ENTRIES then Err InvalidOperation
       else res_bind (decode_meta (unat n) [] r) (\<lambda>(m, r). Ok (st\<lparr>ks_meta := m\<rparr>))))))"

lemma decode_state_nodes:
  assumes inv: "kernel_inv st" and fits: "snapshot_fits st"
  shows "decode_state (encode_header st @ le32 (of_nat (length (ks_records st))) @ concat (map encode_slot (ks_records st)) @ r)
    = res_bind (read_count MAX_NODES r) (\<lambda>(node_count, r).
      res_bind (decode_nodes 7 (ks_records st) node_count r) (\<lambda>(nds, r). decode_after_nodes st nds r))"
proof -
  have "read_count MAX_RECORDS (le32 (of_nat (length (ks_records st))) @ concat (map encode_slot (ks_records st)) @ r)
      = Ok (length (ks_records st), concat (map encode_slot (ks_records st)) @ r)"
    using fits length_encode_slots [of "ks_records st"]
    by (intro read_count_le32) (simp_all add: snapshot_fits_def MAX_RECORDS_def)
  moreover have "decode_records 7 (dim_value st) 0 (length (ks_records st)) (concat (map encode_slot (ks_records st)) @ r)
      = Ok (ks_records st, r)"
    by (rule decode_records_encode) (rule records_fit [OF inv fits])
  moreover have "(if dim_value st > 0 then Some (dim_value st) else None) = ks_dim st"
    using fits by (auto simp: dim_value_def snapshot_fits_def split: option.splits)
  moreover have "dim_value st \<le> MAX_DIM" using fits by (simp add: snapshot_fits_def)
  ultimately show ?thesis
    by (simp add: decode_state_def decode_header_encode decode_after_nodes_def)
qed

section \<open>Restoring\<close>

lemma node_index:
  assumes "kernel_inv st" "j < length (ks_nodes st)" "ks_nodes st ! j = Some n"
  shows "unat (n_id n) = j" "unat (n_namespace_id n) < MAX_NAMESPACES"
proof -
  have "j < 2 ^ 32" using kernel_invD(2) [OF assms(1)] assms(2) by (simp add: nodes_ok_def)
  then have s: "slot (ks_nodes st) (of_nat j) = Some n" "unat (of_nat j :: u32) = j"
    using assms by (simp_all add: slot_nth unat_of_nat_len)
  then show "unat (n_id n) = j" "unat (n_namespace_id n) < MAX_NAMESPACES"
    using kernel_invD(2,3) [OF assms(1)] by (auto simp: graph_inv_def nodes_ok_def)
qed

lemma edge_index:
  assumes "kernel_inv st" "j < length (ks_edges st)" "ks_edges st ! j = Some e"
  shows "unat (e_id e) = j"
proof -
  have "j < 2 ^ 32" using kernel_invD(4) [OF assms(1)] assms(2) by simp
  then have s: "slot (ks_edges st) (of_nat j) = Some e" "unat (of_nat j :: u32) = j"
    using assms by (simp_all add: slot_nth unat_of_nat_len)
  then show ?thesis using kernel_invD(3) [OF assms(1)] by (simp add: graph_inv_def)
qed

lemma live_nthE:
  assumes "a \<in> set (live xs)"
  obtains j where "j < length xs" "xs ! j = Some a"
  using assms by (auto simp: set_live in_set_conv_nth)

lemma live_nodes_ns: "kernel_inv st \<Longrightarrow> n \<in> set (live (ks_nodes st)) \<Longrightarrow> unat (n_namespace_id n) < MAX_NAMESPACES"
  using node_index by (metis live_nthE)

lemma decode_nodes_dense:
  assumes inv: "kernel_inv st" and dense: "dense_nodes st"
  shows "decode_nodes 7 (ks_records st) (live_count (ks_nodes st)) (concat (map encode_node (live (ks_nodes st))) @ r)
    = Ok (map Some (live (ks_nodes st)), r)"
  unfolding decode_nodes_def live_count_live
  by (rule decode_pool_dense [where idx = "\<lambda>n. unat (n_id n)"])
    (use dense live_nodes_ns [OF inv] in \<open>auto simp: decode_node_encode dense_nodes_def live_count_live node_index(1) [OF inv]\<close>)

lemma decode_nodes_rejects:
  assumes inv: "kernel_inv st" and sparse: "\<not> dense_nodes st"
  shows "decode_nodes 7 (ks_records st) (live_count (ks_nodes st)) (concat (map encode_node (live (ks_nodes st))) @ r)
    = Err InvalidOperation"
  unfolding decode_nodes_def live_count_live
  by (rule decode_pool_bad [where idx = "\<lambda>n. unat (n_id n)"
      and bad = "\<lambda>n. unat (n_id n) \<ge> length (live (ks_nodes st)) \<or> dangling (ks_records st) n"])
    (use sparse live_nodes_ns [OF inv] in \<open>auto simp: decode_node_encode dense_nodes_def live_count_live not_less\<close>)

lemma dense_slot:
  assumes inv: "kernel_inv st" and dense: "dense_nodes st" and s: "slot (ks_nodes st) i = Some n"
  shows "unat i < live_count (ks_nodes st)"
proof -
  have "n \<in> set (live (ks_nodes st))" "n_id n = i"
    using s kernel_invD(2,3) [OF inv] by (auto simp: set_live_slot nodes_ok_def graph_inv_def)
  then show ?thesis using dense by (auto simp: dense_nodes_def)
qed

lemma live_edges_ends:
  assumes inv: "kernel_inv st" and dense: "dense_nodes st" and e: "e \<in> set (live (ks_edges st))"
  shows "slot (map Some (live (ks_nodes st))) (e_from e) \<noteq> None" "slot (map Some (live (ks_nodes st))) (e_to e) \<noteq> None"
proof -
  obtain x where "slot (ks_edges st) x = Some e" using e kernel_invD(4) [OF inv] by (auto simp: set_live_slot)
  then have "slot (ks_nodes st) (e_from e) \<noteq> None" "slot (ks_nodes st) (e_to e) \<noteq> None"
    using graph_inv_edgeD [OF kernel_invD(3) [OF inv]] by auto
  then show "slot (map Some (live (ks_nodes st))) (e_from e) \<noteq> None" "slot (map Some (live (ks_nodes st))) (e_to e) \<noteq> None"
    using dense_slot [OF inv dense] by (auto simp: slot_def live_count_live)
qed

lemma decode_edges_dense:
  assumes inv: "kernel_inv st" and dense: "dense_nodes st" "dense_edges st"
  shows "decode_edges 7 (map Some (live (ks_nodes st))) (live_count (ks_edges st)) (concat (map encode_edge (live (ks_edges st))) @ r)
    = Ok (map Some (live (ks_edges st)), r)"
  unfolding decode_edges_def live_count_live
  by (rule decode_pool_dense [where idx = "\<lambda>e. unat (e_id e)"])
    (use dense live_edges_ends [OF inv dense(1)] in
      \<open>auto simp: decode_edge_encode dense_edges_def live_count_live edge_index [OF inv]\<close>)

lemma decode_edges_rejects:
  assumes inv: "kernel_inv st" and dense: "dense_nodes st" and sparse: "\<not> dense_edges st"
  shows "decode_edges 7 (map Some (live (ks_nodes st))) (live_count (ks_edges st)) (concat (map encode_edge (live (ks_edges st))) @ r)
    = Err InvalidOperation"
  unfolding decode_edges_def live_count_live
  by (rule decode_pool_bad [where idx = "\<lambda>e. unat (e_id e)" and bad = "\<lambda>e. unat (e_id e) \<ge> length (live (ks_edges st))"])
    (simp add: decode_edge_encode live_edges_ends [OF inv dense] del: not_None_eq,
     use sparse in \<open>auto simp: dense_edges_def live_count_live not_less\<close>)

text \<open>Heads point to members of their lists.\<close>

lemma ns_head_member:
  assumes "ns_lists h heads M" "x \<in> set heads"
  shows "x = NS_LIST_NIL \<or> (\<exists>ns < MAX_NAMESPACES. x \<in> M ns)"
proof -
  obtain ns where ns: "ns < MAX_NAMESPACES" "x = heads ! ns"
    using assms ns_lists_length by (metis in_set_conv_nth)
  obtain xs where xs: "dll h (heads ! ns) xs" "set xs = M ns" using ns_listsE [OF assms(1) ns(1)] .
  have "heads ! ns = NS_LIST_NIL \<or> heads ! ns \<in> set xs" using xs(1) by (cases xs) simp_all
  then show ?thesis using ns xs(2) by blast
qed

lemma record_head_range:
  assumes inv: "kernel_inv st" and h: "h \<in> set (ks_record_heads st)"
  shows "h = NS_LIST_NIL \<or> unat h < length (ks_records st)"
  using ns_head_member [OF recs_ok_lists [OF kernel_invD(1) [OF inv]] h]
  by (auto simp: rec_members_def dest: slot_SomeD)

lemma node_head_range:
  assumes inv: "kernel_inv st" and dense: "dense_nodes st" and h: "h \<in> set (ks_node_heads st)"
  shows "h = NS_LIST_NIL \<or> unat h < live_count (ks_nodes st)"
proof -
  have "ns_lists (node_ptrs (ks_nodes st)) (ks_node_heads st) (node_members (ks_nodes st))"
    using kernel_invD(2) [OF inv] by (simp add: nodes_ok_def)
  from ns_head_member [OF this h] show ?thesis using dense_slot [OF inv dense] by (auto simp: node_members_def)
qed

lemma heads_length:
  assumes "kernel_inv st"
  shows "length (ks_record_heads st) = MAX_NAMESPACES" "length (ks_node_heads st) = MAX_NAMESPACES"
  using ns_lists_length [OF recs_ok_lists [OF kernel_invD(1) [OF assms]]] kernel_invD(2) [OF assms] ns_lists_length
  by (auto simp: nodes_ok_def)

lemma read_count_pool:
  assumes "live_count xs \<le> lim" "lim < 2 ^ 32" "\<And>x. enc x \<noteq> []"
  shows "read_count lim (le32 (of_nat (live_count xs)) @ concat (map enc (live xs)) @ r)
    = Ok (live_count xs, concat (map enc (live xs)) @ r)"
  using assms length_concat_ge [of enc "live xs"] by (intro read_count_le32) (simp_all add: live_count_live)

lemma encode_nonempty [simp]: "encode_node n \<noteq> []" "encode_edge e \<noteq> []"
  by (simp_all add: encode_node_def encode_edge_def)

lemma decode_to_nodes:
  assumes inv: "kernel_inv st" and fits: "snapshot_fits st"
  shows "decode_state (encode_header st @ le32 (of_nat (length (ks_records st))) @ concat (map encode_slot (ks_records st)) @
      le32 (of_nat (live_count (ks_nodes st))) @ concat (map encode_node (live (ks_nodes st))) @ r)
    = res_bind (decode_nodes 7 (ks_records st) (live_count (ks_nodes st)) (concat (map encode_node (live (ks_nodes st))) @ r))
        (\<lambda>(nds, r). decode_after_nodes st nds r)"
proof -
  have "live_count (ks_nodes st) \<le> MAX_NODES" using fits by (simp add: snapshot_fits_def)
  then show ?thesis
    by (simp add: decode_state_nodes [OF inv fits] read_count_pool [OF _ _ encode_nonempty(1)] MAX_NODES_def)
qed

lemma decode_to_edges:
  assumes fits: "snapshot_fits st"
  shows "decode_after_nodes st nds (le32 (of_nat (live_count (ks_edges st))) @ concat (map encode_edge (live (ks_edges st))) @ r)
    = res_bind (decode_edges 7 nds (live_count (ks_edges st)) (concat (map encode_edge (live (ks_edges st))) @ r)) (\<lambda>(es, r).
      res_bind (decode_heads 7 (kernel_new\<lparr>ks_version := ks_version st, ks_dim := ks_dim st,
         ks_records := ks_records st, ks_nodes := nds, ks_edges := es\<rparr>) r) (\<lambda>(st, r).
      res_bind (read_u32 r) (\<lambda>(n, r).
       if unat n > MAX_META_ENTRIES then Err InvalidOperation
       else res_bind (decode_meta (unat n) [] r) (\<lambda>(m, r). Ok (st\<lparr>ks_meta := m\<rparr>)))))"
proof -
  have "live_count (ks_edges st) \<le> MAX_EDGES" using fits by (simp add: snapshot_fits_def)
  then show ?thesis
    by (simp add: decode_after_nodes_def read_count_pool [OF _ _ encode_nonempty(2)] MAX_EDGES_def)
qed

lemma decode_heads_encode:
  assumes inv: "kernel_inv st" and dense: "dense_nodes st"
    and st': "ks_records st' = ks_records st" "length (ks_nodes st') = live_count (ks_nodes st)"
  shows "decode_heads 7 st' (concat (map le32 (ks_record_heads st)) @ concat (map le32 (ks_node_heads st)) @ r)
    = Ok (st'\<lparr>ks_record_heads := ks_record_heads st, ks_node_heads := ks_node_heads st\<rparr>, r)"
  using record_head_range [OF inv] node_head_range [OF inv dense] heads_length [OF inv] st'
  by (simp add: decode_heads_def read_heads)

lemma decode_meta_restores:
  assumes inv: "kernel_inv st" and fits: "snapshot_fits st"
  shows "unat (of_nat (length (ks_meta st)) :: u32) = length (ks_meta st)" "length (ks_meta st) \<le> MAX_META_ENTRIES"
    "decode_meta (length (ks_meta st)) [] (concat (map (\<lambda>(k, v). push_str k @ push_str v) (ks_meta st)) @ r) = Ok (ks_meta st, r)"
proof -
  show len: "length (ks_meta st) \<le> MAX_META_ENTRIES" using fits by (simp add: snapshot_fits_def)
  then show "unat (of_nat (length (ks_meta st)) :: u32) = length (ks_meta st)"
    by (intro unat_of_nat_len) (simp add: MAX_META_ENTRIES_def)
  show "decode_meta (length (ks_meta st)) [] (concat (map (\<lambda>(k, v). push_str k @ push_str v) (ks_meta st)) @ r) = Ok (ks_meta st, r)"
    using decode_meta_encode [of "[]" "ks_meta st" r] kernel_invD(8) [OF inv] fits by (force simp: snapshot_fits_def)
qed

lemma encode_state_append: "encode_state st @ r = encode_header st @ le32 (of_nat (length (ks_records st))) @
    concat (map encode_slot (ks_records st)) @
    le32 (of_nat (live_count (ks_nodes st))) @ concat (map encode_node (live (ks_nodes st))) @
    le32 (of_nat (live_count (ks_edges st))) @ concat (map encode_edge (live (ks_edges st))) @
    concat (map le32 (take MAX_NAMESPACES (ks_record_heads st))) @ concat (map le32 (take MAX_NAMESPACES (ks_node_heads st))) @
    le32 (of_nat (length (ks_meta st))) @ concat (map (\<lambda>(k, v). push_str k @ push_str v) (ks_meta st)) @ r"
  by (simp add: encode_state_def)

lemma decode_restored:
  assumes inv: "kernel_inv st" and fits: "snapshot_fits st" and dense: "dense_nodes st" "dense_edges st"
  shows "decode_state (encode_state st @ r) = Ok (restored st)"
proof -
  have heads: "take MAX_NAMESPACES (ks_record_heads st) = ks_record_heads st" "take MAX_NAMESPACES (ks_node_heads st) = ks_node_heads st"
    using heads_length [OF inv] by simp_all
  show ?thesis
    unfolding encode_state_append heads decode_to_nodes [OF inv fits] decode_nodes_dense [OF inv dense(1)]
      decode_edges_dense [OF inv dense] decode_to_edges [OF fits] res_bind.simps prod.case
    by (simp add: decode_heads_encode [OF inv dense(1)] live_count_live decode_meta_restores [OF inv fits] not_less restored_def
        kernel_new_def index_default_def)
qed

lemma decode_rejects_holes:
  assumes inv: "kernel_inv st" and fits: "snapshot_fits st" and sparse: "\<not> dense_nodes st \<or> \<not> dense_edges st"
  shows "decode_state (encode_state st @ r) = Err InvalidOperation"
proof (cases "dense_nodes st")
  case True
  then show ?thesis
    using sparse unfolding encode_state_append decode_to_nodes [OF inv fits] decode_nodes_dense [OF inv True] res_bind.simps prod.case
      decode_to_edges [OF fits]
    by (simp add: decode_edges_rejects [OF inv])
next
  case False
  then show ?thesis unfolding encode_state_append decode_to_nodes [OF inv fits] decode_nodes_rejects [OF inv False] by simp
qed

end
