(* ===== verification/Snapshot_Safe.thy ===== *)
theory Snapshot_Safe
  imports Snapshot_Props
begin

text \<open>
  What the decoder of \<open>decode.rs\<close> guarantees on bytes of any origin: it returns, never panics, rejects only
  with \<open>InvalidOperation\<close>, and an accepted state passes the range checks collected in \<open>loaded\<close>.
\<close>

section \<open>Postconditions\<close>

definition yields :: "('a \<Rightarrow> bool) \<Rightarrow> 'a kres \<Rightarrow> bool" where
  "yields P m = (case m of Ok x \<Rightarrow> P x | Err e \<Rightarrow> e = InvalidOperation | Panic \<Rightarrow> False | Diverges \<Rightarrow> False)"

definition reads :: "('a \<Rightarrow> bool) \<Rightarrow> 'a reader \<Rightarrow> bool" where
  "reads P rd \<longleftrightarrow> (\<forall>bs. yields (\<lambda>(x, r). P x) (rd bs))"

lemma yields_simps [simp]: "yields P (Ok x) = P x" "yields P (Err e) \<longleftrightarrow> e = InvalidOperation"
  "\<not> yields P Panic" "\<not> yields P Diverges"
  by (simp_all add: yields_def)

lemma yields_bind: "yields P m \<Longrightarrow> (\<And>x. P x \<Longrightarrow> yields Q (f x)) \<Longrightarrow> yields Q (res_bind m f)"
  by (cases m) simp_all

lemma yields_mono: "yields P m \<Longrightarrow> (\<And>x. P x \<Longrightarrow> Q x) \<Longrightarrow> yields Q m"
  by (cases m) simp_all

lemma yields_read: "reads P rd \<Longrightarrow> (\<And>x r. P x \<Longrightarrow> yields Q (f (x, r))) \<Longrightarrow> yields Q (res_bind (rd bs) f)"
  by (rule yields_bind [where P = "\<lambda>(x, r). P x"]) (auto simp: reads_def)

named_theorems reading \<open>postconditions of the readers\<close>

lemma reads_u8 [reading]: "reads (\<lambda>_. True) read_u8"
  by (simp add: reads_def read_u8_def split: list.split)

lemma reads_flag [reading]: "reads (\<lambda>_. True) read_flag"
  unfolding reads_def read_flag_def by (auto intro: yields_read [OF reads_u8])

lemma reads_le: "reads (\<lambda>_. True) (read_le n)"
  by (simp add: reads_def read_le_def)

lemma reads_words [reading]: "reads (\<lambda>_. True) read_u16" "reads (\<lambda>_. True) read_u32"
  "reads (\<lambda>_. True) read_u64" "reads (\<lambda>_. True) read_i32"
  unfolding reads_def read_u16_def read_u32_def read_u64_def read_i32_def by (auto intro: yields_read [OF reads_le])

lemma reads_blob [reading]: "reads (\<lambda>b. length b = len \<and> len \<le> limit) (read_blob len limit)"
  by (simp add: reads_def read_blob_def)

lemma reads_str [reading]: "reads text_fits (read_str MAX_METADATA_SIZE)"
  unfolding reads_def read_str_def
  by (auto intro!: yields_read [OF reads_words(2)] yields_read [OF reads_blob] simp: text_fits_def)

lemma reads_opt_edge [reading]: "reads (\<lambda>_. True) read_opt_edge"
  unfolding reads_def read_opt_edge_def
  by (auto intro!: yields_read [OF reads_flag] yields_read [OF reads_words(2)])

lemma reads_many: "reads P rd \<Longrightarrow> reads (\<lambda>xs. length xs = n \<and> (\<forall>x \<in> set xs. P x)) (read_many rd n)"
proof (induction n)
  case (Suc n)
  then show ?case
    unfolding reads_def [of _ "read_many rd (Suc n)"]
    by (auto intro!: yields_read [OF Suc.prems] yields_read [OF Suc.IH])
qed (simp add: reads_def)

lemma reads_count: "lim < 2 ^ 32 \<Longrightarrow> reads (\<lambda>n. n \<le> lim) (read_count lim)"
  unfolding reads_def read_count_def by (auto intro!: yields_read [OF reads_words(2)])

section \<open>Sections of a snapshot\<close>

lemma reads_header: "reads (\<lambda>(v, ver, dim). dim \<le> MAX_DIM) decode_header"
  unfolding reads_def decode_header_def
  by (auto intro!: yields_read [OF reads_words(2)] yields_read [OF reads_words(3)] yields_read [OF reads_u8]
      yields_bind [where P = "\<lambda>_. True"])

lemma reads_links: "reads (\<lambda>(ns, nxt, prv). unat ns < MAX_NAMESPACES) (decode_links v)"
  unfolding reads_def decode_links_def
  by (auto intro!: yields_read [OF reads_words(1)] yields_read [OF reads_words(2)] simp: MAX_NAMESPACES_def)

lemma reads_metadata:
  "reads (\<lambda>md. case md of Some m \<Rightarrow> m \<noteq> [] \<and> length m \<le> MAX_METADATA_SIZE | None \<Rightarrow> True) (decode_metadata v)"
  unfolding reads_def decode_metadata_def
  by (auto intro!: yields_read [OF reads_words(2)] yields_read [OF reads_blob])

lemma reads_if: "reads P a \<Longrightarrow> reads P b \<Longrightarrow> reads P (\<lambda>bs. if c then a bs else b bs)"
  by (simp add: reads_def)

lemma reads_Ok: "P x \<Longrightarrow> reads P (\<lambda>bs. Ok (x, bs))"
  by (simp add: reads_def)

lemma reads_record:
  assumes i: "i < 2 ^ 32"
  shows "reads (\<lambda>s. \<forall>r. s = Some r \<longrightarrow> record_fits dim i r) (decode_record v dim i)"
proof -
  have tag: "reads (\<lambda>_. True) (\<lambda>r. if unat v \<ge> 3 then read_u64 r else Ok (0, r))"
    by (intro reads_if reads_Ok reads_words TrueI)
  show ?thesis
    unfolding reads_def decode_record_def
    using i by (auto intro!: yields_read [OF reads_flag] yields_read [OF reads_words(2)] yields_read [OF reads_u8] yields_read [OF tag]
        yields_read [OF reads_many [OF reads_words(4)]] yields_read [OF reads_metadata] yields_read [OF reads_links]
        simp: record_fits_def unat_of_nat_len)
qed

definition slots_hold :: "(nat \<Rightarrow> 'a \<Rightarrow> bool) \<Rightarrow> 'a option list \<Rightarrow> bool" where
  "slots_hold Q xs \<longleftrightarrow> (\<forall>j a. j < length xs \<and> xs ! j = Some a \<longrightarrow> Q j a)"

lemma slots_hold_slot: "slots_hold Q xs \<Longrightarrow> slot xs i = Some a \<Longrightarrow> Q (unat i) a"
  by (auto simp: slots_hold_def slot_def split: if_splits)

lemma slots_hold_Cons: "slots_hold Q (x # xs) \<longleftrightarrow> (\<forall>a. x = Some a \<longrightarrow> Q 0 a) \<and> slots_hold (\<lambda>j. Q (Suc j)) xs"
  unfolding slots_hold_def by (auto simp: nth_Cons' gr0_conv_Suc split: if_splits)

lemma reads_records:
  "i + n \<le> 2 ^ 32 \<Longrightarrow>
   reads (\<lambda>ss. length ss = n \<and> slots_hold (\<lambda>j r. record_fits dim (i + j) r) ss) (decode_records v dim i n)"
proof (induction n arbitrary: i)
  case 0
  then show ?case by (simp add: reads_def slots_hold_def)
next
  case (Suc n)
  have head: "reads (\<lambda>s. \<forall>r. s = Some r \<longrightarrow> record_fits dim i r) (decode_record v dim i)"
    using Suc.prems by (intro reads_record) simp
  have tail: "reads (\<lambda>ss. length ss = n \<and> slots_hold (\<lambda>j r. record_fits dim (Suc i + j) r) ss) (decode_records v dim (Suc i) n)"
    using Suc.prems by (intro Suc.IH) simp
  show ?case
    unfolding reads_def decode_records.simps
    by (intro allI, rule yields_read [OF head], unfold prod.case, rule yields_read [OF tail]) (simp add: slots_hold_Cons)
qed

lemma slots_hold_empty [simp]: "slots_hold Q (replicate n None)"
  by (auto simp: slots_hold_def)

lemma slots_hold_update: "slots_hold Q xs \<Longrightarrow> Q i a \<Longrightarrow> slots_hold Q (xs[i := Some a])"
  by (cases "i < length xs") (auto simp: slots_hold_def nth_list_update split: if_splits)

lemma reads_pool:
  assumes rd: "reads (\<lambda>(i, a). Q i a) rd"
  shows "slots_hold Q pool \<Longrightarrow> reads (\<lambda>p. length p = length pool \<and> slots_hold Q p) (decode_pool rd n pool)"
proof (induction n arbitrary: pool)
  case (Suc n)
  have step: "yields (\<lambda>(p, r). length p = length pool \<and> slots_hold Q p) (decode_pool rd n (pool[i := Some a]) r)"
    if "Q i a" for i a r
    using Suc.IH [OF slots_hold_update [OF Suc.prems that]] by (simp add: reads_def)
  show ?case
    unfolding reads_def decode_pool.simps
    by (intro allI, rule yields_read [OF rd]) (use step in auto)
qed (simp add: reads_def)

definition node_loaded :: "RecordPool \<Rightarrow> nat \<Rightarrow> GraphNode \<Rightarrow> bool" where
  "node_loaded recs j n \<longleftrightarrow> unat (n_id n) = j \<and> unat (n_namespace_id n) < MAX_NAMESPACES \<and> \<not> dangling recs n"

definition edge_loaded :: "NodePool \<Rightarrow> nat \<Rightarrow> GraphEdge \<Rightarrow> bool" where
  "edge_loaded nds j e \<longleftrightarrow> unat (e_id e) = j \<and> slot nds (e_from e) \<noteq> None \<and> slot nds (e_to e) \<noteq> None"

lemma reads_node: "reads (\<lambda>(i, n). node_loaded recs i n) (decode_node v recs cnt)"
proof -
  have rec: "reads (\<lambda>_. True) (\<lambda>r. if f then res_bind (read_u32 r) (\<lambda>(i, r). Ok (Some i, r)) else Ok (None, r))" for f
    by (intro reads_if reads_Ok TrueI) (auto simp: reads_def intro!: yields_read [OF reads_words(2)])
  have first_in: "reads (\<lambda>_. True) (\<lambda>r. if unat v \<ge> 4 then read_opt_edge r else Ok (None, r))"
    by (intro reads_if reads_Ok reads_opt_edge TrueI)
  show ?thesis
    unfolding reads_def decode_node_def
    by (auto intro!: yields_read [OF reads_words(2)] yields_read [OF reads_u8] yields_read [OF reads_flag] yields_read [OF rec]
        yields_read [OF reads_opt_edge] yields_read [OF first_in] yields_read [OF reads_links]
        simp: node_loaded_def dangling_def slot_def unat_of_nat_len split: option.split)
qed

lemma reads_nodes: "reads (\<lambda>p. length p = cnt \<and> slots_hold (node_loaded recs) p) (decode_nodes v recs cnt)"
  unfolding decode_nodes_def [abs_def]
  using reads_pool [OF reads_node [of recs v cnt], of "replicate cnt None" cnt] by simp

lemma reads_edge: "reads (\<lambda>(i, e). edge_loaded nds i e) (decode_edge v nds cnt)"
proof -
  have next_in: "reads (\<lambda>_. True) (\<lambda>r. if unat v \<ge> 4 then read_opt_edge r else Ok (None, r))"
    by (intro reads_if reads_Ok reads_opt_edge TrueI)
  show ?thesis
    unfolding reads_def decode_edge_def
    by (auto intro!: yields_read [OF reads_words(2)] yields_read [OF reads_u8]
        yields_read [OF reads_opt_edge] yields_read [OF next_in]
        simp: edge_loaded_def slot_def unat_of_nat_len split: option.split)
qed

lemma reads_edges: "reads (\<lambda>p. length p = cnt \<and> slots_hold (edge_loaded nds) p) (decode_edges v nds cnt)"
  unfolding decode_edges_def [abs_def]
  using reads_pool [OF reads_edge [of nds v cnt], of "replicate cnt None" cnt] by simp

lemma reads_head: "reads (\<lambda>h. h = NS_LIST_NIL \<or> unat h < cnt) (read_head cnt)"
  unfolding reads_def read_head_def by (auto intro!: yields_read [OF reads_words(2)])

definition meta_fits :: "meta_map \<Rightarrow> bool" where
  "meta_fits m \<longleftrightarrow> btree_ok m \<and> (\<forall>p \<in> set m. text_fits (fst p) \<and> text_fits (snd p))"

lemma set_btree_insert: "set (btree_insert k v m) \<subseteq> insert (k, v) (set m)"
  by (induction k v m rule: btree_insert.induct) auto

lemma meta_fits_insert: "meta_fits m \<Longrightarrow> text_fits k \<Longrightarrow> text_fits v \<Longrightarrow> meta_fits (btree_insert k v m)"
  using set_btree_insert [of k v m] by (auto simp: meta_fits_def)

lemma reads_meta: "meta_fits m \<Longrightarrow> reads meta_fits (decode_meta n m)"
proof (induction n arbitrary: m)
  case (Suc n)
  have "yields (\<lambda>(x, r). meta_fits x) (decode_meta n (btree_insert k val m) r)" if "text_fits k" "text_fits val" for k val r
    using Suc.IH [OF meta_fits_insert [OF Suc.prems that]] by (simp add: reads_def)
  then show ?case
    unfolding reads_def decode_meta.simps by (auto intro!: yields_read [OF reads_str])
qed (simp add: reads_def)

section \<open>Old snapshots\<close>

lemma restore_incoming_frame:
  "length (fst (restore_incoming p g)) = length (fst g)" "length (snd (restore_incoming p g)) = length (snd g)"
  "map_option n_info (slot (fst (restore_incoming p g)) j) = map_option n_info (slot (fst g) j)"
  "map_option e_core (slot (snd (restore_incoming p g)) j) = map_option e_core (slot (snd g) j)"
  by (auto simp: restore_incoming_def Let_def slot_simps option.map_comp comp_def graph_setters e_core_def [abs_def] n_info_def [abs_def])

lemma restore_fold_frame:
  "length (fst (fold restore_incoming ps g)) = length (fst g) \<and> length (snd (fold restore_incoming ps g)) = length (snd g) \<and>
   map_option n_info (slot (fst (fold restore_incoming ps g)) j) = map_option n_info (slot (fst g) j) \<and>
   map_option e_core (slot (snd (fold restore_incoming ps g)) j) = map_option e_core (slot (snd g) j)"
  by (induction ps arbitrary: g) (simp_all add: restore_incoming_frame)

text \<open>A change of links keeps the checks.\<close>

lemma slots_hold_frame:
  assumes "slots_hold Q b" "length b \<le> 2 ^ 32" "length a = length b"
    and same: "\<And>j. map_option f (slot a j) = map_option f (slot b j)"
    and keep: "\<And>j x y. f x = f y \<Longrightarrow> Q j y \<Longrightarrow> Q' j x"
  shows "slots_hold Q' a"
  unfolding slots_hold_def
proof (intro allI impI)
  fix j x assume j: "j < length a \<and> a ! j = Some x"
  then have s: "slot a (of_nat j) = Some x" "unat (of_nat j :: u32) = j"
    using assms(2,3) by (simp_all add: slot_nth unat_of_nat_len)
  then obtain y where "slot b (of_nat j) = Some y" "f x = f y" using same [of "of_nat j"] by (auto simp: map_option_case split: option.splits)
  then show "Q' j x" using slots_hold_slot [OF assms(1)] keep s(2) by metis
qed

lemma none_frame: "map_option f x = map_option f y \<Longrightarrow> x = None \<longleftrightarrow> y = None"
  by (cases x; cases y) simp_all

definition loaded :: "KernelState \<Rightarrow> bool" where
  "loaded st \<longleftrightarrow>
     dim_value st \<le> MAX_DIM \<and> length (ks_records st) \<le> MAX_RECORDS \<and> length (ks_nodes st) \<le> MAX_NODES \<and>
     length (ks_edges st) \<le> MAX_EDGES \<and>
     slots_hold (record_fits (dim_value st)) (ks_records st) \<and>
     slots_hold (node_loaded (ks_records st)) (ks_nodes st) \<and>
     slots_hold (edge_loaded (ks_nodes st)) (ks_edges st) \<and>
     length (ks_record_heads st) = MAX_NAMESPACES \<and> length (ks_node_heads st) = MAX_NAMESPACES \<and>
     (\<forall>h \<in> set (ks_record_heads st). h = NS_LIST_NIL \<or> unat h < length (ks_records st)) \<and>
     (\<forall>h \<in> set (ks_node_heads st). h = NS_LIST_NIL \<or> unat h < length (ks_nodes st)) \<and>
     meta_fits (ks_meta st) \<and> ks_encrypted_keys st = Map.empty \<and> ks_index st = BruteForce"

lemma edge_loaded_frame:
  assumes "e_core x = e_core y" "edge_loaded nds j y" "\<And>j. map_option f (slot nds' j) = map_option f (slot nds j)"
  shows "edge_loaded nds' j x"
proof -
  have "e_id x = e_id y" "e_from x = e_from y" "e_to x = e_to y"
    using assms(1) by (cases x; cases y; simp add: e_core_def)+
  then show ?thesis using assms(2) none_frame [OF assms(3)] by (simp add: edge_loaded_def)
qed

lemma node_loaded_frame:
  "n_info x = n_info y \<Longrightarrow> node_loaded recs j y \<Longrightarrow> (\<And>i. map_option f (slot recs' i) = map_option f (slot recs i)) \<Longrightarrow>
   node_loaded recs' j x"
  using none_frame [of f "slot recs' _" "slot recs _"] by (auto simp: node_loaded_def n_info_def dangling_def)

lemma pools_restore_incoming:
  assumes "slots_hold (node_loaded recs) nds" "slots_hold (edge_loaded nds) es" "length nds \<le> 2 ^ 32" "length es \<le> 2 ^ 32"
  shows "case restore_all_incoming (nds, es) of (nds', es') \<Rightarrow> length nds' = length nds \<and> length es' = length es \<and>
    slots_hold (node_loaded recs) nds' \<and> slots_hold (edge_loaded nds') es'"
proof -
  obtain nds' es' where r: "restore_all_incoming (nds, es) = (nds', es')" by fastforce
  have F: "length nds' = length nds" "length es' = length es"
      "map_option n_info (slot nds' j) = map_option n_info (slot nds j)"
      "map_option e_core (slot es' j) = map_option e_core (slot es j)" for j
    using restore_fold_frame [of "map (\<lambda>e. (e_id e, e_to e)) (live es)" "(nds, es)" j] r
    by (simp_all add: restore_all_incoming_def)
  have "slots_hold (node_loaded recs) nds'"
    by (rule slots_hold_frame [OF assms(1,3) F(1,3)]) (rule node_loaded_frame [where f = "\<lambda>_. ()"], auto)
  moreover have "slots_hold (edge_loaded nds') es'"
    by (rule slots_hold_frame [OF assms(2,4) F(2,4)]) (rule edge_loaded_frame [OF _ _ F(3)])
  ultimately show ?thesis using r F by simp
qed

lemma slots_from_range: "i \<in> slots_from m ns_of pool ns \<Longrightarrow> unat i < length pool"
  by (auto simp: slots_from_def dest: slot_SomeD)

lemma loaded_sizes:
  assumes "loaded st"
  shows "length (ks_records st) < 2 ^ 32" "length (ks_nodes st) < 2 ^ 32" "length (ks_edges st) < 2 ^ 32"
  using assms by (simp_all add: loaded_def MAX_RECORDS_def MAX_NODES_def MAX_EDGES_def)

lemma rebuild_loaded:
  assumes L: "loaded st"
  shows "yields loaded (rebuild_namespace_lists st)"
proof -
  note sz = loaded_sizes [OF L]
  have hold: "slots_hold (record_fits (dim_value st)) (ks_records st)" "slots_hold (node_loaded (ks_records st)) (ks_nodes st)"
      "slots_hold (edge_loaded (ks_nodes st)) (ks_edges st)"
    and heads: "length (ks_record_heads st) = MAX_NAMESPACES" "length (ks_node_heads st) = MAX_NAMESPACES"
    using L by (simp_all add: loaded_def)
  obtain recs rh where r: "relink_all r_namespace_id set_r_next set_r_prev (ks_records st) (ks_record_heads st) = Ok (recs, rh)"
      "length recs = length (ks_records st)"
      "\<And>j. map_option r_core (slot recs j) = map_option r_core (slot (ks_records st) j)"
      "ns_lists (rec_ptrs recs) rh (slots_from 0 r_namespace_id (ks_records st))"
    using rl.relink_all_ok [where ns_of = r_namespace_id and f = r_core and pool = "ks_records st"
        and heads = "ks_record_heads st"] sz(1) heads(1) slots_hold_slot [OF hold(1)]
    by (auto simp: record_fits_def set_r_next_def set_r_prev_def r_core_def)
  obtain nds nh where n: "relink_all n_namespace_id set_n_next set_n_prev (ks_nodes st) (ks_node_heads st) = Ok (nds, nh)"
      "length nds = length (ks_nodes st)"
      "\<And>j. map_option n_info (slot nds j) = map_option n_info (slot (ks_nodes st) j)"
      "ns_lists (node_ptrs nds) nh (slots_from 0 n_namespace_id (ks_nodes st))"
    using nl.relink_all_ok [where ns_of = n_namespace_id and f = n_info and pool = "ks_nodes st"
        and heads = "ks_node_heads st"] sz(2) heads(2) slots_hold_slot [OF hold(2)]
    by (auto simp: node_loaded_def graph_setters n_info_def)
  have "slots_hold (record_fits (dim_value st)) recs"
    by (rule slots_hold_frame [OF hold(1) less_imp_le [OF sz(1)] r(2,3)]) (auto simp: record_fits_def r_core_def)
  moreover have "slots_hold (node_loaded recs) nds"
    by (rule slots_hold_frame [OF hold(2) less_imp_le [OF sz(2)] n(2,3)]) (rule node_loaded_frame [OF _ _ r(3)])
  moreover have "slots_hold (edge_loaded nds) (ks_edges st)"
    by (rule slots_hold_frame [OF hold(3) less_imp_le [OF sz(3)] refl refl]) (rule edge_loaded_frame [OF _ _ n(3)])
  moreover have "\<forall>h \<in> set rh. h = NS_LIST_NIL \<or> unat h < length recs" "\<forall>h \<in> set nh. h = NS_LIST_NIL \<or> unat h < length nds"
    using ns_head_member [OF r(4)] ns_head_member [OF n(4)] slots_from_range r(2) n(2) by metis+
  ultimately show ?thesis
    using L r(1,2) n(1,2) ns_lists_length [OF r(4)] ns_lists_length [OF n(4)]
    by (simp add: rebuild_namespace_lists_def loaded_def dim_value_def)
qed

lemma reads_heads: "loaded st \<Longrightarrow> reads loaded (decode_heads v st)"
  unfolding reads_def decode_heads_def
  by (auto intro!: yields_read [OF reads_many [OF reads_head]] yields_bind [OF rebuild_loaded] simp: loaded_def dim_value_def)

lemma loaded_new:
  assumes "dim \<le> MAX_DIM" "length recs \<le> MAX_RECORDS" "length nds \<le> MAX_NODES" "length es \<le> MAX_EDGES"
    "slots_hold (record_fits dim) recs" "slots_hold (node_loaded recs) nds" "slots_hold (edge_loaded nds) es"
  shows "loaded (kernel_new\<lparr>ks_version := ver, ks_dim := (if dim > 0 then Some dim else None),
    ks_records := recs, ks_nodes := nds, ks_edges := es\<rparr>)"
  using assms by (auto simp: loaded_def kernel_new_def dim_value_def meta_fits_def btree_ok_def index_default_def)

lemma loaded_pools:
  assumes "dim \<le> MAX_DIM" "length recs \<le> MAX_RECORDS" "slots_hold (record_fits dim) recs" "length nds \<le> MAX_NODES"
    "length es \<le> MAX_EDGES" "slots_hold (node_loaded recs) nds" "slots_hold (edge_loaded nds) es"
  shows "case (if unat v < 4 then restore_all_incoming (nds, es) else (nds, es)) of (nds, es) \<Rightarrow>
    loaded (kernel_new\<lparr>ks_version := ver, ks_dim := (if dim > 0 then Some dim else None), ks_records := recs,
      ks_nodes := nds, ks_edges := es\<rparr>)"
proof -
  obtain nds' es' where r: "(if unat v < 4 then restore_all_incoming (nds, es) else (nds, es)) = (nds', es')" by fastforce
  have "length nds' = length nds \<and> length es' = length es \<and> slots_hold (node_loaded recs) nds' \<and> slots_hold (edge_loaded nds') es'"
    using assms(4-7) pools_restore_incoming [of recs nds es] r by (auto simp: MAX_NODES_def MAX_EDGES_def split: if_splits)
  then show ?thesis using assms r by (simp add: loaded_new)
qed

lemma decode_state_yields: "yields loaded (decode_state buf)"
proof -
  have cnt: "reads (\<lambda>n. n \<le> MAX_RECORDS) (read_count MAX_RECORDS)" "reads (\<lambda>n. n \<le> MAX_NODES) (read_count MAX_NODES)"
    "reads (\<lambda>n. n \<le> MAX_EDGES) (read_count MAX_EDGES)"
    by (intro reads_count; simp add: MAX_RECORDS_def MAX_NODES_def MAX_EDGES_def)+
  have rds: "reads (\<lambda>ss. length ss = n \<and> slots_hold (record_fits dim) ss) (decode_records v dim 0 n)"
    if "n \<le> MAX_RECORDS" for n dim v
    using reads_records [of 0 n dim v] that by (simp add: MAX_RECORDS_def)
  have meta: "reads meta_fits (decode_meta n [])" for n
    by (rule reads_meta) (simp add: meta_fits_def btree_ok_def)
  have last: "yields loaded (if unat v \<ge> 7
     then res_bind (read_u32 r) (\<lambda>(n, r).
       if unat n > MAX_META_ENTRIES then Err InvalidOperation
       else res_bind (decode_meta (unat n) [] r) (\<lambda>(m, r). Ok (st\<lparr>ks_meta := m\<rparr>)))
     else Ok st)" if "loaded st" for v :: u32 and r st
    using that by (auto intro!: yields_read [OF reads_words(2)] yields_read [OF meta] simp: loaded_def dim_value_def)
  have pools: "yields loaded (let (nds, es) = (if unat v < 4 then restore_all_incoming (nds, es) else (nds, es));
         st = kernel_new\<lparr>ks_version := ver, ks_dim := (if dim > 0 then Some dim else None),
                         ks_records := recs, ks_nodes := nds, ks_edges := es\<rparr> in
     res_bind (decode_heads v st r) (\<lambda>(st, r).
     if unat v \<ge> 7
     then res_bind (read_u32 r) (\<lambda>(n, r).
       if unat n > MAX_META_ENTRIES then Err InvalidOperation
       else res_bind (decode_meta (unat n) [] r) (\<lambda>(m, r). Ok (st\<lparr>ks_meta := m\<rparr>)))
     else Ok st))"
    if "dim \<le> MAX_DIM" "length recs \<le> MAX_RECORDS" "slots_hold (record_fits dim) recs" "length nds \<le> MAX_NODES"
      "length es \<le> MAX_EDGES" "slots_hold (node_loaded recs) nds" "slots_hold (edge_loaded nds) es" for dim recs nds es v ver r
    using loaded_pools [OF that, where v = v and ver = ver] last by (auto simp: Let_def intro!: yields_read [OF reads_heads] split: prod.splits)
  show ?thesis
    unfolding decode_state_def
    by (rule yields_read [OF reads_header], clarify, rule yields_read [OF cnt(1)], clarify, rule yields_read [OF rds], assumption, clarify,
        rule yields_read [OF cnt(2)], clarify, rule yields_read [OF reads_nodes], clarify,
        rule yields_read [OF cnt(3)], clarify, rule yields_read [OF reads_edges], clarify, rule pools) simp_all
qed

end
