(* ===== verification/Snapshot_Theorems.thy ===== *)
theory Snapshot_Theorems
  imports Snapshot_Safe Kernel_Demo
begin

text \<open>The properties of snapshots: what is restored, what is refused and what is lost.\<close>

section \<open>Samples\<close>

lemma demo_fits: "snapshot_fits demo"
  by (simp add: snapshot_fits_def demo_def dim_value_def live_count_def MAX_DIM_def MAX_RECORDS_def MAX_NODES_def
      MAX_EDGES_def MAX_METADATA_SIZE_def)

lemma demo_no_dangling: "n \<in> set (live (ks_nodes demo)) \<Longrightarrow> \<not> dangling (ks_records demo) n"
  by (auto simp: demo_def dangling_def slot_def)

lemma demo_decodes: "decode_state (encode_state demo) = Ok (demo\<lparr>ks_index := BruteForce, ks_encrypted_keys := Map.empty\<rparr>)"
proof -
  have "dense_nodes demo" "dense_edges demo"
    using demo_no_dangling by (auto simp: demo_def dense_nodes_def dense_edges_def live_count_def)
  from decode_restored [OF demo_inv demo_fits this, of "[]"] show ?thesis by (simp add: restored_def demo_def)
qed

text \<open>Two nodes, the second of them deleted.\<close>

definition trailing :: KernelState where
  "trailing = run [(0, AutoCreateNode NK_Concept None), (0, AutoCreateNode NK_Concept None), (0, DeleteNode 1)] kernel_new"

lemma trailing_eq: "trailing = kernel_new\<lparr>ks_version := 3,
    ks_nodes := [Some \<lparr>n_id = 0, n_kind = NK_Concept, n_record = None, n_first_out = None, n_first_in = None,
                       n_namespace_id = 0, n_next_in_ns = NS_LIST_NIL, n_prev_in_ns = NS_LIST_NIL\<rparr>, None],
    ks_node_heads := (replicate MAX_NAMESPACES NS_LIST_NIL)[0 := 0]\<rparr>"
  by (simp add: trailing_def kernel_eval delete_node_def unlink_node_from_ns_def collect_edges.simps node_pool_delete_def)

lemma trailing_reachable: "reachable trailing"
  unfolding trailing_def by (rule safe_run_reachable [OF kernel_new_reachable]) (simp add: kernel_eval)

lemma trailing_fits: "snapshot_fits trailing"
  by (simp add: snapshot_fits_def trailing_eq kernel_new_def dim_value_def live_count_def MAX_NODES_def)

lemma trailing_dense: "dense_nodes trailing" "dense_edges trailing"
  by (simp_all add: dense_nodes_def dense_edges_def trailing_eq kernel_new_def live_count_def dangling_def)

text \<open>A record whose list link points back to itself.\<close>

definition looped :: KernelState where
  "looped = kernel_new\<lparr>ks_dim := Some 1, ks_version := 1,
     ks_records := [Some \<lparr>r_id = 0, r_vector = [0], r_metadata = None, r_tag = 0, r_flags = 0,
                          r_namespace_id = 0, r_next_in_ns = 0, r_prev_in_ns = NS_LIST_NIL\<rparr>],
     ks_record_heads := (replicate MAX_NAMESPACES NS_LIST_NIL)[0 := 0]\<rparr>"

lemma looped_record: "record_fits 1 (0 + j) r" if "j < length (ks_records looped)" "ks_records looped ! j = Some r"
  using that by (auto simp: looped_def record_fits_def max_ns_compare)

lemma looped_decodes: "decode_state (encode_state looped) = Ok looped"
proof -
  have hdr: "decode_header (encode_header looped @ r) = Ok ((7, 1, 1), r)" for r
    using decode_header_encode [of looped r] by (simp add: looped_def dim_value_def MAX_DIM_def)
  have cnt: "read_count MAX_RECORDS (le32 1 @ concat (map encode_slot (ks_records looped)) @ r)
      = Ok (1, concat (map encode_slot (ks_records looped)) @ r)" for r
    using read_count_le32 [of 1 MAX_RECORDS "concat (map encode_slot (ks_records looped)) @ r"]
    by (simp add: looped_def MAX_RECORDS_def encode_slot_def)
  have recs: "decode_records 7 1 0 1 (concat (map encode_slot (ks_records looped)) @ r) = Ok (ks_records looped, r)" for r
    using decode_records_encode [of "ks_records looped" 1 0 r, OF looped_record] by (simp add: looped_def)
  have none: "read_count lim (le32 0 @ r) = Ok (0, r)" for lim r
    by (simp add: read_count_def)
  have rng: "h = NS_LIST_NIL \<or> unat h < 1" if "h \<in> set ((replicate MAX_NAMESPACES NS_LIST_NIL)[0 := 0])" for h
    using subsetD [OF set_update_subset_insert that] by auto
  have heads: "read_many (read_head 1) MAX_NAMESPACES (concat (map le32 ((replicate MAX_NAMESPACES NS_LIST_NIL)[0 := 0])) @ r)
      = Ok ((replicate MAX_NAMESPACES NS_LIST_NIL)[0 := 0], r)"
    "read_many (read_head 0) MAX_NAMESPACES (concat (map le32 (replicate MAX_NAMESPACES NS_LIST_NIL)) @ r)
      = Ok (replicate MAX_NAMESPACES NS_LIST_NIL, r)" for r
    by (rule read_heads; use rng in \<open>simp\<close>)+
  have lists: "decode_heads 7 st (concat (map le32 ((replicate MAX_NAMESPACES NS_LIST_NIL)[0 := 0])) @
      concat (map le32 (replicate MAX_NAMESPACES NS_LIST_NIL)) @ r)
      = Ok (st\<lparr>ks_record_heads := (replicate MAX_NAMESPACES NS_LIST_NIL)[0 := 0],
               ks_node_heads := replicate MAX_NAMESPACES NS_LIST_NIL\<rparr>, r)"
    if "ks_records st = ks_records looped" "ks_nodes st = []" for st r
  proof -
    have "length (ks_records st) = 1" "length (ks_nodes st) = 0" using that by (simp_all add: looped_def)
    then show ?thesis unfolding decode_heads_def by (simp only: heads res_bind.simps prod.case) simp
  qed
  have last: "read_u32 (le32 0) = Ok (0, [])"
    using read_words(2) [of 0 "[]"] by simp
  have enc: "encode_state looped = encode_header looped @ le32 1 @ concat (map encode_slot (ks_records looped)) @
      le32 0 @ le32 0 @ concat (map le32 ((replicate MAX_NAMESPACES NS_LIST_NIL)[0 := 0])) @
      concat (map le32 (replicate MAX_NAMESPACES NS_LIST_NIL)) @ le32 0 @ []"
    by (simp add: encode_state_def looped_def kernel_new_def live_count_def)
  show ?thesis
    unfolding enc decode_state_def hdr cnt res_bind.simps prod.case recs none
    by (simp add: decode_nodes_def decode_edges_def none lists last del: map_replicate res_bind_Ok_iff)
      (simp add: looped_def kernel_new_def)
qed

text \<open>The walk never leaves a record that is its own successor.\<close>

lemma ns_search_loop_stuck:
  assumes "ns_search_loop c cpu recs query k b = Some y"
  shows "slot recs i = Some r \<longrightarrow> r_next_in_ns r = i \<longrightarrow> i \<noteq> NS_LIST_NIL \<longrightarrow> c \<noteq> i"
  by (rule ns_search_loop.raw_induct [OF _ assms, where P = "\<lambda>c cpu recs query k b y.
        slot recs i = Some r \<longrightarrow> r_next_in_ns r = i \<longrightarrow> i \<noteq> NS_LIST_NIL \<longrightarrow> c \<noteq> i"])
    (intro impI notI, simp split: if_splits, blast+)

lemma live_no_tombstones: "None \<notin> set xs \<Longrightarrow> map Some (live xs) = xs"
proof (induction xs)
  case (Cons x xs)
  then show ?case by (cases x) auto
qed simp

lemma dense_no_tombstones:
  assumes "kernel_inv st"
  shows "None \<notin> set (ks_nodes st) \<Longrightarrow> (\<And>n. n \<in> set (live (ks_nodes st)) \<Longrightarrow> \<not> dangling (ks_records st) n) \<Longrightarrow> dense_nodes st"
    "None \<notin> set (ks_edges st) \<Longrightarrow> dense_edges st"
  using live_no_tombstones [of "ks_nodes st"] live_no_tombstones [of "ks_edges st"] node_index(1) [OF assms] edge_index [OF assms]
  unfolding dense_nodes_def dense_edges_def live_count_live by (metis length_map live_nthE)+

section \<open>Round trips\<close>




text \<open>A node deleted before another one: the snapshot of the kernel cannot be restored.\<close>

definition holed :: KernelState where
  "holed = run [(0, AutoCreateNode NK_Concept None), (0, AutoCreateNode NK_Concept None), (0, DeleteNode 0)] kernel_new"


text \<open>A restored kernel hands out ids again that the kernel before it had already used: when nodes at the end of
  the pool were deleted, the next node id goes back, so the restored replica and the original disagree on the next node.\<close>

theorem snapshot_reuses_node_ids:
  assumes "reachable st" "snapshot_fits st" "dense_nodes st" "dense_edges st" "None \<in> set (ks_nodes st)"
  shows "\<exists>st'. decode_state (encode_state st) = Ok st' \<and> unat (next_node_id st') < unat (next_node_id st)"
proof -
  note inv = reachable_inv [OF assms(1)]
  have "length (live (ks_nodes st)) < length (ks_nodes st)"
    using assms(5) length_filter_less [of None "ks_nodes st" "\<lambda>s. s \<noteq> None"] live_count_live [of "ks_nodes st"]
    by (simp add: live_count_def)
  moreover have "length (ks_nodes st) < 2 ^ 32" using kernel_invD(2) [OF inv] by (simp add: nodes_ok_def)
  ultimately show ?thesis
    using decode_restored [OF inv assms(2-4), of "[]"]
    by (intro exI [of _ "restored st"]) (simp add: restored_def next_node_id_def unat_of_nat_len)
qed

theorem snapshot_reuses_node_ids_witness:
  "\<exists>st'. decode_state (encode_state trailing) = Ok st' \<and> unat (next_node_id st') < unat (next_node_id trailing)"
  by (rule snapshot_reuses_node_ids [OF trailing_reachable trailing_fits trailing_dense]) (simp add: trailing_eq)

section \<open>Bytes of any origin\<close>


text \<open>C34: The links between records are not checked: there is a snapshot that the decoder accepts and on whose
  state the namespace search runs forever.\<close>

theorem crafted_snapshot_hangs_search:
  "\<exists>buf st. decode_state buf = Ok st \<and> (\<forall>cpu query. search_l2_ns cpu st query [sr_worst] DEFAULT_NS = Diverges)"
proof (intro exI conjI allI)
  show "decode_state (encode_state looped) = Ok looped" by (rule looped_decodes)
  fix cpu query
  have rec: "slot (ks_records looped) 0 = Some (hd (live (ks_records looped)))" "r_next_in_ns (hd (live (ks_records looped))) = 0"
    "(0 :: u32) \<noteq> NS_LIST_NIL" by (simp_all add: looped_def slot_def NS_LIST_NIL_def)
  have "ns_search_loop 0 cpu (ks_records looped) query 1 (0, [sr_worst]) = None"
    using ns_search_loop_stuck rec by (metis not_None_eq)
  then show "search_l2_ns cpu looped query [sr_worst] DEFAULT_NS = Diverges"
    by (simp add: search_l2_ns_def looped_def kernel_new_def DEFAULT_NS_def max_ns_compare of_loop_def)
qed

text \<open>After a restore no key can be shredded: the table from keys to encrypted records is not part of a
  snapshot, so \<open>ShredKey\<close> succeeds and leaves every record, ciphertexts included, as it is.\<close>

theorem restored_kernel_cannot_shred:
  assumes "decode_state buf = Ok st" "version_ok st"
  shows "\<exists>st'. apply_event_ns (ShredKey key) ns st = (Ok (), st') \<and> ks_records st' = ks_records st"
proof -
  have "ks_encrypted_keys st = Map.empty"
    using decode_state_yields [of buf] assms(1) by (simp add: loaded_def)
  then show ?thesis
    using assms(2) by (auto simp: apply_event_ns_def apply_shred_key_def finish_def version_ok_def version_next_def split: if_splits)
qed

theorem restored_kernel_cannot_shred_witness:
  "\<exists>st st'. decode_state (encode_state demo) = Ok st \<and> apply_event_ns (ShredKey demo_key) 2 st = (Ok (), st') \<and>
     map_option r_metadata (slot (ks_records st') 2) = Some (Some [9])"
proof -
  let ?st = "demo\<lparr>ks_index := BruteForce, ks_encrypted_keys := Map.empty\<rparr>"
  note d = demo_decodes
  moreover have "version_ok ?st" by (simp add: demo_def version_ok_def version_next_def)
  ultimately obtain st' where "apply_event_ns (ShredKey demo_key) 2 ?st = (Ok (), st')" "ks_records st' = ks_records ?st"
    using restored_kernel_cannot_shred by blast
  moreover have "map_option r_metadata (slot (ks_records ?st) 2) = Some (Some [9])" by (simp add: demo_def slot_def)
  ultimately show ?thesis using d by (intro exI [of _ ?st] exI [of _ st'] conjI) simp_all
qed

end
