(* ===== verification/State_Hash.thy ===== *)
theory State_Hash
  imports Snapshot_Props
begin

text \<open>
  \<open>valori-kernel/src/snapshot/blake3.rs\<close>, \<open>verify.rs\<close> and \<open>proof.rs\<close>: the state hash, the Merkle root of a vector
  and insert receipts. The hash function of the crate \<open>blake3\<close> is the parameter \<open>H\<close>; a hasher fed by several
  \<open>update\<close> calls hashes the concatenation of the updates.
\<close>

definition ascii :: "string \<Rightarrow> bytes" where
  "ascii s = map of_char s"

section \<open>State hash\<close>

definition STATE_HASH_DOMAIN_VERSION :: u8 where "STATE_HASH_DOMAIN_VERSION = 2"

definition opt_id :: "u32 option \<Rightarrow> bytes" where
  "opt_id x = le32 (case x of Some i \<Rightarrow> i | None \<Rightarrow> - 1)"

definition record_preimage :: "Record \<Rightarrow> bytes" where
  "record_preimage r =
     le32 (r_id r) @ [r_flags r] @ concat (map le32 (r_vector r)) @ le64 (r_tag r) @
     (case r_metadata r of Some m \<Rightarrow> le32 (of_nat (length m)) @ m | None \<Rightarrow> le32 (- 1))"

definition node_preimage :: "GraphNode \<Rightarrow> bytes" where
  "node_preimage n = le32 (n_id n) @ [node_kind_u8 (n_kind n)] @ opt_id (n_record n) @ opt_id (n_first_out n)"

definition edge_preimage :: "GraphEdge \<Rightarrow> bytes" where
  "edge_preimage e = le32 (e_id e) @ [edge_kind_u8 (e_kind e)] @ le32 (e_from e) @ le32 (e_to e) @ opt_id (e_next_out e)"

definition state_preimage :: "KernelState \<Rightarrow> bytes" where
  "state_preimage st =
     ascii ''valori-state'' @ [STATE_HASH_DOMAIN_VERSION, ACTIVE_FORMAT_ID] @ le64 (ks_version st) @
     concat (map record_preimage (pool_iter (ks_records st))) @
     concat (map node_preimage (live (ks_nodes st))) @
     concat (map edge_preimage (live (ks_edges st)))"

definition hash_state_blake3 :: "(bytes \<Rightarrow> bytes) \<Rightarrow> KernelState \<Rightarrow> bytes" where
  "hash_state_blake3 H st = H (state_preimage st)"

definition snapshot_hash :: "(bytes \<Rightarrow> bytes) \<Rightarrow> bytes \<Rightarrow> bytes" where
  "snapshot_hash H bs = H bs"

definition wal_hash :: "(bytes \<Rightarrow> bytes) \<Rightarrow> bytes \<Rightarrow> bytes" where
  "wal_hash H bs = H bs"

section \<open>Merkle root\<close>

definition DOMAIN_LEAF :: bytes where "DOMAIN_LEAF = ascii ''VALORI_LEAF''"
definition DOMAIN_NODE :: bytes where "DOMAIN_NODE = ascii ''VALORI_NODE''"

text \<open>\<open>leaves.chunks(2)\<close>, each pair mapped; the last chunk may be a single leaf, which stands for both halves.\<close>

fun map_pairs :: "('a \<Rightarrow> 'a \<Rightarrow> 'a) \<Rightarrow> 'a list \<Rightarrow> 'a list" where
  "map_pairs f (a # b # xs) = f a b # map_pairs f xs"
| "map_pairs f [a] = [f a a]"
| "map_pairs f [] = []"

definition node_input :: "bytes \<Rightarrow> bytes \<Rightarrow> bytes" where
  "node_input a b = DOMAIN_NODE @ a @ b"

lemma length_map_pairs: "length (map_pairs f xs) = (length xs + 1) div 2"
  by (induction f xs rule: map_pairs.induct) simp_all

function merkle_root :: "(bytes \<Rightarrow> bytes) \<Rightarrow> bytes list \<Rightarrow> bytes" where
  "merkle_root H [] = replicate 32 0"
| "merkle_root H [a] = a"
| "merkle_root H (a # b # xs) = merkle_root H (map_pairs (\<lambda>x y. H (node_input x y)) (a # b # xs))"
  by pat_completeness auto
termination
  by (relation "measure (\<lambda>(H, xs). length xs)") (simp_all add: length_map_pairs)

definition leaf_input :: "nat \<Rightarrow> i32 \<Rightarrow> bytes" where
  "leaf_input pos val = DOMAIN_LEAF @ le32 (of_nat pos) @ le32 val"

definition generate_proof_bytes :: "(bytes \<Rightarrow> bytes) \<Rightarrow> i32 list \<Rightarrow> bytes" where
  "generate_proof_bytes H vals =
     (if vals = [] then replicate 32 0
      else merkle_root H (map (\<lambda>(pos, val). H (leaf_input pos val)) (List.enumerate 0 vals)))"

section \<open>Receipts\<close>

record InsertReceipt =
  ir_record_id :: u32
  ir_old_root :: bytes
  ir_new_root :: bytes
  ir_proof :: bytes
  ir_sequence :: u64
  ir_timestamp :: u64
  ir_state_hash :: bytes

definition self_hash_input :: "u32 \<Rightarrow> bytes \<Rightarrow> bytes \<Rightarrow> bytes \<Rightarrow> u64 \<Rightarrow> u64 \<Rightarrow> bytes" where
  "self_hash_input record_id old_root new_root proof_arr sequence timestamp =
     ascii ''valori-insert-receipt-v1'' @ le32 record_id @ old_root @ new_root @ proof_arr @ le64 sequence @ le64 timestamp"

definition compute_self_hash :: "(bytes \<Rightarrow> bytes) \<Rightarrow> u32 \<Rightarrow> bytes \<Rightarrow> bytes \<Rightarrow> bytes \<Rightarrow> u64 \<Rightarrow> u64 \<Rightarrow> bytes" where
  "compute_self_hash H record_id old_root new_root proof_arr sequence timestamp =
     H (self_hash_input record_id old_root new_root proof_arr sequence timestamp)"

definition receipt_build :: "(bytes \<Rightarrow> bytes) \<Rightarrow> u32 \<Rightarrow> bytes \<Rightarrow> i32 list \<Rightarrow> bytes \<Rightarrow> u64 \<Rightarrow> u64 \<Rightarrow> InsertReceipt" where
  "receipt_build H record_id old_root vector_fxp new_root sequence timestamp =
     (let proof_vec = generate_proof_bytes H vector_fxp;
          proof_arr = (if length proof_vec = 32 then proof_vec else replicate 32 0) in
      \<lparr>ir_record_id = record_id, ir_old_root = old_root, ir_new_root = new_root, ir_proof = proof_arr,
       ir_sequence = sequence, ir_timestamp = timestamp,
       ir_state_hash = compute_self_hash H record_id old_root new_root proof_arr sequence timestamp\<rparr>)"

definition receipt_verify :: "(bytes \<Rightarrow> bytes) \<Rightarrow> InsertReceipt \<Rightarrow> bool" where
  "receipt_verify H r \<longleftrightarrow>
     ir_state_hash r = compute_self_hash H (ir_record_id r) (ir_old_root r) (ir_new_root r) (ir_proof r)
       (ir_sequence r) (ir_timestamp r)"

section \<open>Hash trees\<close>

text \<open>The tree whose nodes the root commits to, and the byte strings hashed on the way.\<close>

datatype htree = Leaf nat i32 | Branch htree htree

fun hash_input :: "(bytes \<Rightarrow> bytes) \<Rightarrow> htree \<Rightarrow> bytes" where
  "hash_input H (Leaf p v) = leaf_input p v"
| "hash_input H (Branch l r) = node_input (H (hash_input H l)) (H (hash_input H r))"

abbreviation tree_hash :: "(bytes \<Rightarrow> bytes) \<Rightarrow> htree \<Rightarrow> bytes" where
  "tree_hash H t \<equiv> H (hash_input H t)"

fun hashed :: "(bytes \<Rightarrow> bytes) \<Rightarrow> htree \<Rightarrow> bytes set" where
  "hashed H (Leaf p v) = {leaf_input p v}"
| "hashed H (Branch l r) = insert (hash_input H (Branch l r)) (hashed H l \<union> hashed H r)"

fun tree_leaves :: "htree \<Rightarrow> (nat \<times> i32) set" where
  "tree_leaves (Leaf p v) = {(p, v)}"
| "tree_leaves (Branch l r) = tree_leaves l \<union> tree_leaves r"

function merkle_tree :: "htree list \<Rightarrow> htree" where
  "merkle_tree [] = Leaf 0 0"
| "merkle_tree [a] = a"
| "merkle_tree (a # b # xs) = merkle_tree (map_pairs Branch (a # b # xs))"
  by pat_completeness auto
termination
  by (relation "measure length") (simp_all add: length_map_pairs)

definition vector_tree :: "i32 list \<Rightarrow> htree" where
  "vector_tree vals = merkle_tree (map (\<lambda>(pos, val). Leaf pos val) (List.enumerate 0 vals))"

text \<open>The byte strings that are hashed to compute the proof of a vector.\<close>

definition proof_inputs :: "(bytes \<Rightarrow> bytes) \<Rightarrow> i32 list \<Rightarrow> bytes set" where
  "proof_inputs H vals = hashed H (vector_tree vals)"

lemma map_pairs_hash:
  "map_pairs (\<lambda>x y. H (node_input x y)) (map (tree_hash H) ts) = map (tree_hash H) (map_pairs Branch ts)"
  by (induction Branch ts rule: map_pairs.induct) simp_all

lemma merkle_root_tree: "ts \<noteq> [] \<Longrightarrow> merkle_root H (map (tree_hash H) ts) = tree_hash H (merkle_tree ts)"
proof (induction ts rule: merkle_tree.induct)
  case (3 a b xs)
  have "merkle_root H (map (tree_hash H) (a # b # xs)) = merkle_root H (map_pairs (\<lambda>x y. H (node_input x y)) (map (tree_hash H) (a # b # xs)))"
    by simp
  then show ?case using 3 unfolding map_pairs_hash by simp
qed simp_all

lemma generate_proof_bytes_tree:
  assumes "vals \<noteq> []"
  shows "generate_proof_bytes H vals = tree_hash H (vector_tree vals)"
proof -
  have eq: "map (\<lambda>(pos, val). H (leaf_input pos val)) xs = map (tree_hash H) (map (\<lambda>(pos, val). Leaf pos val) xs)" for xs
    by auto
  have "map (\<lambda>(pos, val). Leaf pos val) (List.enumerate 0 vals) \<noteq> []" using assms by (cases vals) simp_all
  from merkle_root_tree [OF this, of H] show ?thesis
    unfolding generate_proof_bytes_def vector_tree_def eq using assms by simp
qed

lemma map_pairs_leaves: "(\<Union>t \<in> set (map_pairs Branch ts). tree_leaves t) = (\<Union>t \<in> set ts. tree_leaves t)"
  by (induction Branch ts rule: map_pairs.induct) auto

lemma merkle_tree_leaves: "ts \<noteq> [] \<Longrightarrow> tree_leaves (merkle_tree ts) = (\<Union>t \<in> set ts. tree_leaves t)"
proof (induction ts rule: merkle_tree.induct)
  case (3 a b xs)
  then show ?case using map_pairs_leaves [of "a # b # xs"] by simp
qed simp_all

lemma vector_tree_leaves:
  assumes "vals \<noteq> []"
  shows "tree_leaves (vector_tree vals) = set (List.enumerate 0 vals)"
proof -
  have "map (\<lambda>(pos, val). Leaf pos val) (List.enumerate 0 vals) \<noteq> []" using assms by (cases vals) simp_all
  then show ?thesis by (auto simp: vector_tree_def merkle_tree_leaves split: prod.splits)
qed

lemma hash_input_hashed: "hash_input H t \<in> hashed H t"
  by (cases t) simp_all


section \<open>Binding\<close>

text \<open>
  Two trees with the same hash are the same tree, or among the byte strings hashed for them there are two different
  ones with the same hash.
\<close>

definition clash :: "(bytes \<Rightarrow> bytes) \<Rightarrow> bytes set \<Rightarrow> bytes set \<Rightarrow> bool" where
  "clash H A B \<longleftrightarrow> (\<exists>a \<in> A. \<exists>b \<in> B. a \<noteq> b \<and> H a = H b)"

lemma clash_mono: "clash H A B \<Longrightarrow> A \<subseteq> A' \<Longrightarrow> B \<subseteq> B' \<Longrightarrow> clash H A' B'"
  by (auto simp: clash_def)

lemma length_domains [simp]: "length DOMAIN_LEAF = 11" "length DOMAIN_NODE = 11"
  by (simp_all add: DOMAIN_LEAF_def DOMAIN_NODE_def ascii_def)

lemma leaf_input_inject: "p < 2 ^ 32 \<Longrightarrow> q < 2 ^ 32 \<Longrightarrow> leaf_input p v = leaf_input q w \<longleftrightarrow> p = q \<and> v = w"
proof -
  assume pq: "p < 2 ^ 32" "q < 2 ^ 32"
  have "(of_nat p :: u32) = of_nat q \<longleftrightarrow> p = q" using unat_of_nat_len [OF pq(1)] unat_of_nat_len [OF pq(2)] by metis
  then show ?thesis by (simp add: leaf_input_def)
qed

lemma tree_binding:
  assumes len: "\<And>x. length (H x) = 32"
  shows "tree_hash H t = tree_hash H u \<Longrightarrow> \<forall>(p, v) \<in> tree_leaves t \<union> tree_leaves u. p < 2 ^ 32 \<Longrightarrow>
    t = u \<or> clash H (hashed H t) (hashed H u)"
proof (induction t arbitrary: u)
  case (Leaf p v)
  show ?case
  proof (cases "hash_input H (Leaf p v) = hash_input H u")
    case True
    have "u = Leaf p v"
    proof (cases u)
      case (Leaf q w)
      then show ?thesis using True Leaf.prems(2) leaf_input_inject [of p q v w] by simp
    next
      case (Branch l r)
      then have "length (leaf_input p v) = length (node_input (tree_hash H l) (tree_hash H r))" using True by simp
      then show ?thesis by (simp add: leaf_input_def node_input_def len)
    qed
    then show ?thesis by simp
  next
    case False
    then show ?thesis using Leaf.prems(1) hash_input_hashed by (auto simp: clash_def)
  qed
next
  case (Branch l r)
  show ?case
  proof (cases "hash_input H (Branch l r) = hash_input H u")
    case True
    show ?thesis
    proof (cases u)
      case (Leaf q w)
      then have "length (leaf_input q w) = length (node_input (tree_hash H l) (tree_hash H r))" using True by simp
      then show ?thesis by (simp add: leaf_input_def node_input_def len)
    next
      case u: (Branch l' r')
      have "tree_hash H l = tree_hash H l'" "tree_hash H r = tree_hash H r'"
        using True u len by (simp_all add: node_input_def)
      then have "l = l' \<or> clash H (hashed H l) (hashed H l')" "r = r' \<or> clash H (hashed H r) (hashed H r')"
        using Branch.IH(1) [of l'] Branch.IH(2) [of r'] Branch.prems(2) u by auto
      moreover have "clash H (hashed H (Branch l r)) (hashed H u)"
        if "clash H (hashed H l) (hashed H l') \<or> clash H (hashed H r) (hashed H r')"
        using that clash_mono u by (metis hashed.simps(2) Un_upper1 Un_upper2 subset_insertI2)
      ultimately show ?thesis using u by auto
    qed
  next
    case False
    then show ?thesis using Branch.prems(1) hash_input_hashed unfolding clash_def by blast
  qed
qed

lemma enumerate_inject: "set (List.enumerate 0 u) = set (List.enumerate 0 v) \<Longrightarrow> u = v"
proof (rule nth_equalityI)
  assume eq: "set (List.enumerate 0 u) = set (List.enumerate 0 v)"
  have mem: "(i, a) \<in> set (List.enumerate 0 u) \<longleftrightarrow> i < length u \<and> u ! i = a"
    "(i, a) \<in> set (List.enumerate 0 v) \<longleftrightarrow> i < length v \<and> v ! i = a" for i a
    by (auto simp: in_set_enumerate_eq)
  have lt: "i < length u \<longleftrightarrow> i < length v" for i using eq mem by metis
  then show "length u = length v" by (meson linorder_neqE_nat less_irrefl)
  fix i assume "i < length u"
  then show "u ! i = v ! i" using eq mem by metis
qed

lemma vector_binding:
  assumes len: "\<And>x. length (H x) = 32" and ne: "u \<noteq> []" "v \<noteq> []" and size: "length u < 2 ^ 32" "length v < 2 ^ 32"
    and eq: "generate_proof_bytes H u = generate_proof_bytes H v" "u \<noteq> v"
  shows "clash H (proof_inputs H u) (proof_inputs H v)"
proof -
  have "\<forall>(p, w) \<in> tree_leaves (vector_tree u) \<union> tree_leaves (vector_tree v). p < 2 ^ 32"
    using ne size by (auto simp: vector_tree_leaves in_set_enumerate_eq)
  then have "vector_tree u = vector_tree v \<or> clash H (proof_inputs H u) (proof_inputs H v)"
    using tree_binding [of H, OF len, where t = "vector_tree u" and u = "vector_tree v"] eq(1) ne
    by (simp add: generate_proof_bytes_tree proof_inputs_def)
  moreover have "vector_tree u \<noteq> vector_tree v"
    using enumerate_inject [of u v] eq(2) vector_tree_leaves ne by metis
  ultimately show ?thesis by blast
qed

end
