(* ===== verification/Hash_Theorems.thy ===== *)
theory Hash_Theorems
  imports State_Hash Snapshot_Theorems
begin

text \<open>The properties of the state hash, of vector proofs and of insert receipts.\<close>

section \<open>State hash\<close>

lemma live_map_Some [simp]: "live (map Some xs) = xs"
  by (induction xs) simp_all



text \<open>A kernel with one record, in the given namespace.\<close>

definition tenant :: "u16 \<Rightarrow> KernelState" where
  "tenant ns = run [(ns, AutoInsertRecord [65536] None 0)] kernel_new"

lemma tenant_reachable: "unat ns < MAX_NAMESPACES \<Longrightarrow> reachable (tenant ns)"
  unfolding tenant_def by (rule safe_run_reachable [OF kernel_new_reachable]) (simp add: kernel_eval)

lemma tenant_eq: "unat ns < MAX_NAMESPACES \<Longrightarrow> tenant ns = kernel_new\<lparr>ks_dim := Some 1, ks_version := 1,
    ks_records := [Some \<lparr>r_id = 0, r_vector = [65536], r_metadata = None, r_tag = 0, r_flags = 0,
                         r_namespace_id = ns, r_next_in_ns = NS_LIST_NIL, r_prev_in_ns = NS_LIST_NIL\<rparr>],
    ks_record_heads := (replicate MAX_NAMESPACES NS_LIST_NIL)[unat ns := 0]\<rparr>"
  by (simp add: tenant_def kernel_eval not_le)

text \<open>The state hash does not cover namespaces: there are two reachable kernels with the same state hash for every
  hash function, of which one finds a record in namespace 1 and the other does not.\<close>

theorem state_hash_ignores_namespaces:
  "\<exists>a b. reachable a \<and> reachable b \<and> (\<forall>H. hash_state_blake3 H a = hash_state_blake3 H b) \<and>
     (\<forall>cpu. search_l2_ns cpu a [0] [sr_worst] 1 \<noteq> search_l2_ns cpu b [0] [sr_worst] 1)"
proof (intro exI conjI allI)
  show "reachable (tenant 1)" "reachable (tenant 2)" by (simp_all add: tenant_reachable max_ns_compare)
  fix H show "hash_state_blake3 H (tenant 1) = hash_state_blake3 H (tenant 2)"
    by (simp add: tenant_eq max_ns_compare hash_state_blake3_def state_preimage_def kernel_new_def pool_iter_def record_preimage_def
        is_active_def)
next
  fix cpu
  have "\<exists>r. search_l2_ns cpu (tenant 1) [0] [sr_worst] 1 = Ok (1, r)"
    by (simp add: tenant_eq max_ns_compare kernel_new_def search_l2_ns_def ns_search_loop.simps slot_def NS_LIST_NIL_def of_loop_def
      is_active_def offer_def)
  moreover have "search_l2_ns cpu (tenant 2) [0] [sr_worst] 1 = Ok (0, [sr_worst])"
    by (simp add: tenant_eq max_ns_compare kernel_new_def search_l2_ns_def ns_search_loop.simps slot_def of_loop_def)
  ultimately show "search_l2_ns cpu (tenant 1) [0] [sr_worst] 1 \<noteq> search_l2_ns cpu (tenant 2) [0] [sr_worst] 1" by auto
qed

section \<open>Receipts\<close>

text \<open>C36: The proof of a vector commits to the vector: if two different non-empty vectors have the same proof,
  then two different byte strings hashed while computing the two proofs have the same hash.\<close>

theorem vector_proof_binding:
  assumes "\<And>x. length (H x) = 32" "u \<noteq> []" "v \<noteq> []" "length u < 2 ^ 32" "length v < 2 ^ 32"
    "generate_proof_bytes H u = generate_proof_bytes H v" "u \<noteq> v"
  shows "clash H (proof_inputs H u) (proof_inputs H v)"
  by (rule vector_binding [OF assms])

theorem vector_proof_binding_witness:
  "clash (\<lambda>_. replicate 32 0) (proof_inputs (\<lambda>_. replicate 32 0) [1]) (proof_inputs (\<lambda>_. replicate 32 0) [1, 2])"
  by (rule vector_proof_binding) (simp_all add: generate_proof_bytes_def)


definition flat :: "bytes \<Rightarrow> bytes" where
  "flat x = replicate 32 0"

definition sample_receipt :: "i32 list \<Rightarrow> InsertReceipt" where
  "sample_receipt v = receipt_build flat 0 (replicate 32 1) v (replicate 32 2) 1 9"


end
