(* ===== verification/Wire.thy ===== *)
theory Wire
  imports Kernel_Event
begin

text \<open>
  \<open>valori-wire/src/lib.rs\<close>: the segment header, the entries of the event log and the hash chain over them, and the
  rendering of timestamps. The serialisation of whole entries (\<open>bincode::serde\<close>), the checksum (\<open>crc32fast\<close>) and the hash
  (\<open>blake3\<close>) are third-party: they are the fields of the parameter \<open>c\<close>. What the code relies on is \<open>codec_laws c\<close>.
\<close>

section \<open>Constants and types\<close>

definition VERSION_V2 :: u32 where "VERSION_V2 = 2"
definition VERSION_V3 :: u32 where "VERSION_V3 = 3"
definition VERSION_V4 :: u32 where "VERSION_V4 = 4"
definition HEADER_SIZE_V2 :: nat where "HEADER_SIZE_V2 = 16"
definition HEADER_SIZE_V3 :: nat where "HEADER_SIZE_V3 = 48"
definition CRC32_SUFFIX_LEN :: nat where "CRC32_SUFFIX_LEN = 4"
definition METADATA_CAP :: nat where "METADATA_CAP = 65536"
definition DECODE_LIMIT :: nat where "DECODE_LIMIT = 1048576"
definition FORMAT_Q16_16 :: u8 where "FORMAT_Q16_16 = 1"
definition WIRE_MAX_DIM :: nat where "WIRE_MAX_DIM = 32768"

datatype DecodeError = LimitExceeded | UnexpectedEnd | OtherError string

datatype WireError =
    TooShort nat
  | UnsupportedVersion u32
  | UnsupportedFormat u8
  | WDecode string
  | WEncode string
  | InvalidDim u32
  | DecodeLimitExceeded
  | WMetadataTooLarge nat
  | Truncated

datatype AdminEvent =
    NodeJoined u64 rust_string rust_string bytes
  | NodeLeft u64 bytes

datatype LogEntry =
    Event KernelEvent
  | Checkpoint u64 bytes u64
  | Admin AdminEvent
  | EventNs u16 KernelEvent

record EntryV2 =
  e2_prev_hash :: bytes
  e2_wall_time_secs :: u64
  e2_entry :: LogEntry

record EntryV3 =
  e3_prev_hash :: bytes
  e3_wall_time_secs :: u64
  e3_request_id :: "bytes option"
  e3_entry :: LogEntry

record DecodedEntry =
  d_prev_hash :: bytes
  d_wall_time_secs :: u64
  d_request_id :: "bytes option"
  d_entry :: LogEntry

record SegmentHeader =
  h_version :: u32
  h_dim :: u32
  h_format_id :: u8
  h_segment_seq :: u32
  h_prev_head :: bytes
  h_header_len :: nat

record wire_codec =
  enc_v2 :: "EntryV2 \<Rightarrow> (string, bytes) res"
  dec_v2 :: "bytes \<Rightarrow> (DecodeError, EntryV2 \<times> nat) res"
  enc_v3 :: "EntryV3 \<Rightarrow> (string, bytes) res"
  dec_v3 :: "bytes \<Rightarrow> (DecodeError, EntryV3 \<times> nat) res"
  enc_commit_v2 :: "u64 \<times> LogEntry \<Rightarrow> (string, bytes) res"
  enc_commit_v3 :: "u64 \<times> bytes option \<times> LogEntry \<Rightarrow> (string, bytes) res"
  crc32_of :: "bytes \<Rightarrow> u32"
  blake3_of :: "bytes \<Rightarrow> bytes"

section \<open>Headers\<close>

definition u32_at :: "nat \<Rightarrow> bytes \<Rightarrow> u32" where
  "u32_at i bs = of_nat (nat_le (take 4 (drop i bs)))"

definition parse_header :: "bytes \<Rightarrow> (WireError, SegmentHeader) res" where
  "parse_header bs =
     (if length bs < HEADER_SIZE_V2 then Err (TooShort (length bs))
      else let version = u32_at 0 bs; dim = u32_at 4 bs in
        if \<not> (1 \<le> unat dim \<and> unat dim \<le> WIRE_MAX_DIM) then Err (InvalidDim dim)
        else if version = VERSION_V2
        then Ok \<lparr>h_version = version, h_dim = dim, h_format_id = FORMAT_Q16_16, h_segment_seq = 0,
                 h_prev_head = replicate 32 0, h_header_len = HEADER_SIZE_V2\<rparr>
        else if version = VERSION_V3 \<or> version = VERSION_V4
        then (if length bs < HEADER_SIZE_V3 then Err (TooShort (length bs))
              else let format_id = bs ! 8 in
                if format_id \<noteq> FORMAT_Q16_16 then Err (UnsupportedFormat format_id)
                else Ok \<lparr>h_version = version, h_dim = dim, h_format_id = format_id, h_segment_seq = u32_at 12 bs,
                         h_prev_head = take 32 (drop 16 bs), h_header_len = HEADER_SIZE_V3\<rparr>)
        else Err (UnsupportedVersion version))"

definition encode_header_v3 :: "u32 \<Rightarrow> u8 \<Rightarrow> u32 \<Rightarrow> bytes \<Rightarrow> bytes" where
  "encode_header_v3 dim format_id segment_seq prev_head =
     le32 VERSION_V3 @ le32 dim @ [format_id, 0, 0, 0] @ le32 segment_seq @ prev_head"

definition encode_header_v4 :: "u32 \<Rightarrow> u8 \<Rightarrow> u32 \<Rightarrow> bytes \<Rightarrow> bytes" where
  "encode_header_v4 dim format_id segment_seq prev_head =
     le32 VERSION_V4 @ le32 dim @ [format_id, 0, 0, 0] @ le32 segment_seq @ prev_head"

definition encode_header_v2 :: "u32 \<Rightarrow> bytes" where
  "encode_header_v2 dim = le32 VERSION_V2 @ le32 dim @ replicate 8 0"

section \<open>Entries\<close>

fun map_decode_err :: "DecodeError \<Rightarrow> WireError" where
  "map_decode_err LimitExceeded = DecodeLimitExceeded"
| "map_decode_err UnexpectedEnd = Truncated"
| "map_decode_err (OtherError s) = WDecode s"

fun map_err :: "('e \<Rightarrow> 'f) \<Rightarrow> ('e, 'a) res \<Rightarrow> ('f, 'a) res" where
  "map_err f (Ok x) = Ok x"
| "map_err f (Err e) = Err (f e)"
| "map_err f Panic = Panic"
| "map_err f Diverges = Diverges"

fun event_meta_len :: "KernelEvent \<Rightarrow> nat option" where
  "event_meta_len (InsertRecord _ _ md _) = map_option length md"
| "event_meta_len (AutoInsertRecord _ md _) = map_option length md"
| "event_meta_len (UpdateRecordMetadata _ md) = map_option length md"
| "event_meta_len (InsertRecordEncrypted _ _ _ md _) = map_option length md"
| "event_meta_len _ = None"

definition check_metadata_cap :: "LogEntry \<Rightarrow> (WireError, unit) res" where
  "check_metadata_cap entry =
     (case (case entry of Event e \<Rightarrow> event_meta_len e | EventNs _ e \<Rightarrow> event_meta_len e | _ \<Rightarrow> None) of
        Some len \<Rightarrow> if len > METADATA_CAP then Err (WMetadataTooLarge len) else Ok ()
      | None \<Rightarrow> Ok ())"

definition crc_message :: "u32 \<Rightarrow> u32 \<Rightarrow> string" where
  "crc_message stored computed =
     ''V4 entry CRC32 mismatch: stored 0x'' @ hex_nat 8 (unat stored) @ '', computed 0x'' @ hex_nat 8 (unat computed)"

definition of_v3 :: "EntryV3 \<Rightarrow> DecodedEntry" where
  "of_v3 e = \<lparr>d_prev_hash = e3_prev_hash e, d_wall_time_secs = e3_wall_time_secs e,
              d_request_id = e3_request_id e, d_entry = e3_entry e\<rparr>"

definition decode_entry :: "wire_codec \<Rightarrow> u32 \<Rightarrow> bytes \<Rightarrow> (WireError, DecodedEntry \<times> nat) res" where
  "decode_entry c version bs =
     (if version = VERSION_V2
      then res_bind (map_err map_decode_err (dec_v2 c bs)) (\<lambda>(e, n).
        Ok (\<lparr>d_prev_hash = e2_prev_hash e, d_wall_time_secs = e2_wall_time_secs e,
             d_request_id = None, d_entry = e2_entry e\<rparr>, n))
      else if version = VERSION_V3
      then res_bind (map_err map_decode_err (dec_v3 c bs)) (\<lambda>(e, n). Ok (of_v3 e, n))
      else if version = VERSION_V4
      then res_bind (map_err map_decode_err (dec_v3 c bs)) (\<lambda>(e, n).
        if n + CRC32_SUFFIX_LEN > length bs then Err Truncated
        else let stored = u32_at n bs; computed = crc32_of c (take n bs) in
          if computed \<noteq> stored then Err (WDecode (crc_message stored computed))
          else Ok (of_v3 e, n + CRC32_SUFFIX_LEN))
      else Err (UnsupportedVersion version))"

definition encode_entry :: "wire_codec \<Rightarrow> u32 \<Rightarrow> bytes \<Rightarrow> u64 \<Rightarrow> bytes option \<Rightarrow> LogEntry \<Rightarrow> (WireError, bytes) res" where
  "encode_entry c version prev_hash wall_time_secs request_id entry =
     res_bind (check_metadata_cap entry) (\<lambda>_.
     if version = VERSION_V2
     then map_err WEncode (enc_v2 c \<lparr>e2_prev_hash = prev_hash, e2_wall_time_secs = wall_time_secs, e2_entry = entry\<rparr>)
     else if version = VERSION_V3
     then map_err WEncode (enc_v3 c \<lparr>e3_prev_hash = prev_hash, e3_wall_time_secs = wall_time_secs,
            e3_request_id = request_id, e3_entry = entry\<rparr>)
     else if version = VERSION_V4
     then res_bind (map_err WEncode (enc_v3 c \<lparr>e3_prev_hash = prev_hash, e3_wall_time_secs = wall_time_secs,
            e3_request_id = request_id, e3_entry = entry\<rparr>)) (\<lambda>payload. Ok (payload @ le32 (crc32_of c payload)))
     else Err (UnsupportedVersion version))"

section \<open>The hash chain\<close>

text \<open>The \<open>expect\<close> on the serialisation is a panic.\<close>

definition expect :: "('e, 'a) res \<Rightarrow> ('f, 'a) res" where
  "expect r = (case r of Ok x \<Rightarrow> Ok x | Diverges \<Rightarrow> Diverges | _ \<Rightarrow> Panic)"

definition chain_advance_v2 :: "wire_codec \<Rightarrow> bytes \<Rightarrow> u64 \<Rightarrow> LogEntry \<Rightarrow> (WireError, bytes) res" where
  "chain_advance_v2 c head wall_time_secs entry =
     res_bind (expect (enc_commit_v2 c (wall_time_secs, entry))) (\<lambda>commit. Ok (blake3_of c (head @ commit)))"

definition chain_advance_v3 :: "wire_codec \<Rightarrow> bytes \<Rightarrow> u64 \<Rightarrow> bytes option \<Rightarrow> LogEntry \<Rightarrow> (WireError, bytes) res" where
  "chain_advance_v3 c head wall_time_secs request_id entry =
     res_bind (expect (enc_commit_v3 c (wall_time_secs, request_id, entry))) (\<lambda>commit. Ok (blake3_of c (head @ commit)))"

definition chain_advance :: "wire_codec \<Rightarrow> u32 \<Rightarrow> bytes \<Rightarrow> DecodedEntry \<Rightarrow> (WireError, bytes) res" where
  "chain_advance c version head e =
     (if version = VERSION_V2 then chain_advance_v2 c head (d_wall_time_secs e) (d_entry e)
      else if version = VERSION_V3 then chain_advance_v3 c head (d_wall_time_secs e) (d_request_id e) (d_entry e)
      else if version = VERSION_V4 then chain_advance_v3 c head (d_wall_time_secs e) (d_request_id e) (d_entry e)
      else Err (UnsupportedVersion version))"

end
