(* ===== verification/Wire_Time.thy ===== *)
theory Wire_Time
  imports Wire
begin

text \<open>\<open>valori-wire/src/lib.rs\<close>, \<open>hex\<close> and \<open>format_utc\<close>: the rendering of bytes and of Unix timestamps as UTC dates.\<close>

section \<open>Rendering\<close>

definition hex :: "bytes \<Rightarrow> string" where
  "hex bs = concat (map (\<lambda>b. hex_nat 2 (unat b)) bs)"

text \<open>\<open>{:02}\<close> and \<open>{:04}\<close> of the standard library: decimal digits, padded with zeros on the left.\<close>

fun dec_digits :: "nat \<Rightarrow> string" where
  "dec_digits n = (if n < 10 then [hex_digit n] else dec_digits (n div 10) @ [hex_digit (n mod 10)])"

declare dec_digits.simps [simp del]

definition dec_pad :: "nat \<Rightarrow> nat \<Rightarrow> string" where
  "dec_pad w n = replicate (w - length (dec_digits n)) (CHR ''0'') @ dec_digits n"

definition render_utc :: "nat \<Rightarrow> nat \<Rightarrow> nat \<Rightarrow> nat \<Rightarrow> string" where
  "render_utc year month day secs_of_day =
     dec_pad 4 year @ ''-'' @ dec_pad 2 month @ ''-'' @ dec_pad 2 day @ ''T'' @ dec_pad 2 (secs_of_day div 3600) @ '':'' @
     dec_pad 2 (secs_of_day mod 3600 div 60) @ '':'' @ dec_pad 2 (secs_of_day mod 60) @ ''Z''"

section \<open>Dates\<close>

definition leap_year :: "nat \<Rightarrow> bool" where
  "leap_year year \<longleftrightarrow> year mod 4 = 0 \<and> (year mod 100 \<noteq> 0 \<or> year mod 400 = 0)"

definition days_in_year :: "nat \<Rightarrow> nat" where
  "days_in_year year = (if leap_year year then 366 else 365)"

lemma days_in_year_pos: "0 < days_in_year year"
  by (simp add: days_in_year_def)

text \<open>The loop over the years.\<close>

function year_loop :: "nat \<Rightarrow> nat \<Rightarrow> nat \<times> nat" where
  "year_loop days year =
     (if days < days_in_year year then (days, year) else year_loop (days - days_in_year year) (year + 1))"
  by pat_completeness auto
termination
  using days_in_year_pos by (relation "measure fst") (auto simp: not_less intro!: diff_less intro: less_le_trans)

declare year_loop.simps [simp del]

definition DAYS_BEFORE_MONTH :: "nat list" where
  "DAYS_BEFORE_MONTH = [0, 31, 59, 90, 120, 151, 181, 212, 243, 273, 304, 334, 365]"

definition find_month :: "bool \<Rightarrow> nat \<Rightarrow> nat" where
  "find_month leap days =
     (case List.find (\<lambda>mi. days < DAYS_BEFORE_MONTH ! mi + (if leap \<and> mi > 2 then 1 else 0)) [1..<13] of
        Some mi \<Rightarrow> mi | None \<Rightarrow> 12)"

text \<open>The subtraction is on \<open>u32\<close>; in the release profile it wraps.\<close>

definition day_of_month :: "bool \<Rightarrow> nat \<Rightarrow> nat \<Rightarrow> nat" where
  "day_of_month leap days month =
     unat (of_nat days - of_nat (DAYS_BEFORE_MONTH ! (month - 1) + (if leap \<and> month > 2 then 1 else 0)) + 1 :: u32)"

definition format_utc :: "nat \<Rightarrow> string" where
  "format_utc unix_secs =
     (let (days, year) = year_loop (unix_secs div 86400 mod 2 ^ 32) 1970;
          leap = leap_year year;
          month = find_month leap days in
      render_utc year month (day_of_month leap days month) (unix_secs mod 86400))"

section \<open>The calendar\<close>

definition month_len :: "nat \<Rightarrow> nat \<Rightarrow> nat" where
  "month_len year m = (if m = 2 then (if leap_year year then 29 else 28) else if m \<in> {4, 6, 9, 11} then 30 else 31)"

definition valid_date :: "nat \<Rightarrow> nat \<Rightarrow> nat \<Rightarrow> bool" where
  "valid_date year m d \<longleftrightarrow> m \<in> {1..12} \<and> d \<in> {1..month_len year m}"

text \<open>The number of days from the first of January 1970.\<close>

definition days_since_epoch :: "nat \<Rightarrow> nat \<Rightarrow> nat \<Rightarrow> nat" where
  "days_since_epoch year m d = sum_list (map days_in_year [1970..<year]) + sum_list (map (month_len year) [1..<m]) + (d - 1)"

lemma year_loop_result:
  "year_loop days year = (d, y) \<Longrightarrow> d < days_in_year y \<and> year \<le> y \<and> days = sum_list (map days_in_year [year..<y]) + d"
proof (induction days year arbitrary: d y rule: year_loop.induct)
  case (1 days year)
  show ?case
  proof (cases "days < days_in_year year")
    case True
    then show ?thesis using 1(2) by (subst (asm) year_loop.simps) simp
  next
    case False
    then have "year_loop (days - days_in_year year) (year + 1) = (d, y)" using 1(2) by (subst (asm) year_loop.simps) simp
    from 1(1) [OF False this] False show ?thesis by (simp add: upt_conv_Cons not_less) arith
  qed
qed

lemma upt_months: "[1..<13] = [1, 2, 3, 4, 5, 6, 7, 8, 9, 10, 11, 12 :: nat]"
  by (simp add: upt_rec)

lemma word_day: "k \<le> n \<Longrightarrow> n < 1000 \<Longrightarrow> unat (of_nat n - of_nat k + 1 :: u32) = n - k + 1"
proof -
  assume "k \<le> n" "n < 1000"
  then have "(of_nat n - of_nat k + 1 :: u32) = of_nat (n - k + 1)" by (simp add: of_nat_diff)
  moreover have "n - k + 1 < 2 ^ 32" using \<open>n < 1000\<close> by simp
  ultimately show ?thesis by (metis unat_of_nat_len)
qed

text \<open>The first day of a month within its year.\<close>

definition month_start :: "nat \<Rightarrow> nat \<Rightarrow> nat" where
  "month_start year m = sum_list (map (month_len year) [1..<m])"

lemma month_start_Suc: "1 \<le> m \<Longrightarrow> month_start year (Suc m) = month_start year m + month_len year m"
  by (simp add: month_start_def)

lemma month_starts:
  fixes year :: nat
  defines "l \<equiv> if leap_year year then 1 else 0"
  shows "month_start year 1 = 0" "month_start year 2 = 31" "month_start year 3 = 59 + l" "month_start year 4 = 90 + l"
    "month_start year 5 = 120 + l" "month_start year 6 = 151 + l" "month_start year 7 = 181 + l" "month_start year 8 = 212 + l"
    "month_start year 9 = 243 + l" "month_start year 10 = 273 + l" "month_start year 11 = 304 + l" "month_start year 12 = 334 + l"
proof -
  show 1: "month_start year 1 = 0" by (simp add: month_start_def)
  show 2: "month_start year 2 = 31" using month_start_Suc [of 1 year] 1 by (simp add: month_len_def numeral_2_eq_2)
  show 3: "month_start year 3 = 59 + l" using month_start_Suc [of 2 year] 2 by (simp add: month_len_def l_def)
  show 4: "month_start year 4 = 90 + l" using month_start_Suc [of 3 year] 3 by (simp add: month_len_def)
  show 5: "month_start year 5 = 120 + l" using month_start_Suc [of 4 year] 4 by (simp add: month_len_def)
  show 6: "month_start year 6 = 151 + l" using month_start_Suc [of 5 year] 5 by (simp add: month_len_def)
  show 7: "month_start year 7 = 181 + l" using month_start_Suc [of 6 year] 6 by (simp add: month_len_def)
  show 8: "month_start year 8 = 212 + l" using month_start_Suc [of 7 year] 7 by (simp add: month_len_def)
  show 9: "month_start year 9 = 243 + l" using month_start_Suc [of 8 year] 8 by (simp add: month_len_def)
  show 10: "month_start year 10 = 273 + l" using month_start_Suc [of 9 year] 9 by (simp add: month_len_def)
  show 11: "month_start year 11 = 304 + l" using month_start_Suc [of 10 year] 10 by (simp add: month_len_def)
  show "month_start year 12 = 334 + l" using month_start_Suc [of 11 year] 11 by (simp add: month_len_def)
qed

lemma month_cases:
  assumes "days < days_in_year year"
  obtains m where "m \<in> set [1..<13]" "month_start year m \<le> days" "days < month_start year m + month_len year m"
proof -
  have "\<exists>m \<in> set [1..<13]. month_start year m \<le> days \<and> days < month_start year m + month_len year m"
    using assms unfolding upt_months list.set bex_simps month_starts month_len_def days_in_year_def
    by (cases "leap_year year") (simp_all, linarith+)
  then show ?thesis using that by blast
qed

lemma find_month_ifs:
  "find_month leap days =
     (let l = (if leap then 1 else 0) in
      if days < 31 then 1 else if days < 59 then 2 else if days < 90 + l then 3 else if days < 120 + l then 4
      else if days < 151 + l then 5 else if days < 181 + l then 6 else if days < 212 + l then 7 else if days < 243 + l then 8
      else if days < 273 + l then 9 else if days < 304 + l then 10 else if days < 334 + l then 11 else 12)"
  unfolding find_month_def upt_months by (cases leap) (simp_all add: DAYS_BEFORE_MONTH_def)

lemma months_disj: "m \<in> set [1..<13] \<Longrightarrow>
    m = 1 \<or> m = 2 \<or> m = 3 \<or> m = 4 \<or> m = 5 \<or> m = 6 \<or> m = 7 \<or> m = 8 \<or> m = 9 \<or> m = 10 \<or> m = 11 \<or> m = 12"
  unfolding upt_months by simp

lemma find_month_month:
  assumes "m \<in> set [1..<13]" "month_start year m \<le> days" "days < month_start year m + month_len year m"
  shows "find_month (leap_year year) days = (if m = 2 \<and> days = 59 then 3 else m)"
  using months_disj [OF assms(1)] assms(2,3)
  by (elim disjE; cases "leap_year year"; simp only: month_starts month_len_def find_month_ifs; simp)

lemma month_table:
  assumes "m \<in> set [1..<13]"
  shows "DAYS_BEFORE_MONTH ! (m - 1) + (if leap_year year \<and> m > 2 then 1 else 0) = month_start year m"
  using months_disj [OF assms]
  by (elim disjE) (simp_all only: month_starts, simp_all add: DAYS_BEFORE_MONTH_def)

text \<open>The month and day the code computes from the day of the year.\<close>

lemma find_month_date:
  assumes "days < days_in_year year"
  shows "\<exists>m d. valid_date year m d \<and> days = month_start year m + (d - 1) \<and>
    (if m = 2 \<and> d = 29 then find_month (leap_year year) days = 3 \<and> day_of_month (leap_year year) days 3 = 0
     else find_month (leap_year year) days = m \<and> day_of_month (leap_year year) days m = d)"
proof -
  obtain m where m: "m \<in> set [1..<13]" "month_start year m \<le> days" "days < month_start year m + month_len year m"
    using month_cases [OF assms] .
  have small: "days < 1000" using assms by (simp add: days_in_year_def split: if_splits)
  have day: "day_of_month (leap_year year) days m = days - month_start year m + 1"
    unfolding day_of_month_def month_table [OF m(1)] using m(2) small by (rule word_day)
  have feb: "day_of_month (leap_year year) days 3 = 0" if "m = 2" "days = 59" "leap_year year"
    using that by (simp add: day_of_month_def DAYS_BEFORE_MONTH_def)
  have leap: "m = 2 \<Longrightarrow> days - month_start year m + 1 = 29 \<Longrightarrow> days = 59 \<and> leap_year year"
    "m = 2 \<Longrightarrow> days = 59 \<Longrightarrow> days - month_start year m + 1 = 29"
    using m(2,3) by (auto simp: month_starts(2) month_len_def split: if_splits)
  let ?d = "days - month_start year m + 1"
  have "valid_date year m ?d" using m by (simp add: valid_date_def)
  moreover have "days = month_start year m + (?d - 1)" using m(2) by simp
  moreover have "if m = 2 \<and> ?d = 29 then find_month (leap_year year) days = 3 \<and> day_of_month (leap_year year) days 3 = 0
     else find_month (leap_year year) days = m \<and> day_of_month (leap_year year) days m = ?d"
  proof (cases "m = 2 \<and> ?d = 29")
    case True
    then have "days = 59" "leap_year year" using leap(1) by blast+
    then show ?thesis unfolding find_month_month [OF m] using True feb by (simp add: month_starts(2))
  next
    case False
    then have "\<not> (m = 2 \<and> days = 59)" using leap(2) by blast
    then show ?thesis unfolding find_month_month [OF m] day using False by simp
  qed
  ultimately show ?thesis by blast
qed

text \<open>The date of a timestamp: for every timestamp below \<open>2\<^sup>32\<close> days \<open>format_utc\<close> prints the valid calendar date that
  lies this number of days after the epoch, followed by the time of day, except on the 29th of February, which it prints as day 0 of March.\<close>

theorem format_utc_date:
  assumes "secs < 2 ^ 32 * 86400"
  shows "\<exists>y m d. valid_date y m d \<and> days_since_epoch y m d = secs div 86400 \<and>
    format_utc secs = (if m = 2 \<and> d = 29 then render_utc y 3 0 (secs mod 86400) else render_utc y m d (secs mod 86400))"
proof -
  obtain days y where loop: "year_loop (secs div 86400) 1970 = (days, y)" by fastforce
  note res = year_loop_result [OF loop]
  obtain m d where md: "valid_date y m d" "days = month_start y m + (d - 1)"
    "if m = 2 \<and> d = 29 then find_month (leap_year y) days = 3 \<and> day_of_month (leap_year y) days 3 = 0
     else find_month (leap_year y) days = m \<and> day_of_month (leap_year y) days m = d"
    using find_month_date [of days y] res by blast
  have "secs div 86400 mod 2 ^ 32 = secs div 86400" using assms by (simp add: less_mult_imp_div_less)
  then have "format_utc secs = (if m = 2 \<and> d = 29 then render_utc y 3 0 (secs mod 86400) else render_utc y m d (secs mod 86400))"
    using loop md(3) by (simp add: format_utc_def)
  moreover have "days_since_epoch y m d = secs div 86400"
    using res md(2) by (simp add: days_since_epoch_def month_start_def)
  ultimately show ?thesis using md(1) by blast
qed

theorem format_utc_date_witness:
  "format_utc 1709164800 = ''2024-03-00T00:00:00Z'' \<and>
   (\<exists>y m d. valid_date y m d \<and> days_since_epoch y m d = 19782 \<and>
     format_utc 1709164800 = (if m = 2 \<and> d = 29 then render_utc y 3 0 0 else render_utc y m d 0))"
proof
  have "year_loop 19782 1970 = (59, 2024)"
    by (simp add: year_loop.simps days_in_year_def leap_year_def)
  moreover have "leap_year 2024" "find_month True 59 = 3" "day_of_month True 59 3 = 0"
    by (simp_all add: leap_year_def find_month_ifs day_of_month_def DAYS_BEFORE_MONTH_def)
  ultimately have "format_utc 1709164800 = render_utc 2024 3 0 0" by (simp add: format_utc_def)
  also have "\<dots> = ''2024-03-00T00:00:00Z''"
    by (simp add: render_utc_def dec_pad_def dec_digits.simps hex_digit_def)
  finally show "format_utc 1709164800 = ''2024-03-00T00:00:00Z''" .
  have dm: "(1709164800 :: nat) div 86400 = 19782" "(1709164800 :: nat) mod 86400 = 0" "(1709164800 :: nat) < 2 ^ 32 * 86400"
    by simp_all
  show "\<exists>y m d. valid_date y m d \<and> days_since_epoch y m d = 19782 \<and>
     format_utc 1709164800 = (if m = 2 \<and> d = 29 then render_utc y 3 0 0 else render_utc y m d 0)"
    using format_utc_date [OF dm(3)] by (simp only: dm(1,2))
qed

end
