(* ===== verification/Event_Log.thy ===== *)
theory Event_Log
  imports Wire
begin

text \<open>
  \<open>valori-storage/src/events/event_log.rs\<close>: the append-only event log. The file is modelled by the bytes handed to it and
  the number of them known to be on disk: after a crash the file is a prefix that contains at least these.
  File-system errors are not modelled; the clock is an argument of every operation that reads it.
\<close>

section \<open>Reading a segment\<close>

datatype SegmentWalkError = WalkChainBroken nat | WalkWire nat WireError

datatype EventLogError = InvalidHeader | DimensionMismatch u32 u32 | LogWire WireError | LogChainBroken nat

text \<open>The walk keeps the bytes from the current offset on.\<close>

partial_function (option) walk_loop :: "wire_codec \<Rightarrow> u32 \<Rightarrow> bytes \<Rightarrow> nat \<Rightarrow> bytes \<Rightarrow> DecodedEntry list
    \<Rightarrow> (SegmentWalkError, DecodedEntry list \<times> bytes) res option" where
  "walk_loop c version rest offset chain_head entries =
     (if rest = [] then Some (Ok (entries, chain_head))
      else case decode_entry c version rest of
        Ok p \<Rightarrow>
          (if d_prev_hash (fst p) \<noteq> chain_head then Some (Err (WalkChainBroken offset))
           else case chain_advance c version chain_head (fst p) of
             Ok head \<Rightarrow> walk_loop c version (drop (snd p) rest) (offset + snd p) head (entries @ [fst p])
           | Err e \<Rightarrow> Some (Err (WalkWire offset e))
           | Panic \<Rightarrow> Some Panic
           | Diverges \<Rightarrow> Some Diverges)
      | Err e \<Rightarrow> Some (if e = Truncated then Ok (entries, chain_head) else Err (WalkWire offset e))
      | Panic \<Rightarrow> Some Panic
      | Diverges \<Rightarrow> Some Diverges)"

definition walk_segment_body :: "wire_codec \<Rightarrow> u32 \<Rightarrow> bytes \<Rightarrow> nat \<Rightarrow> bytes
    \<Rightarrow> (SegmentWalkError, DecodedEntry list \<times> bytes) res" where
  "walk_segment_body c version buf start_offset initial_head =
     of_loop (walk_loop c version (drop start_offset buf) start_offset initial_head [])"

section \<open>The writer\<close>

record EventLogWriter =
  w_written :: bytes
  w_synced :: nat
  w_event_count :: u64
  w_dim :: u32
  w_version :: u32
  w_segment_seq :: u32
  w_chain_head :: bytes
  w_bytes_written :: u64

definition count_entry :: "DecodedEntry \<Rightarrow> u64 \<Rightarrow> u64" where
  "count_entry d n = (case d_entry d of
     Event _ \<Rightarrow> n + 1 | EventNs _ _ \<Rightarrow> n + 1 | Checkpoint k _ _ \<Rightarrow> k | Admin _ \<Rightarrow> n)"

fun walk_error :: "SegmentWalkError \<Rightarrow> EventLogError" where
  "walk_error (WalkChainBroken offset) = LogChainBroken offset"
| "walk_error (WalkWire _ e) = LogWire e"

text \<open>Opening: \<open>None\<close> stands for a file that does not exist.\<close>

definition log_open :: "wire_codec \<Rightarrow> bytes option \<Rightarrow> u32 option \<Rightarrow> (EventLogError, EventLogWriter) res" where
  "log_open c file expected_dim =
     (case file of
        Some buf \<Rightarrow>
          res_bind (map_err (\<lambda>_. InvalidHeader) (parse_header buf)) (\<lambda>header.
          if (case expected_dim of Some expected \<Rightarrow> h_dim header \<noteq> expected | None \<Rightarrow> False)
          then Err (DimensionMismatch (the expected_dim) (h_dim header))
          else res_bind (map_err walk_error
                 (walk_segment_body c (h_version header) buf (h_header_len header) (h_prev_head header))) (\<lambda>(entries, final_head).
            Ok \<lparr>w_written = buf, w_synced = length buf, w_event_count = fold count_entry entries 0, w_dim = h_dim header,
                w_version = h_version header, w_segment_seq = h_segment_seq header, w_chain_head = final_head,
                w_bytes_written = 0\<rparr>))
      | None \<Rightarrow>
          (case expected_dim of
             None \<Rightarrow> Err InvalidHeader
           | Some d \<Rightarrow>
               let header = encode_header_v4 d FORMAT_Q16_16 0 (replicate 32 0) in
               Ok \<lparr>w_written = header, w_synced = length header, w_event_count = 0, w_dim = d, w_version = VERSION_V4,
                   w_segment_seq = 0, w_chain_head = replicate 32 0, w_bytes_written = 0\<rparr>))"

definition stamped :: "bytes \<Rightarrow> u64 \<Rightarrow> bytes option \<Rightarrow> LogEntry \<Rightarrow> DecodedEntry" where
  "stamped head now request_id entry =
     \<lparr>d_prev_hash = head, d_wall_time_secs = now, d_request_id = request_id, d_entry = entry\<rparr>"

definition log_write :: "bytes \<Rightarrow> EventLogWriter \<Rightarrow> EventLogWriter" where
  "log_write bs w = w\<lparr>w_written := w_written w @ bs\<rparr>"

definition log_sync :: "EventLogWriter \<Rightarrow> EventLogWriter" where
  "log_sync w = w\<lparr>w_synced := length (w_written w)\<rparr>"

definition is_event :: "LogEntry \<Rightarrow> bool" where
  "is_event entry = (case entry of Event _ \<Rightarrow> True | _ \<Rightarrow> False)"

definition append_with_request_id :: "wire_codec \<Rightarrow> u64 \<Rightarrow> LogEntry \<Rightarrow> bytes option \<Rightarrow> EventLogWriter
    \<Rightarrow> (EventLogError, unit) res \<times> EventLogWriter" where
  "append_with_request_id c now entry request_id w =
     (let request_id = (if unat (w_version w) \<ge> unat VERSION_V3 then request_id else None) in
      case encode_entry c (w_version w) (w_chain_head w) now request_id entry of
        Ok bs \<Rightarrow>
          (let w = log_sync (log_write bs w) in
           case chain_advance c (w_version w) (w_chain_head w) (stamped (w_chain_head w) now request_id entry) of
             Ok head \<Rightarrow> (Ok (), w\<lparr>w_chain_head := head, w_bytes_written := w_bytes_written w + of_nat (length bs),
                               w_event_count := w_event_count w + (if is_event entry then 1 else 0)\<rparr>)
           | Err e \<Rightarrow> (Err (LogWire e), w) | Panic \<Rightarrow> (Panic, w) | Diverges \<Rightarrow> (Diverges, w))
      | Err e \<Rightarrow> (Err (LogWire e), w) | Panic \<Rightarrow> (Panic, w) | Diverges \<Rightarrow> (Diverges, w))"

definition log_append :: "wire_codec \<Rightarrow> u64 \<Rightarrow> LogEntry \<Rightarrow> EventLogWriter \<Rightarrow> (EventLogError, unit) res \<times> EventLogWriter" where
  "log_append c now entry w = append_with_request_id c now entry None w"

text \<open>The loop of \<open>append_batch\<close>: entries written before a failing one stay written, without a sync.\<close>

fun batch_loop :: "wire_codec \<Rightarrow> u64 \<Rightarrow> LogEntry list \<Rightarrow> u64 \<Rightarrow> EventLogWriter \<Rightarrow> (EventLogError, u64) res \<times> EventLogWriter" where
  "batch_loop c now [] total_bytes w = (Ok total_bytes, w)"
| "batch_loop c now (entry # entries) total_bytes w =
     (case encode_entry c (w_version w) (w_chain_head w) now None entry of
        Ok bs \<Rightarrow>
          (case chain_advance c (w_version w) (w_chain_head w) (stamped (w_chain_head w) now None entry) of
             Ok head \<Rightarrow> batch_loop c now entries (total_bytes + of_nat (length bs)) ((log_write bs w)\<lparr>w_chain_head := head\<rparr>)
           | Err e \<Rightarrow> (Err (LogWire e), log_write bs w) | Panic \<Rightarrow> (Panic, log_write bs w) | Diverges \<Rightarrow> (Diverges, log_write bs w))
      | Err e \<Rightarrow> (Err (LogWire e), w) | Panic \<Rightarrow> (Panic, w) | Diverges \<Rightarrow> (Diverges, w))"

definition append_batch :: "wire_codec \<Rightarrow> u64 \<Rightarrow> LogEntry list \<Rightarrow> EventLogWriter \<Rightarrow> (EventLogError, unit) res \<times> EventLogWriter" where
  "append_batch c now entries w =
     (if entries = [] then (Ok (), w)
      else case batch_loop c now entries 0 w of
        (Ok total_bytes, w) \<Rightarrow>
          (let w = log_sync w in
           (Ok (), w\<lparr>w_bytes_written := w_bytes_written w + total_bytes,
                     w_event_count := w_event_count w + of_nat (length (filter is_event entries))\<rparr>))
      | (Err e, w) \<Rightarrow> (Err e, w) | (Panic, w) \<Rightarrow> (Panic, w) | (Diverges, w) \<Rightarrow> (Diverges, w))"

text \<open>Rotation: the sealed file is returned, and the writer continues in a new segment.\<close>

definition rotate :: "wire_codec \<Rightarrow> u64 \<Rightarrow> LogEntry option \<Rightarrow> EventLogWriter \<Rightarrow> (EventLogError, bytes) res \<times> EventLogWriter" where
  "rotate c now checkpoint w =
     (let sealed = w_written w;
          w = (log_sync w)\<lparr>w_segment_seq := w_segment_seq w + 1, w_version := VERSION_V4\<rparr>;
          header = encode_header_v4 (w_dim w) FORMAT_Q16_16 (w_segment_seq w) (w_chain_head w);
          fresh = (\<lambda>bs head. w\<lparr>w_written := header @ bs, w_synced := length (header @ bs), w_chain_head := head,
                             w_bytes_written := 0\<rparr>) in
      case checkpoint of
        None \<Rightarrow> (Ok sealed, fresh [] (w_chain_head w))
      | Some entry \<Rightarrow>
          (case encode_entry c (w_version w) (w_chain_head w) now None entry of
             Ok bs \<Rightarrow>
               (case chain_advance c (w_version w) (w_chain_head w) (stamped (w_chain_head w) now None entry) of
                  Ok head \<Rightarrow> (Ok sealed, fresh bs head)
                | Err e \<Rightarrow> (Err (LogWire e), w) | Panic \<Rightarrow> (Panic, w) | Diverges \<Rightarrow> (Diverges, w))
           | Err e \<Rightarrow> (Err (LogWire e), w) | Panic \<Rightarrow> (Panic, w) | Diverges \<Rightarrow> (Diverges, w)))"

end
