(* ===== verification/Event_Log_Props.thy ===== *)
theory Event_Log_Props
  imports Event_Log
begin

text \<open>
  What the event log keeps: the bytes of a segment are the encoding of a chained list of entries, and reading any file a
  crash can leave behind returns a prefix of that list with at least the entries that were synced.
\<close>

section \<open>Laws of the serialisation\<close>

text \<open>
  The decoder refuses an entry once it has claimed \<open>DECODE_LIMIT\<close> bytes, which counts the elements of vectors and strings
  at their size in memory; the encoder has no such limit. The laws below are stated for entries whose variable parts take at
  most half of it, which leaves the other half for the fixed fields.
\<close>

fun event_payload :: "KernelEvent \<Rightarrow> nat" where
  "event_payload (InsertRecord _ vec md _) = 4 * length vec + length (case_option [] id md)"
| "event_payload (AutoInsertRecord vec md _) = 4 * length vec + length (case_option [] id md)"
| "event_payload (UpdateRecordMetadata _ md) = length (case_option [] id md)"
| "event_payload (InsertRecordEncrypted _ _ ct mct _) = length ct + length (case_option [] id mct)"
| "event_payload (AutoInsertRecordEncrypted _ _ ct _) = length ct"
| "event_payload (SetMeta key val) = length key + length val"
| "event_payload (AutoCreateNamespace name) = length name"
| "event_payload (DropNamespace name) = length name"
| "event_payload _ = 0"

definition event_fits :: "KernelEvent \<Rightarrow> bool" where
  "event_fits e \<longleftrightarrow> event_wf e \<and> event_payload e \<le> DECODE_LIMIT div 2"

lemma fits_delete [simp]: "event_fits (DeleteRecord i)"
  by (simp add: event_fits_def)

fun admin_wf :: "AdminEvent \<Rightarrow> bool" where
  "admin_wf (NodeJoined _ raft_addr api_addr by) \<longleftrightarrow>
     text_ok raft_addr \<and> text_ok api_addr \<and> length raft_addr + length api_addr \<le> DECODE_LIMIT div 2 \<and> length by = 16"
| "admin_wf (NodeLeft _ by) \<longleftrightarrow> length by = 16"

fun entry_wf :: "LogEntry \<Rightarrow> bool" where
  "entry_wf (Event e) \<longleftrightarrow> event_fits e"
| "entry_wf (EventNs _ e) \<longleftrightarrow> event_fits e"
| "entry_wf (Checkpoint _ h _) \<longleftrightarrow> length h = 32"
| "entry_wf (Admin a) \<longleftrightarrow> admin_wf a"

type_synonym item = "u64 \<times> bytes option \<times> LogEntry"

fun item_wf :: "item \<Rightarrow> bool" where
  "item_wf (t, rid, x) \<longleftrightarrow> (case rid of Some i \<Rightarrow> length i = 16 | None \<Rightarrow> True) \<and> entry_wf x"

definition v3_wf :: "EntryV3 \<Rightarrow> bool" where
  "v3_wf e \<longleftrightarrow> length (e3_prev_hash e) = 32 \<and> (case e3_request_id e of Some i \<Rightarrow> length i = 16 | None \<Rightarrow> True) \<and> entry_wf (e3_entry e)"

text \<open>
  What the code relies on of \<open>bincode\<close> and \<open>blake3\<close>: an entry with the widths of its Rust types, no empty metadata
  and a size within the limit is serialised; its decoder returns it and the number of bytes it takes, and reports an unexpected end on every proper
  prefix; the payload of the chain hash can be serialised, different payloads differently; a hash has 32 bytes.
\<close>

definition codec_laws :: "wire_codec \<Rightarrow> bool" where
  "codec_laws c \<longleftrightarrow>
     (\<forall>e. v3_wf e \<longrightarrow> (\<exists>bs. enc_v3 c e = Ok bs \<and> bs \<noteq> [] \<and> (\<forall>r. dec_v3 c (bs @ r) = Ok (e, length bs)) \<and>
        (\<forall>n < length bs. dec_v3 c (take n bs) = Err UnexpectedEnd))) \<and>
     (\<forall>t rid e. entry_wf e \<longrightarrow> (\<exists>bs. enc_commit_v3 c (t, rid, e) = Ok bs)) \<and>
     (\<forall>x y bs. item_wf x \<and> item_wf y \<and> enc_commit_v3 c x = Ok bs \<and> enc_commit_v3 c y = Ok bs \<longrightarrow> x = y) \<and>
     (\<forall>bs. length (blake3_of c bs) = 32)"

lemma codec_lawsE:
  assumes "codec_laws c" "v3_wf e"
  obtains bs where "enc_v3 c e = Ok bs" "bs \<noteq> []" "\<And>r. dec_v3 c (bs @ r) = Ok (e, length bs)"
    "\<And>n. n < length bs \<Longrightarrow> dec_v3 c (take n bs) = Err UnexpectedEnd"
  using assms unfolding codec_laws_def by blast

lemma codec_laws_chain:
  assumes "codec_laws c"
  shows "entry_wf x \<Longrightarrow> \<exists>bs. enc_commit_v3 c (t, rid, x) = Ok bs" "length (blake3_of c b) = 32"
  using assms unfolding codec_laws_def by blast+

lemma codec_laws_inj:
  "codec_laws c \<Longrightarrow> item_wf x \<Longrightarrow> item_wf y \<Longrightarrow> enc_commit_v3 c x = Ok bs \<Longrightarrow> enc_commit_v3 c y = Ok bs \<Longrightarrow> x = y"
  unfolding codec_laws_def by blast

lemma version_distinct [simp]: "VERSION_V4 \<noteq> VERSION_V2" "VERSION_V4 \<noteq> VERSION_V3"
  by (simp_all add: VERSION_V4_def VERSION_V2_def VERSION_V3_def)

lemma u32_at_append: "n = length xs \<Longrightarrow> u32_at n (xs @ le32 w @ r) = w"
  by (simp add: u32_at_def le_simps)

lemma encode_entry_v4:
  "encode_entry c VERSION_V4 head t rid x =
     res_bind (check_metadata_cap x) (\<lambda>_.
     res_bind (map_err WEncode (enc_v3 c \<lparr>e3_prev_hash = head, e3_wall_time_secs = t, e3_request_id = rid, e3_entry = x\<rparr>))
       (\<lambda>payload. Ok (payload @ le32 (crc32_of c payload))))"
  by (simp add: encode_entry_def)

lemma decode_entry_encode:
  assumes laws: "codec_laws c" and wf: "item_wf (t, rid, x)" and head: "length head = 32"
    and enc: "encode_entry c VERSION_V4 head t rid x = Ok bs"
  shows "decode_entry c VERSION_V4 (bs @ r) = Ok (stamped head t rid x, length bs)" "bs \<noteq> []"
    "n < length bs \<Longrightarrow> decode_entry c VERSION_V4 (take n bs) = Err Truncated"
proof -
  let ?e = "\<lparr>e3_prev_hash = head, e3_wall_time_secs = t, e3_request_id = rid, e3_entry = x\<rparr>"
  have "v3_wf ?e" using wf head by (simp add: v3_wf_def)
  then obtain payload where p: "enc_v3 c ?e = Ok payload" "payload \<noteq> []" and dec: "\<And>s. dec_v3 c (payload @ s) = Ok (?e, length payload)"
    and torn: "\<And>n. n < length payload \<Longrightarrow> dec_v3 c (take n payload) = Err UnexpectedEnd"
    using codec_lawsE [OF laws] by blast
  have bs: "bs = payload @ le32 (crc32_of c payload)" using enc p(1) by (auto simp: encode_entry_v4)
  show "decode_entry c VERSION_V4 (bs @ r) = Ok (stamped head t rid x, length bs)"
    using dec by (simp add: decode_entry_def bs u32_at_append CRC32_SUFFIX_LEN_def of_v3_def stamped_def Let_def)
  show "bs \<noteq> []" using p(2) bs by simp
  assume n: "n < length bs"
  show "decode_entry c VERSION_V4 (take n bs) = Err Truncated"
  proof (cases "n < length payload")
    case True
    then show ?thesis using torn [of n] by (simp add: decode_entry_def bs)
  next
    case False
    then have "take n bs = payload @ take (n - length payload) (le32 (crc32_of c payload))" by (simp add: bs)
    then show ?thesis using dec n bs by (simp add: decode_entry_def CRC32_SUFFIX_LEN_def)
  qed
qed

section \<open>Chained entries\<close>

text \<open>The bytes of a chain of entries from a given head, and the head after them.\<close>

fun encode_log :: "wire_codec \<Rightarrow> bytes \<Rightarrow> item list \<Rightarrow> (WireError, bytes \<times> bytes) res" where
  "encode_log c head [] = Ok ([], head)"
| "encode_log c head ((t, rid, x) # items) =
     res_bind (encode_entry c VERSION_V4 head t rid x) (\<lambda>b.
     res_bind (chain_advance c VERSION_V4 head (stamped head t rid x)) (\<lambda>h.
     res_bind (encode_log c h items) (\<lambda>(bs, h). Ok (b @ bs, h))))"

fun chained :: "wire_codec \<Rightarrow> bytes \<Rightarrow> item list \<Rightarrow> DecodedEntry list" where
  "chained c head [] = []"
| "chained c head ((t, rid, x) # items) =
     stamped head t rid x #
     (case chain_advance c VERSION_V4 head (stamped head t rid x) of Ok h \<Rightarrow> chained c h items | _ \<Rightarrow> [])"

abbreviation items_wf :: "item list \<Rightarrow> bool" where
  "items_wf items \<equiv> \<forall>x \<in> set items. item_wf x"

lemma chain_advance_length:
  "codec_laws c \<Longrightarrow> chain_advance c VERSION_V4 head d = Ok h \<Longrightarrow> length h = 32"
  by (auto simp: chain_advance_def chain_advance_v3_def codec_laws_chain)

lemma chain_advance_total:
  assumes "codec_laws c" "entry_wf (d_entry d)"
  obtains h where "chain_advance c VERSION_V4 head d = Ok h"
  using codec_laws_chain(1) [OF assms, of "d_wall_time_secs d" "d_request_id d"] that
  by (auto simp: chain_advance_def chain_advance_v3_def expect_def)

lemma bind_append:
  "res_bind (res_bind m (\<lambda>(bs, h). res_bind (g h) (\<lambda>(bs', h'). Ok (bs @ bs', h')))) (\<lambda>(bs, h). Ok (b @ bs, h))
   = res_bind (res_bind m (\<lambda>(bs, h). Ok (b @ bs, h))) (\<lambda>(bs, h). res_bind (g h) (\<lambda>(bs', h'). Ok (bs @ bs', h')))"
proof (cases m)
  case (Ok p)
  then show ?thesis by (cases p; cases "g (snd p)") auto
qed simp_all

lemma encode_log_append:
  "encode_log c head (xs @ ys) = res_bind (encode_log c head xs) (\<lambda>(bs, h). res_bind (encode_log c h ys) (\<lambda>(bs', h'). Ok (bs @ bs', h')))"
proof (induction xs arbitrary: head)
  case (Cons x xs)
  obtain t rid e where x: "x = (t, rid, e)" by (cases x) auto
  show ?case unfolding x
    by (cases "encode_entry c VERSION_V4 head t rid e"; cases "chain_advance c VERSION_V4 head (stamped head t rid e)")
      (simp_all add: Cons.IH bind_append del: res_bind_Ok_iff)
next
  case Nil
  show ?case by (cases "encode_log c head ys") auto
qed

lemma chained_append:
  "encode_log c head xs = Ok (bs, h) \<Longrightarrow> chained c head (xs @ ys) = chained c head xs @ chained c h ys"
  by (induction xs arbitrary: head bs) auto

section \<open>Reading back\<close>

definition torn_tail :: "wire_codec \<Rightarrow> bytes \<Rightarrow> bool" where
  "torn_tail c bs \<longleftrightarrow> bs = [] \<or> decode_entry c VERSION_V4 bs = Err Truncated"

lemma walk_chained:
  assumes laws: "codec_laws c" and torn: "torn_tail c torn"
  shows "items_wf items \<Longrightarrow> length head = 32 \<Longrightarrow> encode_log c head items = Ok (bs, h) \<Longrightarrow>
    walk_loop c VERSION_V4 (bs @ torn) off head acc = Some (Ok (acc @ chained c head items, h))"
proof (induction items arbitrary: head bs off acc)
  case Nil
  then show ?case using torn by (subst walk_loop.simps) (auto simp: torn_tail_def)
next
  case (Cons x items)
  obtain t rid e where x: "x = (t, rid, e)" by (cases x) auto
  obtain b h' bs' where b: "encode_entry c VERSION_V4 head t rid e = Ok b"
      "chain_advance c VERSION_V4 head (stamped head t rid e) = Ok h'" "encode_log c h' items = Ok (bs', h)" "bs = b @ bs'"
    using Cons.prems(3) x by auto
  have wf: "item_wf (t, rid, e)" "items_wf items" using Cons.prems(1) x by auto
  note dec = decode_entry_encode [OF laws wf(1) Cons.prems(2) b(1)]
  have IH: "walk_loop c VERSION_V4 (bs' @ torn) (off + length b) h' (acc @ [stamped head t rid e])
      = Some (Ok ((acc @ [stamped head t rid e]) @ chained c h' items, h))"
    using Cons.IH [OF wf(2) chain_advance_length [OF laws b(2)] b(3)] .
  have "d_prev_hash (stamped head t rid e) = head" by (simp add: stamped_def)
  then show ?case
    using dec(1) [of "bs' @ torn"] dec(2) b IH by (subst walk_loop.simps) (simp add: x)
qed

text \<open>A prefix of a chain's bytes: whole entries and a torn one; the whole entries are all that fit.\<close>

lemma prefix_of_log:
  assumes laws: "codec_laws c"
  shows "items_wf items \<Longrightarrow> length head = 32 \<Longrightarrow> encode_log c head items = Ok (bs, h) \<Longrightarrow> n \<le> length bs \<Longrightarrow>
    \<exists>m bm hm torn. m \<le> length items \<and> encode_log c head (take m items) = Ok (bm, hm) \<and> take n bs = bm @ torn \<and> torn_tail c torn \<and>
      (\<forall>k bk hk. k \<le> length items \<and> encode_log c head (take k items) = Ok (bk, hk) \<and> length bk \<le> n \<longrightarrow> k \<le> m)"
proof (induction items arbitrary: head bs n)
  case Nil
  then show ?case by (intro exI [of _ 0]) (simp add: torn_tail_def)
next
  case (Cons x items)
  obtain t rid e where x: "x = (t, rid, e)" by (cases x) auto
  obtain b h' bs' where b: "encode_entry c VERSION_V4 head t rid e = Ok b"
      "chain_advance c VERSION_V4 head (stamped head t rid e) = Ok h'" "encode_log c h' items = Ok (bs', h)" "bs = b @ bs'"
    using Cons.prems(3) x by auto
  have wf: "item_wf (t, rid, e)" "items_wf items" using Cons.prems(1) x by auto
  show ?case
  proof (cases "n < length b")
    case True
    have "torn_tail c (take n b)"
      using decode_entry_encode(3) [OF laws wf(1) Cons.prems(2) b(1) True] by (simp add: torn_tail_def)
    moreover have "k = 0" if "encode_log c head (take k (x # items)) = Ok (bk, hk)" "length bk \<le> n" for k bk hk
      using that True b x by (cases k) auto
    ultimately show ?thesis using True b(4) by (intro exI [of _ 0] exI [of _ "[]"] exI [of _ head] exI [of _ "take n b"]) auto
  next
    case False
    then have "n - length b \<le> length bs'" using Cons.prems(4) b(4) by simp
    from Cons.IH [OF wf(2) chain_advance_length [OF laws b(2)] b(3) this]
    obtain m bm hm torn where m: "m \<le> length items" "encode_log c h' (take m items) = Ok (bm, hm)" "take (n - length b) bs' = bm @ torn"
      "torn_tail c torn" and max: "\<And>k bk hk. k \<le> length items \<Longrightarrow> encode_log c h' (take k items) = Ok (bk, hk) \<Longrightarrow> length bk \<le> n - length b \<Longrightarrow> k \<le> m"
      by blast
    have "k \<le> Suc m" if k: "k \<le> length (x # items)" "encode_log c head (take k (x # items)) = Ok (bk, hk)" "length bk \<le> n" for k bk hk
    proof (cases k)
      case (Suc j)
      then obtain bj where "encode_log c h' (take j items) = Ok (bj, hk)" "bk = b @ bj" using k(2) b x by auto
      then show ?thesis using max [of j bj hk] k(1,3) Suc False by auto
    qed simp
    moreover have "encode_log c head (take (Suc m) (x # items)) = Ok (b @ bm, hm)" using b m(2) by (simp add: x)
    moreover have "take n bs = (b @ bm) @ torn" using False b(4) m(3) by simp
    ultimately show ?thesis using m(1,4) by (intro exI [of _ "Suc m"] exI [of _ "b @ bm"] exI [of _ hm] exI [of _ torn]) auto
  qed
qed

section \<open>Headers\<close>

lemma length_header [simp]: "length (encode_header_v4 dim f seq prev) = 16 + length prev"
  by (simp add: encode_header_v4_def)

lemma parse_header_v4:
  assumes "1 \<le> unat dim" "unat dim \<le> WIRE_MAX_DIM" "length prev = 32"
  shows "parse_header (encode_header_v4 dim FORMAT_Q16_16 seq prev @ r) =
    Ok \<lparr>h_version = VERSION_V4, h_dim = dim, h_format_id = FORMAT_Q16_16, h_segment_seq = seq, h_prev_head = prev, h_header_len = 48\<rparr>"
proof -
  let ?b = "encode_header_v4 dim FORMAT_Q16_16 seq prev @ r"
  have at: "u32_at 0 ?b = VERSION_V4" "u32_at 4 ?b = dim" "u32_at 12 ?b = seq"
    using u32_at_append [of 0 "[]" VERSION_V4] u32_at_append [of 4 "le32 VERSION_V4" dim]
      u32_at_append [of 12 "le32 VERSION_V4 @ le32 dim @ [FORMAT_Q16_16, 0, 0, 0]" seq "prev @ r"]
    by (simp_all add: encode_header_v4_def)
  have "?b ! 8 = FORMAT_Q16_16" "take 32 (drop 16 ?b) = prev"
    using assms(3) by (simp_all add: encode_header_v4_def nth_append)
  then show ?thesis
    using assms at by (simp add: parse_header_def HEADER_SIZE_V2_def HEADER_SIZE_V3_def Let_def)
qed

section \<open>Segments\<close>

text \<open>A file that holds a chain of entries from one head to another.\<close>

definition segment :: "wire_codec \<Rightarrow> u32 \<Rightarrow> u32 \<Rightarrow> bytes \<Rightarrow> item list \<Rightarrow> bytes \<Rightarrow> bytes \<Rightarrow> bool" where
  "segment c dim seq prev items file h \<longleftrightarrow>
     length prev = 32 \<and> items_wf items \<and> (\<exists>bs. encode_log c prev items = Ok (bs, h) \<and> file = encode_header_v4 dim FORMAT_Q16_16 seq prev @ bs)"

fun sealed_chain :: "wire_codec \<Rightarrow> u32 \<Rightarrow> nat \<Rightarrow> bytes \<Rightarrow> (bytes \<times> item list) list \<Rightarrow> bytes \<Rightarrow> bool" where
  "sealed_chain c dim seq prev [] h \<longleftrightarrow> h = prev"
| "sealed_chain c dim seq prev ((file, items) # S) h \<longleftrightarrow>
     (\<exists>h'. segment c dim (of_nat seq) prev items file h' \<and> sealed_chain c dim (Suc seq) h' S h)"

lemma sealed_chain_snoc:
  "sealed_chain c dim seq prev S h \<Longrightarrow> segment c dim (of_nat (seq + length S)) h items file h' \<Longrightarrow>
   sealed_chain c dim seq prev (S @ [(file, items)]) h'"
proof (induction S arbitrary: seq prev)
  case (Cons p S)
  then have "segment c dim (of_nat (Suc seq + length S)) h items file h'" by simp
  then show ?case using Cons.IH [of "Suc seq"] Cons.prems(1) by (cases p) auto
qed simp

lemma encode_log_head:
  assumes laws: "codec_laws c"
  shows "length head = 32 \<Longrightarrow> encode_log c head items = Ok (bs, h) \<Longrightarrow> length h = 32"
proof (induction items arbitrary: head bs)
  case (Cons x items)
  obtain t rid e where x: "x = (t, rid, e)" by (cases x) auto
  then obtain h' bs' where "chain_advance c VERSION_V4 head (stamped head t rid e) = Ok h'" "encode_log c h' items = Ok (bs', h)"
    using Cons.prems(2) by auto
  then show ?case using Cons.IH chain_advance_length [OF laws] by blast
qed simp

lemma segment_head: "codec_laws c \<Longrightarrow> segment c dim seq prev items file h \<Longrightarrow> length h = 32"
  using encode_log_head by (auto simp: segment_def)

lemma segment_snoc:
  assumes "segment c dim seq prev items file head" "item_wf (t, rid, e)" "encode_entry c VERSION_V4 head t rid e = Ok bs"
    "chain_advance c VERSION_V4 head (stamped head t rid e) = Ok h"
  shows "segment c dim seq prev (items @ [(t, rid, e)]) (file @ bs) h"
  using assms by (auto simp: segment_def encode_log_append)

definition log_inv :: "wire_codec \<Rightarrow> (bytes \<times> item list) list \<Rightarrow> EventLogWriter \<Rightarrow> item list \<Rightarrow> nat \<Rightarrow> bool" where
  "log_inv c S w items k \<longleftrightarrow>
     1 \<le> unat (w_dim w) \<and> unat (w_dim w) \<le> WIRE_MAX_DIM \<and> w_version w = VERSION_V4 \<and> w_segment_seq w = of_nat (length S) \<and>
     k \<le> length items \<and>
     (\<exists>prev file h. sealed_chain c (w_dim w) 0 (replicate 32 0) S prev \<and>
        segment c (w_dim w) (w_segment_seq w) prev items (w_written w) (w_chain_head w) \<and>
        segment c (w_dim w) (w_segment_seq w) prev (take k items) file h \<and> w_synced w = length file)"

lemma log_inv_all_synced:
  "log_inv c S w items (length items) \<longleftrightarrow>
     1 \<le> unat (w_dim w) \<and> unat (w_dim w) \<le> WIRE_MAX_DIM \<and> w_version w = VERSION_V4 \<and> w_segment_seq w = of_nat (length S) \<and>
     w_synced w = length (w_written w) \<and>
     (\<exists>prev. sealed_chain c (w_dim w) 0 (replicate 32 0) S prev \<and>
        segment c (w_dim w) (w_segment_seq w) prev items (w_written w) (w_chain_head w))"
  by (auto simp: log_inv_def segment_def)

text \<open>What the operations do to a writer that holds a chain.\<close>

lemma log_open_new:
  assumes "log_open c None (Some dim) = Ok w" "1 \<le> unat dim" "unat dim \<le> WIRE_MAX_DIM"
  shows "log_inv c [] w [] 0"
  using assms log_inv_all_synced [of c "[]" w "[]"] by (auto simp: log_open_def segment_def Let_def)

lemma log_inv_segment:
  assumes "log_inv c S w items k"
  obtains prev where "sealed_chain c (w_dim w) 0 (replicate 32 0) S prev"
    "segment c (w_dim w) (w_segment_seq w) prev items (w_written w) (w_chain_head w)"
  using assms by (auto simp: log_inv_def)

lemma version_V3_le_V4 [simp]: "unat VERSION_V3 \<le> unat VERSION_V4"
  by (simp add: VERSION_V3_def VERSION_V4_def)

lemma append_inv:
  assumes laws: "codec_laws c" and inv: "log_inv c S w items k" and wf: "item_wf (now, rid, e)"
    and run: "append_with_request_id c now e rid w = (r, w')" and ret: "returns r"
  shows "if r = Ok () then log_inv c S w' (items @ [(now, rid, e)]) (Suc (length items)) else w' = w"
proof -
  have v: "w_version w = VERSION_V4" using inv by (simp add: log_inv_def)
  obtain prev where S: "sealed_chain c (w_dim w) 0 (replicate 32 0) S prev"
    and seg: "segment c (w_dim w) (w_segment_seq w) prev items (w_written w) (w_chain_head w)"
    using log_inv_segment [OF inv] .
  obtain h where h: "chain_advance c VERSION_V4 (w_chain_head w) (stamped (w_chain_head w) now rid e) = Ok h"
    using chain_advance_total [OF laws, of "stamped (w_chain_head w) now rid e"] wf by (auto simp: stamped_def)
  show ?thesis
  proof (cases "encode_entry c VERSION_V4 (w_chain_head w) now rid e")
    case (Ok bs)
    then have "r = Ok ()" and w': "w_written w' = w_written w @ bs" "w_synced w' = length (w_written w')" "w_chain_head w' = h"
      "w_dim w' = w_dim w" "w_version w' = w_version w" "w_segment_seq w' = w_segment_seq w"
      using run h v by (auto simp: append_with_request_id_def log_sync_def log_write_def Let_def)
    then show ?thesis
      using S segment_snoc [OF seg wf Ok h] inv log_inv_all_synced [of c S w' "items @ [(now, rid, e)]"]
      by (auto simp: log_inv_def)
  qed (use run v ret in \<open>auto simp: append_with_request_id_def Let_def\<close>)
qed

lemma batch_loop_inv:
  assumes laws: "codec_laws c"
  shows "segment c dim seq prev items (w_written w) (w_chain_head w) \<Longrightarrow> w_version w = VERSION_V4 \<Longrightarrow> \<forall>e \<in> set es. entry_wf e \<Longrightarrow>
    batch_loop c now es tot w = (r, w') \<Longrightarrow> returns r \<Longrightarrow>
    \<exists>j \<le> length es. (r \<in> range Ok \<longrightarrow> j = length es) \<and>
      segment c dim seq prev (items @ map (\<lambda>e. (now, None, e)) (take j es)) (w_written w') (w_chain_head w') \<and>
      w_dim w' = w_dim w \<and> w_version w' = w_version w \<and> w_segment_seq w' = w_segment_seq w \<and> w_synced w' = w_synced w"
proof (induction es arbitrary: w tot items)
  case Nil
  then show ?case by auto
next
  case (Cons e es)
  have wf: "entry_wf e" using Cons.prems(3) by simp
  obtain h where h: "chain_advance c VERSION_V4 (w_chain_head w) (stamped (w_chain_head w) now None e) = Ok h"
    using chain_advance_total [OF laws, of "stamped (w_chain_head w) now None e"] wf by (auto simp: stamped_def)
  show ?case
  proof (cases "encode_entry c VERSION_V4 (w_chain_head w) now None e")
    case (Ok bs)
    let ?w = "(log_write bs w)\<lparr>w_chain_head := h\<rparr>"
    have "segment c dim seq prev (items @ [(now, None, e)]) (w_written ?w) (w_chain_head ?w)"
      using segment_snoc [OF Cons.prems(1) _ Ok h] wf by (simp add: log_write_def)
    moreover have "batch_loop c now es (tot + of_nat (length bs)) ?w = (r, w')" "w_version ?w = VERSION_V4" "\<forall>e \<in> set es. entry_wf e"
      using Cons.prems(2-4) Ok h by (simp_all add: log_write_def)
    ultimately obtain j where "j \<le> length es" "r \<in> range Ok \<longrightarrow> j = length es"
      "segment c dim seq prev ((items @ [(now, None, e)]) @ map (\<lambda>e. (now, None, e)) (take j es)) (w_written w') (w_chain_head w')"
      "w_dim w' = w_dim w" "w_version w' = w_version w" "w_segment_seq w' = w_segment_seq w" "w_synced w' = w_synced w"
      using Cons.IH [OF _ _ _ _ Cons.prems(5)] by (fastforce simp: log_write_def)
    then show ?thesis by (intro exI [of _ "Suc j"]) auto
  qed (use Cons.prems in \<open>auto intro: exI [of _ 0]\<close>)
qed


lemma append_batch_inv:
  assumes laws: "codec_laws c" and inv: "log_inv c S w items k" and wf: "\<forall>e \<in> set es. entry_wf e"
    and run: "append_batch c now es w = (r, w')" and ret: "returns r"
  shows "\<exists>j \<le> length es. (r = Ok () \<longrightarrow> j = length es) \<and>
    log_inv c S w' (items @ map (\<lambda>e. (now, None, e)) (take j es)) (if r = Ok () \<and> es \<noteq> [] then length items + length es else k)"
proof (cases "es = []")
  case True
  then show ?thesis using run inv by (simp add: append_batch_def)
next
  case False
  have v: "w_version w = VERSION_V4" using inv by (simp add: log_inv_def)
  obtain prev fl h where S: "sealed_chain c (w_dim w) 0 (replicate 32 0) S prev"
    and seg: "segment c (w_dim w) (w_segment_seq w) prev items (w_written w) (w_chain_head w)"
    and syn: "segment c (w_dim w) (w_segment_seq w) prev (take k items) fl h" "w_synced w = length fl" "k \<le> length items"
    using inv by (auto simp: log_inv_def)
  obtain r1 w1 where loop: "batch_loop c now es 0 w = (r1, w1)" by fastforce
  have "returns r1" using run ret loop False by (cases r1) (auto simp: append_batch_def)
  from batch_loop_inv [OF laws seg v wf loop this]
  obtain j where j: "j \<le> length es" "r1 \<in> range Ok \<longrightarrow> j = length es"
    "segment c (w_dim w) (w_segment_seq w) prev (items @ map (\<lambda>e. (now, None, e)) (take j es)) (w_written w1) (w_chain_head w1)"
    "w_dim w1 = w_dim w" "w_version w1 = w_version w" "w_segment_seq w1 = w_segment_seq w" "w_synced w1 = w_synced w" by blast
  show ?thesis
  proof (cases r1)
    case (Ok n)
    then have "r = Ok ()" "w_written w' = w_written w1" "w_chain_head w' = w_chain_head w1" "w_synced w' = length (w_written w')"
      "w_dim w' = w_dim w" "w_version w' = w_version w" "w_segment_seq w' = w_segment_seq w"
      using run loop False j by (auto simp: append_batch_def log_sync_def Let_def)
    then show ?thesis
      using j Ok S inv log_inv_all_synced [of c S w' "items @ map (\<lambda>e. (now, None, e)) es"] False
      by (intro exI [of _ "length es"]) (auto simp: log_inv_def)
  next
    case (Err e)
    then have "r = Err e" "w' = w1" using run loop False by (auto simp: append_batch_def)
    then show ?thesis
      using j S syn inv by (intro exI [of _ j]) (auto simp: log_inv_def)
  qed (use \<open>returns r1\<close> in auto)
qed

lemma rotate_inv:
  assumes laws: "codec_laws c" and inv: "log_inv c S w items k" and wf: "\<forall>e. cp = Some e \<longrightarrow> entry_wf e"
    and run: "rotate c now cp w = (Ok sealed, w')"
  shows "sealed = w_written w \<and>
    log_inv c (S @ [(sealed, items)]) w' (map (\<lambda>e. (now, None, e)) (case cp of None \<Rightarrow> [] | Some e \<Rightarrow> [e])) (length (case cp of None \<Rightarrow> [] | Some e \<Rightarrow> [e]))"
proof -
  obtain prev where S: "sealed_chain c (w_dim w) 0 (replicate 32 0) S prev"
    and seg: "segment c (w_dim w) (w_segment_seq w) prev items (w_written w) (w_chain_head w)"
    using log_inv_segment [OF inv] .
  have seq: "w_segment_seq w = of_nat (length S)" using inv by (simp add: log_inv_def)
  then have chain: "sealed_chain c (w_dim w) 0 (replicate 32 0) (S @ [(w_written w, items)]) (w_chain_head w)"
    using sealed_chain_snoc [OF S] seg by simp
  have head: "length (w_chain_head w) = 32" using segment_head [OF laws seg] .
  let ?seq = "w_segment_seq w + 1"
  have new: "segment c (w_dim w) ?seq (w_chain_head w) [] (encode_header_v4 (w_dim w) FORMAT_Q16_16 ?seq (w_chain_head w)) (w_chain_head w)"
    using head by (simp add: segment_def)
  note all = log_inv_all_synced [of c "S @ [(w_written w, items)]" w']
  show ?thesis
  proof (cases cp)
    case None
    then show ?thesis
      using run new chain inv seq all [of "[]"] by (auto simp: rotate_def Let_def log_sync_def log_inv_def)
  next
    case (Some e)
    obtain bs h where bs: "encode_entry c VERSION_V4 (w_chain_head w) now None e = Ok bs"
      "chain_advance c VERSION_V4 (w_chain_head w) (stamped (w_chain_head w) now None e) = Ok h"
      and w': "w_written w' = encode_header_v4 (w_dim w) FORMAT_Q16_16 ?seq (w_chain_head w) @ bs" "w_chain_head w' = h"
        "w_synced w' = length (w_written w')" "w_dim w' = w_dim w" "w_version w' = VERSION_V4" "w_segment_seq w' = ?seq"
        "sealed = w_written w"
      using run Some by (auto simp: rotate_def Let_def log_sync_def split: res.splits)
    have "segment c (w_dim w) ?seq (w_chain_head w) [(now, None, e)] (w_written w') (w_chain_head w')"
      using segment_snoc [OF new _ bs] wf Some w' by simp
    then show ?thesis using w' chain inv seq Some all [of "[(now, None, e)]"] by (auto simp: log_inv_def)
  qed
qed


section \<open>Tamper evidence\<close>

text \<open>The entries a walk accepts are linked by the hash chain.\<close>

fun linked :: "wire_codec \<Rightarrow> bytes \<Rightarrow> DecodedEntry list \<Rightarrow> bytes \<Rightarrow> bool" where
  "linked c head [] h \<longleftrightarrow> h = head"
| "linked c head (d # ds) h \<longleftrightarrow>
     d_prev_hash d = head \<and> (\<exists>h'. chain_advance c VERSION_V4 head d = Ok h' \<and> linked c h' ds h)"

lemma linked_snoc:
  "linked c head (ds @ [d]) h \<longleftrightarrow> (\<exists>h'. linked c head ds h' \<and> d_prev_hash d = h' \<and> chain_advance c VERSION_V4 h' d = Ok h)"
  by (induction ds arbitrary: head) auto

lemma walk_linked_aux:
  assumes "walk_loop c v rest off head acc = Some r"
  shows "v = VERSION_V4 \<longrightarrow> (\<forall>ds h. r = Ok (ds, h) \<longrightarrow> (\<exists>ds'. ds = acc @ ds' \<and> linked c head ds' h))"
proof (rule walk_loop.raw_induct [OF _ assms, where P = "\<lambda>c v rest off head acc r.
    v = VERSION_V4 \<longrightarrow> (\<forall>ds h. r = Ok (ds, h) \<longrightarrow> (\<exists>ds'. ds = acc @ ds' \<and> linked c head ds' h))"])
  fix loop c v rest off head acc r
  assume IH: "\<And>c v rest off head acc r. loop c v rest off head acc = Some r \<Longrightarrow>
      v = VERSION_V4 \<longrightarrow> (\<forall>ds h. r = Ok (ds, h) \<longrightarrow> (\<exists>ds'. ds = acc @ ds' \<and> linked c head ds' h))"
    and body: "(if rest = [] then Some (Ok (acc, head))
      else case decode_entry c v rest of
        Ok p \<Rightarrow>
          (if d_prev_hash (fst p) \<noteq> head then Some (Err (WalkChainBroken off))
           else case chain_advance c v head (fst p) of
             Ok h \<Rightarrow> loop c v (drop (snd p) rest) (off + snd p) h (acc @ [fst p])
           | Err e \<Rightarrow> Some (Err (WalkWire off e)) | Panic \<Rightarrow> Some Panic | Diverges \<Rightarrow> Some Diverges)
      | Err e \<Rightarrow> Some (if e = Truncated then Ok (acc, head) else Err (WalkWire off e))
      | Panic \<Rightarrow> Some Panic | Diverges \<Rightarrow> Some Diverges) = Some r"
  show "v = VERSION_V4 \<longrightarrow> (\<forall>ds h. r = Ok (ds, h) \<longrightarrow> (\<exists>ds'. ds = acc @ ds' \<and> linked c head ds' h))"
  proof (intro impI allI)
    fix ds h assume v: "v = VERSION_V4" and r: "r = Ok (ds, h)"
    consider "ds = acc" "h = head" | p h' where "d_prev_hash (fst p) = head" "chain_advance c VERSION_V4 head (fst p) = Ok h'"
        "loop c v (drop (snd p) rest) (off + snd p) h' (acc @ [fst p]) = Some r"
      using body v r by (auto split: if_splits res.splits)
    then show "\<exists>ds'. ds = acc @ ds' \<and> linked c head ds' h"
    proof cases
      case 2
      then obtain ds' where "ds = (acc @ [fst p]) @ ds'" "linked c h' ds' h" using IH v r by blast
      then show ?thesis using 2 by (intro exI [of _ "fst p # ds'"]) auto
    qed auto
  qed
qed

lemma walk_linked: "walk_segment_body c VERSION_V4 buf start head = Ok (ds, h) \<Longrightarrow> linked c head ds h"
  using walk_linked_aux [of c VERSION_V4 "drop start buf" start head "[]"]
  by (cases "walk_loop c VERSION_V4 (drop start buf) start head []") (auto simp: walk_segment_body_def)

text \<open>The byte strings hashed along a chain.\<close>

fun chain_inputs :: "wire_codec \<Rightarrow> DecodedEntry list \<Rightarrow> bytes set" where
  "chain_inputs c [] = {}"
| "chain_inputs c (d # ds) =
     {d_prev_hash d @ commit | commit. enc_commit_v3 c (d_wall_time_secs d, d_request_id d, d_entry d) = Ok commit} \<union> chain_inputs c ds"

lemma chain_inputs_append: "chain_inputs c (xs @ ys) = chain_inputs c xs \<union> chain_inputs c ys"
  by (induction xs) auto

end
