(* ===== verification/Event_Store.thy ===== *)
theory Event_Store
  imports Event_Log State_Hash
begin

text \<open>
  \<open>valori-storage/src/events\<close>: the in-memory journal (\<open>event_journal.rs\<close>), recovery from the segments of a log
  (\<open>event_replay.rs\<close>) and the committer (\<open>event_commit.rs\<close>). Files are given by their contents; the broadcast to
  subscribers and logging are not modelled.
\<close>

section \<open>Journal\<close>

record EventJournal =
  j_committed :: "KernelEvent list"
  j_timestamps :: "u64 list"
  j_buffer :: "KernelEvent list"
  j_committed_height :: u64

definition journal_new :: EventJournal where
  "journal_new = \<lparr>j_committed = [], j_timestamps = [], j_buffer = [], j_committed_height = 0\<rparr>"

definition journal_new_at_height :: "u64 \<Rightarrow> EventJournal" where
  "journal_new_at_height height = \<lparr>j_committed = [], j_timestamps = [], j_buffer = [], j_committed_height = height\<rparr>"

definition from_committed :: "KernelEvent list \<Rightarrow> EventJournal" where
  "from_committed events =
     \<lparr>j_committed = events, j_timestamps = replicate (length events) 0, j_buffer = [], j_committed_height = of_nat (length events)\<rparr>"

definition set_height :: "u64 \<Rightarrow> EventJournal \<Rightarrow> EventJournal" where
  "set_height height j = j\<lparr>j_committed_height := height\<rparr>"

definition append_buffered :: "KernelEvent \<Rightarrow> EventJournal \<Rightarrow> EventJournal" where
  "append_buffered e j = j\<lparr>j_buffer := j_buffer j @ [e]\<rparr>"

definition commit_buffer :: "u64 \<Rightarrow> EventJournal \<Rightarrow> EventJournal" where
  "commit_buffer now j =
     (let committed = j_committed j @ j_buffer j in
      j\<lparr>j_timestamps := j_timestamps j @ replicate (length (j_buffer j)) now, j_committed := committed,
        j_committed_height := of_nat (length committed), j_buffer := []\<rparr>)"

definition rollback_buffer :: "EventJournal \<Rightarrow> EventJournal" where
  "rollback_buffer j = j\<lparr>j_buffer := []\<rparr>"

definition event_timestamp :: "nat \<Rightarrow> EventJournal \<Rightarrow> u64 option" where
  "event_timestamp log_index j =
     (if log_index < length (j_timestamps j) then Some (j_timestamps j ! log_index) else None)"

text \<open>\<open>partition_point\<close> on timestamps in order of commit.\<close>

definition find_log_index_at_or_before :: "u64 \<Rightarrow> EventJournal \<Rightarrow> nat option" where
  "find_log_index_at_or_before unix_secs j =
     (let pos = length (takeWhile (\<lambda>t. unat t \<le> unat unix_secs) (j_timestamps j)) in
      if pos = 0 then None else Some (pos - 1))"

section \<open>Replay\<close>

datatype ReplayError =
    ReplayInvalidHeader
  | ReplayDimensionMismatch u32 u32
  | EventApplication KernelError
  | Corrupted nat

fun replay_loop :: "(u16 \<times> KernelEvent) list \<Rightarrow> KernelState \<Rightarrow> (ReplayError, KernelState) res" where
  "replay_loop [] st = Ok st"
| "replay_loop ((ns, e) # events) st =
     (case apply_event_ns e ns st of
        (Ok _, st') \<Rightarrow> replay_loop events st'
      | (Err err, _) \<Rightarrow> Err (EventApplication err) | (Panic, _) \<Rightarrow> Panic | (Diverges, _) \<Rightarrow> Diverges)"

definition replay_events :: "(u16 \<times> KernelEvent) list \<Rightarrow> (ReplayError, KernelState) res" where
  "replay_events events = replay_loop events kernel_new"

record SegmentReplay =
  s_segment_seq :: u32
  s_prev_head :: bytes
  s_final_head :: bytes
  s_events :: "(u16 \<times> KernelEvent) list"

fun entry_events :: "LogEntry \<Rightarrow> (u16 \<times> KernelEvent) list" where
  "entry_events (Event e) = [(DEFAULT_NS, e)]"
| "entry_events (EventNs ns e) = [(ns, e)]"
| "entry_events _ = []"

fun replay_walk_error :: "SegmentWalkError \<Rightarrow> ReplayError" where
  "replay_walk_error (WalkChainBroken offset) = Corrupted offset"
| "replay_walk_error (WalkWire offset _) = Corrupted offset"

definition read_segment_full :: "wire_codec \<Rightarrow> u32 option \<Rightarrow> bytes \<Rightarrow> (ReplayError, SegmentReplay) res" where
  "read_segment_full c expected_dim buffer =
     res_bind (map_err (\<lambda>_. ReplayInvalidHeader) (parse_header buffer)) (\<lambda>header.
     if (case expected_dim of Some expected \<Rightarrow> h_dim header \<noteq> expected | None \<Rightarrow> False)
     then Err (ReplayDimensionMismatch (h_dim header) (the expected_dim))
     else res_bind (map_err replay_walk_error
            (walk_segment_body c (h_version header) buffer (h_header_len header) (h_prev_head header))) (\<lambda>(entries, chain_head).
       Ok \<lparr>s_segment_seq = h_segment_seq header, s_prev_head = h_prev_head header, s_final_head = chain_head,
           s_events = concat (map (\<lambda>d. entry_events (d_entry d)) entries)\<rparr>))"

fun collect_res :: "('e, 'a) res list \<Rightarrow> ('e, 'a list) res" where
  "collect_res [] = Ok []"
| "collect_res (r # rs) = res_bind r (\<lambda>x. res_bind (collect_res rs) (\<lambda>xs. Ok (x # xs)))"

fun splice :: "bytes option \<Rightarrow> SegmentReplay list \<Rightarrow> (ReplayError, (u16 \<times> KernelEvent) list) res" where
  "splice prev_close [] = Ok []"
| "splice prev_close (seg # segs) =
     (if (case prev_close of Some prev \<Rightarrow> s_prev_head seg \<noteq> prev | None \<Rightarrow> False) then Err (Corrupted 0)
      else res_bind (splice (Some (s_final_head seg)) segs) (\<lambda>events. Ok (s_events seg @ events)))"

text \<open>The segments are read in directory order and sorted by their sequence number; the sort is stable.\<close>

definition read_all_segments :: "wire_codec \<Rightarrow> u32 option \<Rightarrow> bytes list \<Rightarrow> (ReplayError, (u16 \<times> KernelEvent) list) res" where
  "read_all_segments c expected_dim files =
     res_bind (collect_res (map (read_segment_full c expected_dim) files)) (\<lambda>segments.
     splice None (sort_key (\<lambda>s. unat (s_segment_seq s)) segments))"

definition recover_from_event_log :: "wire_codec \<Rightarrow> bytes list \<Rightarrow> (ReplayError, KernelState \<times> EventJournal \<times> u64) res" where
  "recover_from_event_log c files =
     res_bind (read_all_segments c None files) (\<lambda>events.
     res_bind (replay_events events) (\<lambda>state.
     Ok (state, from_committed (map snd events), of_nat (length events))))"

definition verify_snapshot_consistency :: "(bytes \<Rightarrow> bytes) \<Rightarrow> KernelState \<Rightarrow> KernelState \<Rightarrow> bool" where
  "verify_snapshot_consistency H snapshot_state replayed_state \<longleftrightarrow>
     hash_state_blake3 H snapshot_state = hash_state_blake3 H replayed_state"

section \<open>Committing\<close>

datatype CommitError = EventLogFailed EventLogError | ShadowApply KernelError

datatype CommitResult = Committed | RolledBack

definition DEFAULT_LOG_ROTATION_BYTES :: u64 where "DEFAULT_LOG_ROTATION_BYTES = 268435456"
definition DEFAULT_WRITE_BUFFER_SIZE :: nat where "DEFAULT_WRITE_BUFFER_SIZE = 64"

text \<open>The committer, with the sealed segments it has left on disk.\<close>

record EventCommitter =
  ec_event_log :: EventLogWriter
  ec_journal :: EventJournal
  ec_live_state :: KernelState
  ec_log_rotation_bytes :: "u64 option"
  ec_write_buf :: "LogEntry list"
  ec_flush_every :: nat
  ec_sealed :: "bytes list"

definition committer_new :: "EventLogWriter \<Rightarrow> EventJournal \<Rightarrow> KernelState \<Rightarrow> EventCommitter" where
  "committer_new event_log journal live_state =
     \<lparr>ec_event_log = event_log, ec_journal = journal, ec_live_state = live_state,
      ec_log_rotation_bytes = Some DEFAULT_LOG_ROTATION_BYTES, ec_write_buf = [],
      ec_flush_every = DEFAULT_WRITE_BUFFER_SIZE, ec_sealed = []\<rparr>"

definition with_rotation_bytes :: "u64 option \<Rightarrow> EventCommitter \<Rightarrow> EventCommitter" where
  "with_rotation_bytes limit cm = cm\<lparr>ec_log_rotation_bytes := limit\<rparr>"

definition with_flush_every :: "nat \<Rightarrow> EventCommitter \<Rightarrow> EventCommitter" where
  "with_flush_every n cm = cm\<lparr>ec_flush_every := (if n = 0 then 1 else n), ec_write_buf := []\<rparr>"

text \<open>The successive readings of the clock during one operation.\<close>

type_synonym clock = "nat \<Rightarrow> u64"

text \<open>\<open>append_batch\<close> of the buffer; the buffer is cleared when it succeeds.\<close>

definition write_buffer :: "wire_codec \<Rightarrow> clock \<Rightarrow> EventCommitter \<Rightarrow> (CommitError, unit) res \<times> EventCommitter" where
  "write_buffer c now cm =
     (case append_batch c (now 0) (ec_write_buf cm) (ec_event_log cm) of
        (Ok _, w) \<Rightarrow> (Ok (), cm\<lparr>ec_event_log := w, ec_write_buf := []\<rparr>)
      | (r, w) \<Rightarrow> (map_err EventLogFailed r, cm\<lparr>ec_event_log := w\<rparr>))"

definition flush_pending :: "wire_codec \<Rightarrow> clock \<Rightarrow> EventCommitter \<Rightarrow> (CommitError, unit) res \<times> EventCommitter" where
  "flush_pending c now cm = (if ec_write_buf cm = [] then (Ok (), cm) else write_buffer c now cm)"

definition maybe_rotate :: "wire_codec \<Rightarrow> clock \<Rightarrow> EventCommitter \<Rightarrow> EventCommitter" where
  "maybe_rotate c now cm =
     (case ec_log_rotation_bytes cm of
        None \<Rightarrow> cm
      | Some limit \<Rightarrow>
          if unat (w_bytes_written (ec_event_log cm)) < unat limit then cm
          else let checkpoint = Checkpoint (j_committed_height (ec_journal cm)) (hash_state_blake3 (blake3_of c) (ec_live_state cm)) (now 2) in
            (case rotate c (now 3) (Some checkpoint) (ec_event_log cm) of
               (Ok sealed, w) \<Rightarrow> cm\<lparr>ec_event_log := w, ec_sealed := ec_sealed cm @ [sealed]\<rparr>
             | (_, w) \<Rightarrow> cm\<lparr>ec_event_log := w\<rparr>))"

definition log_entry :: "u16 \<Rightarrow> KernelEvent \<Rightarrow> LogEntry" where
  "log_entry ns event = (if ns = DEFAULT_NS then Event event else EventNs ns event)"

definition journal_commit :: "clock \<Rightarrow> KernelEvent list \<Rightarrow> EventCommitter \<Rightarrow> EventCommitter" where
  "journal_commit now events cm = cm\<lparr>ec_journal := commit_buffer (now 1) (fold append_buffered events (ec_journal cm))\<rparr>"

definition commit_event_ns :: "wire_codec \<Rightarrow> clock \<Rightarrow> KernelEvent \<Rightarrow> u16 \<Rightarrow> EventCommitter
    \<Rightarrow> (CommitError, CommitResult) res \<times> EventCommitter" where
  "commit_event_ns c now event ns cm =
     (case fst (apply_event_ns event ns (ec_live_state cm)) of
        Ok _ \<Rightarrow>
          (case apply_event_ns event ns (ec_live_state cm) of
             (Ok _, st') \<Rightarrow>
               (let cm = cm\<lparr>ec_live_state := st', ec_write_buf := ec_write_buf cm @ [log_entry ns event]\<rparr>;
                    (r, cm) = (if length (ec_write_buf cm) \<ge> ec_flush_every cm then write_buffer c now cm else (Ok (), cm)) in
                case r of
                  Ok _ \<Rightarrow> (Ok Committed, maybe_rotate c now (journal_commit now [event] cm))
                | Err e \<Rightarrow> (Err e, cm) | Panic \<Rightarrow> (Panic, cm) | Diverges \<Rightarrow> (Diverges, cm))
           | (_, st') \<Rightarrow> (Panic, cm\<lparr>ec_live_state := st'\<rparr>))
      | Err e \<Rightarrow> (Err (ShadowApply e), cm) | Panic \<Rightarrow> (Panic, cm) | Diverges \<Rightarrow> (Diverges, cm))"

fun apply_all :: "KernelEvent list \<Rightarrow> u16 \<Rightarrow> KernelState \<Rightarrow> KernelState kres" where
  "apply_all [] ns st = Ok st"
| "apply_all (e # events) ns st =
     (case apply_event_ns e ns st of
        (Ok _, st') \<Rightarrow> apply_all events ns st' | (Err err, _) \<Rightarrow> Err err | (Panic, _) \<Rightarrow> Panic | (Diverges, _) \<Rightarrow> Diverges)"

definition commit_batch_ns :: "wire_codec \<Rightarrow> clock \<Rightarrow> KernelEvent list \<Rightarrow> u16 \<Rightarrow> EventCommitter
    \<Rightarrow> (CommitError, CommitResult) res \<times> EventCommitter" where
  "commit_batch_ns c now events ns cm =
     (if events = [] then (Ok Committed, cm)
      else case apply_all events ns (ec_live_state cm) of
        Ok _ \<Rightarrow>
          (case append_batch c (now 0) (map (log_entry ns) events) (ec_event_log cm) of
             (Ok _, w) \<Rightarrow>
               (let cm = cm\<lparr>ec_event_log := w\<rparr> in
                case apply_all events ns (ec_live_state cm) of
                  Ok st' \<Rightarrow> (Ok Committed, maybe_rotate c now (journal_commit now events (cm\<lparr>ec_live_state := st'\<rparr>)))
                | Diverges \<Rightarrow> (Diverges, cm) | _ \<Rightarrow> (Panic, cm))
           | (r, w) \<Rightarrow> (map_err EventLogFailed (res_bind r (\<lambda>_. Ok Committed)), cm\<lparr>ec_event_log := w\<rparr>))
      | Err e \<Rightarrow> (Err (ShadowApply e), cm) | Panic \<Rightarrow> (Panic, cm) | Diverges \<Rightarrow> (Diverges, cm))"

definition commit_event :: "wire_codec \<Rightarrow> clock \<Rightarrow> KernelEvent \<Rightarrow> EventCommitter \<Rightarrow> (CommitError, CommitResult) res \<times> EventCommitter" where
  "commit_event c now event cm = commit_event_ns c now event DEFAULT_NS cm"

definition commit_batch :: "wire_codec \<Rightarrow> clock \<Rightarrow> KernelEvent list \<Rightarrow> EventCommitter \<Rightarrow> (CommitError, CommitResult) res \<times> EventCommitter" where
  "commit_batch c now events cm = commit_batch_ns c now events DEFAULT_NS cm"

definition flush_log :: "wire_codec \<Rightarrow> clock \<Rightarrow> EventCommitter \<Rightarrow> (CommitError, unit) res \<times> EventCommitter" where
  "flush_log c now cm =
     (case flush_pending c now cm of
        (Ok _, cm) \<Rightarrow> (Ok (), cm\<lparr>ec_event_log := log_sync (ec_event_log cm)\<rparr>)
      | (r, cm) \<Rightarrow> (r, cm))"

definition rotate_log :: "wire_codec \<Rightarrow> clock \<Rightarrow> LogEntry option \<Rightarrow> EventCommitter \<Rightarrow> (CommitError, unit) res \<times> EventCommitter" where
  "rotate_log c now checkpoint cm =
     (case flush_pending c now cm of
        (Ok _, cm) \<Rightarrow>
          (case rotate c (now 1) checkpoint (ec_event_log cm) of
             (Ok sealed, w) \<Rightarrow> (Ok (), cm\<lparr>ec_event_log := w, ec_sealed := ec_sealed cm @ [sealed]\<rparr>)
           | (r, w) \<Rightarrow> (map_err EventLogFailed (res_bind r (\<lambda>_. Ok ())), cm\<lparr>ec_event_log := w\<rparr>))
      | (r, cm) \<Rightarrow> (r, cm))"

definition write_checkpoint :: "wire_codec \<Rightarrow> clock \<Rightarrow> LogEntry \<Rightarrow> EventCommitter \<Rightarrow> (CommitError, CommitResult) res \<times> EventCommitter" where
  "write_checkpoint c now entry cm =
     (case log_append c (now 0) entry (ec_event_log cm) of
        (Ok _, w) \<Rightarrow>
          (let cm = cm\<lparr>ec_event_log := w\<rparr> in
           (Ok Committed, case entry of
              Checkpoint event_count _ _ \<Rightarrow> cm\<lparr>ec_journal := set_height event_count (ec_journal cm)\<rparr> | _ \<Rightarrow> cm))
      | (r, w) \<Rightarrow> (map_err EventLogFailed (res_bind r (\<lambda>_. Ok Committed)), cm\<lparr>ec_event_log := w\<rparr>))"

text \<open>The outcome of the final flush is ignored, and what it left in the buffer is dropped. A panic of the flush is one of \<open>into_parts\<close>.\<close>

definition into_parts :: "wire_codec \<Rightarrow> clock \<Rightarrow> EventCommitter \<Rightarrow> (unit, EventLogWriter \<times> EventJournal \<times> KernelState) res" where
  "into_parts c now cm =
     (case flush_pending c now cm of
        (Panic, _) \<Rightarrow> Panic | (Diverges, _) \<Rightarrow> Diverges
      | (_, cm) \<Rightarrow> Ok (ec_event_log cm, ec_journal cm, ec_live_state cm))"

end
