(* ===== verification/Event_Store_Props.thy ===== *)
theory Event_Store_Props
  imports Event_Log_Props Event_Store
begin

text \<open>Recovery returns what was committed: reading back segments, and the invariant of the committer.\<close>

section \<open>Segments\<close>

definition items_events :: "item list \<Rightarrow> (u16 \<times> KernelEvent) list" where
  "items_events items = concat (map (\<lambda>(t, rid, x). entry_events x) items)"

lemma items_events_simps [simp]: "items_events [] = []" "items_events (xs @ ys) = items_events xs @ items_events ys"
  "items_events ((t, rid, x) # xs) = entry_events x @ items_events xs"
  by (simp_all add: items_events_def)

lemma chained_events:
  "encode_log c head items = Ok (bs, h) \<Longrightarrow> concat (map (\<lambda>d. entry_events (d_entry d)) (chained c head items)) = items_events items"
proof (induction items arbitrary: head bs)
  case (Cons x items)
  obtain t rid e where x: "x = (t, rid, e)" by (cases x) auto
  then obtain h' bs' where "chain_advance c VERSION_V4 head (stamped head t rid e) = Ok h'" "encode_log c h' items = Ok (bs', h)"
    using Cons.prems by auto
  then show ?case using Cons.IH x by (simp add: stamped_def)
qed simp

definition dim_ok :: "u32 \<Rightarrow> u32 option \<Rightarrow> bool" where
  "dim_ok dim expected \<longleftrightarrow> 1 \<le> unat dim \<and> unat dim \<le> WIRE_MAX_DIM \<and> (case expected of Some d \<Rightarrow> d = dim | None \<Rightarrow> True)"

lemma read_segment_torn:
  assumes laws: "codec_laws c" and dim: "dim_ok dim expected"
    and seg: "segment c dim seq prev items file h" and torn: "torn_tail c torn"
  shows "read_segment_full c expected (file @ torn)
    = Ok \<lparr>s_segment_seq = seq, s_prev_head = prev, s_final_head = h, s_events = items_events items\<rparr>"
proof -
  obtain bs where bs: "length prev = 32" "items_wf items" "encode_log c prev items = Ok (bs, h)"
    "file = encode_header_v4 dim FORMAT_Q16_16 seq prev @ bs" using seg by (auto simp: segment_def)
  have "walk_loop c VERSION_V4 (bs @ torn) 48 prev [] = Some (Ok (chained c prev items, h))"
    using walk_chained [OF laws torn bs(2,1,3), of 48 "[]"] by simp
  then show ?thesis
    using dim bs(1) chained_events [OF bs(3)]
    by (simp add: read_segment_full_def bs(4) parse_header_v4 dim_ok_def walk_segment_body_def split: option.splits)
qed

text \<open>Whatever prefix a crash leaves, the entries that were synced are read back, in order and without gaps.\<close>

lemma read_segment_crash:
  assumes laws: "codec_laws c" and inv: "log_inv c S w items k" and exp: "dim_ok (w_dim w) expected" and n: "w_synced w \<le> n"
  shows "\<exists>m h prev whole. k \<le> m \<and> m \<le> length items \<and> (n \<ge> length (w_written w) \<longrightarrow> m = length items) \<and>
    sealed_chain c (w_dim w) 0 (replicate 32 0) S prev \<and>
    segment c (w_dim w) (w_segment_seq w) prev (take m items) whole h \<and>
    read_segment_full c expected (take n (w_written w))
    = Ok \<lparr>s_segment_seq = w_segment_seq w, s_prev_head = prev, s_final_head = h, s_events = items_events (take m items)\<rparr>"
proof -
  obtain prev fk hk where S: "sealed_chain c (w_dim w) 0 (replicate 32 0) S prev"
    and seg: "segment c (w_dim w) (w_segment_seq w) prev items (w_written w) (w_chain_head w)"
    and syn: "segment c (w_dim w) (w_segment_seq w) prev (take k items) fk hk" "w_synced w = length fk" "k \<le> length items"
    using inv by (auto simp: log_inv_def)
  let ?hdr = "encode_header_v4 (w_dim w) FORMAT_Q16_16 (w_segment_seq w) prev"
  obtain bs where bs: "length prev = 32" "items_wf items" "encode_log c prev items = Ok (bs, w_chain_head w)" "w_written w = ?hdr @ bs"
    using seg by (auto simp: segment_def)
  obtain bk where bk: "encode_log c prev (take k items) = Ok (bk, hk)" "fk = ?hdr @ bk" using syn(1) by (auto simp: segment_def)
  let ?n = "min (n - 48) (length bs)"
  have n48: "48 \<le> n" using n syn(2) bk(2) bs(1) by simp
  obtain m bm hm torn where m: "m \<le> length items" "encode_log c prev (take m items) = Ok (bm, hm)" "take ?n bs = bm @ torn" "torn_tail c torn"
    and max: "\<And>k bk hk. k \<le> length items \<Longrightarrow> encode_log c prev (take k items) = Ok (bk, hk) \<Longrightarrow> length bk \<le> ?n \<Longrightarrow> k \<le> m"
    using prefix_of_log [OF laws bs(2,1,3), of ?n] by auto
  have "items_wf (take m items)" using bs(2) by (meson in_set_takeD)
  then have whole: "segment c (w_dim w) (w_segment_seq w) prev (take m items) (?hdr @ bm) hm" using m(2) bs(1) by (simp add: segment_def)
  have "take ?n bs = take (n - 48) bs" by (simp add: min_def)
  then have "take n (w_written w) = (?hdr @ bm) @ torn" using m(3) n48 bs(1,4) by simp
  then have "read_segment_full c expected (take n (w_written w))
      = Ok \<lparr>s_segment_seq = w_segment_seq w, s_prev_head = prev, s_final_head = hm, s_events = items_events (take m items)\<rparr>"
    using read_segment_torn [OF laws exp whole m(4)] by simp
  moreover have "length bk \<le> ?n"
  proof -
    have "length bk \<le> length bs"
      using bs(3) bk(1) encode_log_append [of c prev "take k items" "drop k items"]
      by (cases "encode_log c hk (drop k items)") auto
    moreover have "length bk \<le> n - 48" using n syn(2) bk(2) bs(1) by simp
    ultimately show ?thesis by simp
  qed
  then have "k \<le> m" using max syn(3) bk(1) by blast
  moreover have "m = length items" if "n \<ge> length (w_written w)"
  proof -
    have "length bs \<le> ?n" using that bs(1,4) by simp
    then show ?thesis using max [of "length items"] bs(3) m(1) by simp
  qed
  ultimately show ?thesis using m(1) S whole by blast
qed

section \<open>All segments\<close>

lemma collect_res_Ok: "collect_res (map f xs) = Ok ys \<longleftrightarrow> list_all2 (\<lambda>x y. f x = Ok y) xs ys"
  by (induction xs arbitrary: ys) (auto simp: list_all2_Cons1)

text \<open>The replays of a chain of sealed segments followed by a last one.\<close>

lemma splice_chain:
  assumes laws: "codec_laws c" and dim: "dim_ok dim expected"
  shows "sealed_chain c dim seq prev S h \<Longrightarrow>
    list_all2 (\<lambda>f r. read_segment_full c expected f = Ok r) (map fst S) rs \<Longrightarrow> (case pc of Some p \<Rightarrow> p = prev | None \<Rightarrow> True) \<Longrightarrow>
    s_prev_head lst = h \<Longrightarrow> splice pc (rs @ [lst]) = Ok (items_events (concat (map snd S)) @ s_events lst)"
proof (induction S arbitrary: seq prev rs pc)
  case Nil
  then show ?case by (auto split: option.splits)
next
  case (Cons p S)
  obtain fl items where p: "p = (fl, items)" by (cases p)
  then obtain h' where seg: "segment c dim (of_nat seq) prev items fl h'" "sealed_chain c dim (Suc seq) h' S h"
    using Cons.prems(1) by auto
  have "read_segment_full c expected fl = Ok \<lparr>s_segment_seq = of_nat seq, s_prev_head = prev, s_final_head = h', s_events = items_events items\<rparr>"
    using read_segment_torn [OF laws dim seg(1), of "[]"] by (simp add: torn_tail_def)
  then obtain rs' where rs: "rs = \<lparr>s_segment_seq = of_nat seq, s_prev_head = prev, s_final_head = h', s_events = items_events items\<rparr> # rs'"
    "list_all2 (\<lambda>f r. read_segment_full c expected f = Ok r) (map fst S) rs'"
    using Cons.prems(2) p by (auto simp: list_all2_Cons1)
  show ?case using Cons.IH [OF seg(2) rs(2), of "Some h'"] Cons.prems(3,4) p rs(1) by (auto split: option.splits)
qed

definition ok_value :: "('e, 'a) res \<Rightarrow> 'a" where
  "ok_value r = (case r of Ok x \<Rightarrow> x | _ \<Rightarrow> undefined)"

lemma collect_res_values: "(\<And>x. x \<in> set xs \<Longrightarrow> f x \<in> range Ok) \<Longrightarrow> collect_res (map f xs) = Ok (map (\<lambda>x. ok_value (f x)) xs)"
proof (induction xs)
  case (Cons x xs)
  then obtain y where "f x = Ok y" by fastforce
  then show ?case using Cons by (simp add: ok_value_def)
qed simp

lemma sealed_reads:
  assumes laws: "codec_laws c" and dim: "dim_ok dim expected"
  shows "sealed_chain c dim seq prev S h \<Longrightarrow> seq + length S \<le> 2 ^ 32 \<Longrightarrow>
    (\<forall>f \<in> set (map fst S). read_segment_full c expected f \<in> range Ok) \<and>
    map (\<lambda>f. unat (s_segment_seq (ok_value (read_segment_full c expected f)))) (map fst S) = [seq..<seq + length S]"
proof (induction S arbitrary: seq prev)
  case (Cons p S)
  obtain fl items where p: "p = (fl, items)" by (cases p)
  then obtain h' where seg: "segment c dim (of_nat seq) prev items fl h'" "sealed_chain c dim (Suc seq) h' S h"
    using Cons.prems(1) by auto
  have "read_segment_full c expected fl = Ok \<lparr>s_segment_seq = of_nat seq, s_prev_head = prev, s_final_head = h', s_events = items_events items\<rparr>"
    using read_segment_torn [OF laws dim seg(1), of "[]"] by (simp add: torn_tail_def)
  moreover have "unat (of_nat seq :: u32) = seq" using Cons.prems(2) by (intro unat_of_nat_len) simp
  ultimately show ?case
    using Cons.IH [OF seg(2)] Cons.prems(2) p by (simp add: ok_value_def upt_conv_Cons del: upt_Suc)
qed simp

lemma read_all_sorted:
  assumes reads: "\<And>f. f \<in> set L \<Longrightarrow> read_segment_full c expected f \<in> range Ok"
    and keys: "map (\<lambda>f. unat (s_segment_seq (ok_value (read_segment_full c expected f)))) L = [0..<length L]"
    and perm: "mset files = mset L"
  shows "read_all_segments c expected files = splice None (map (\<lambda>f. ok_value (read_segment_full c expected f)) L)"
proof -
  let ?g = "\<lambda>f. ok_value (read_segment_full c expected f)" and ?key = "\<lambda>s. unat (s_segment_seq s)"
  have set: "set files = set L" using perm by (metis set_mset_mset)
  have "collect_res (map (read_segment_full c expected) files) = Ok (map ?g files)"
    using reads set by (intro collect_res_values) auto
  moreover have "sort_key ?key (map ?g files) = map ?g L"
  proof (rule sort_key_inj_key_eq)
    show "mset (map ?g files) = mset (map ?g L)" using perm by simp
    have "map ?key (map ?g L) = [0..<length L]" using keys by (simp add: comp_def)
    then have "distinct (map ?key (map ?g L))" "sorted (map ?key (map ?g L))" by simp_all
    then show "inj_on ?key (set (map ?g files))" "sorted (map ?key (map ?g L))"
      using set distinct_map [of ?key "map ?g L"] by simp_all
  qed
  ultimately show ?thesis by (simp add: read_all_segments_def)
qed

lemma read_all_crash:
  assumes laws: "codec_laws c" and inv: "log_inv c S w items k" and exp: "dim_ok (w_dim w) expected" and n: "w_synced w \<le> n"
    and size: "length S < 2 ^ 32" and perm: "mset files = mset (take n (w_written w) # map fst S)"
  shows "\<exists>m. k \<le> m \<and> m \<le> length items \<and> (n \<ge> length (w_written w) \<longrightarrow> m = length items) \<and>
    read_all_segments c expected files = Ok (items_events (concat (map snd S) @ take m items))"
proof -
  obtain m h prev where m: "k \<le> m" "m \<le> length items" "n \<ge> length (w_written w) \<longrightarrow> m = length items"
    and S: "sealed_chain c (w_dim w) 0 (replicate 32 0) S prev"
    and live: "read_segment_full c expected (take n (w_written w))
      = Ok \<lparr>s_segment_seq = w_segment_seq w, s_prev_head = prev, s_final_head = h, s_events = items_events (take m items)\<rparr>" (is "_ = Ok ?r")
    using read_segment_crash [OF laws inv exp n] by blast
  let ?L = "map fst S @ [take n (w_written w)]"
  note sealed = sealed_reads [OF laws exp S]
  have reads: "read_segment_full c expected f \<in> range Ok" if "f \<in> set ?L" for f
    using that sealed size live by auto
  have "unat (w_segment_seq w) = length S" using inv size by (simp add: log_inv_def unat_of_nat_len)
  then have "map (\<lambda>f. unat (s_segment_seq (ok_value (read_segment_full c expected f)))) ?L = [0..<length ?L]"
    using sealed size live by (simp add: ok_value_def)
  then have "read_all_segments c expected files = splice None (map (\<lambda>f. ok_value (read_segment_full c expected f)) ?L)"
    using perm by (intro read_all_sorted reads) simp_all
  also have "\<dots> = splice None (map (\<lambda>f. ok_value (read_segment_full c expected f)) (map fst S) @ [?r])"
    using live by (simp add: ok_value_def)
  also have "\<dots> = Ok (items_events (concat (map snd S)) @ s_events ?r)"
  proof (rule splice_chain [OF laws exp S])
    show "list_all2 (\<lambda>f r. read_segment_full c expected f = Ok r) (map fst S)
        (map (\<lambda>f. ok_value (read_segment_full c expected f)) (map fst S))"
      using sealed size by (force simp: list_all2_map1 list_all2_map2 list_all2_same ok_value_def image_iff)
  qed simp_all
  finally show ?thesis using m by auto
qed

section \<open>The committer\<close>

lemma replay_loop_append: "replay_loop (xs @ ys) st = res_bind (replay_loop xs st) (replay_loop ys)"
  by (induction xs st rule: replay_loop.induct) (auto split: prod.splits res.splits)

abbreviation buffered_events :: "EventCommitter \<Rightarrow> (u16 \<times> KernelEvent) list" where
  "buffered_events cm \<equiv> concat (map entry_events (ec_write_buf cm))"

definition logged_events :: "(bytes \<times> item list) list \<Rightarrow> item list \<Rightarrow> (u16 \<times> KernelEvent) list" where
  "logged_events S items = items_events (concat (map snd S) @ items)"

text \<open>
  The log is a synced chain of segments, its events followed by the buffered ones replay to the live state, and they
  are the events of the journal.
\<close>

definition committer_inv :: "wire_codec \<Rightarrow> EventCommitter \<Rightarrow> (bytes \<times> item list) list \<Rightarrow> item list \<Rightarrow> bool" where
  "committer_inv c cm S items \<longleftrightarrow>
     log_inv c S (ec_event_log cm) items (length items) \<and> map fst S = ec_sealed cm \<and> (\<forall>e \<in> set (ec_write_buf cm). entry_wf e) \<and>
     replay_events (logged_events S items @ buffered_events cm) = Ok (ec_live_state cm) \<and>
     j_buffer (ec_journal cm) = [] \<and> j_committed (ec_journal cm) = map snd (logged_events S items @ buffered_events cm)"

lemma items_events_batch [simp]: "items_events (map (\<lambda>e. (now, None, e)) es) = concat (map entry_events es)"
  by (simp add: items_events_def comp_def)

lemma write_buffer_inv:
  assumes laws: "codec_laws c" and inv: "committer_inv c cm S items" and run: "write_buffer c now cm = (Ok (), cm')"
  shows "committer_inv c cm' S (items @ map (\<lambda>e. (now 0, None, e)) (ec_write_buf cm)) \<and> ec_write_buf cm' = [] \<and>
    ec_live_state cm' = ec_live_state cm \<and> ec_journal cm' = ec_journal cm \<and> ec_flush_every cm' = ec_flush_every cm"
proof -
  obtain r w where run': "append_batch c (now 0) (ec_write_buf cm) (ec_event_log cm) = (r, w)" by fastforce
  then have r: "r = Ok ()" and cm': "cm' = cm\<lparr>ec_event_log := w, ec_write_buf := []\<rparr>"
    using run by (cases r; auto simp: write_buffer_def)+
  have "log_inv c S w (items @ map (\<lambda>e. (now 0, None, e)) (ec_write_buf cm)) (length items + length (ec_write_buf cm))"
  proof (cases "ec_write_buf cm = []")
    case True
    then show ?thesis using inv run' by (simp add: committer_inv_def append_batch_def)
  next
    case False
    then show ?thesis
      using append_batch_inv [OF laws _ _ run'] inv r by (force simp: committer_inv_def)
  qed
  then show ?thesis using inv by (simp add: committer_inv_def cm' logged_events_def)
qed

lemma encode_checkpoint:
  assumes laws: "codec_laws c" and head: "length head = 32" "length h = 32"
  shows "\<exists>bs. encode_entry c VERSION_V4 head t None (Checkpoint n h ts) = Ok bs"
proof -
  have "v3_wf \<lparr>e3_prev_hash = head, e3_wall_time_secs = t, e3_request_id = None, e3_entry = Checkpoint n h ts\<rparr>"
    using head by (simp add: v3_wf_def)
  then obtain bs where "enc_v3 c \<lparr>e3_prev_hash = head, e3_wall_time_secs = t, e3_request_id = None, e3_entry = Checkpoint n h ts\<rparr> = Ok bs"
    using codec_lawsE [OF laws] by blast
  then show ?thesis by (simp add: encode_entry_v4 check_metadata_cap_def)
qed

lemma maybe_rotate_log:
  assumes laws: "codec_laws c" and log: "log_inv c S (ec_event_log cm) items (length items)" "map fst S = ec_sealed cm"
  shows "\<exists>S' items' w sl. maybe_rotate c now cm = cm\<lparr>ec_event_log := w, ec_sealed := sl\<rparr> \<and>
    log_inv c S' w items' (length items') \<and> map fst S' = sl \<and> logged_events S' items' = logged_events S items \<and> length S' \<le> Suc (length S)"
proof (cases "maybe_rotate c now cm = cm")
  case True
  then show ?thesis using log by (intro exI [of _ S] exI [of _ items] exI [of _ "ec_event_log cm"] exI [of _ "ec_sealed cm"]) simp
next
  case False
  let ?w = "ec_event_log cm"
  let ?cp = "Checkpoint (j_committed_height (ec_journal cm)) (hash_state_blake3 (blake3_of c) (ec_live_state cm)) (now 2)"
  have wf: "entry_wf ?cp" by (simp add: hash_state_blake3_def codec_laws_chain(2) [OF laws])
  have head: "length (w_chain_head ?w) = 32" using log_inv_segment [OF log(1)] segment_head [OF laws] by metis
  obtain bs h where bs: "encode_entry c VERSION_V4 (w_chain_head ?w) (now 3) None ?cp = Ok bs"
    "chain_advance c VERSION_V4 (w_chain_head ?w) (stamped (w_chain_head ?w) (now 3) None ?cp) = Ok h"
    using encode_checkpoint [OF laws head] chain_advance_total [OF laws, of "stamped (w_chain_head ?w) (now 3) None ?cp"] wf
    by (metis DecodedEntry.select_convs(4) entry_wf.simps(3) stamped_def)
  then obtain w where rot: "rotate c (now 3) (Some ?cp) ?w = (Ok (w_written ?w), w)"
    by (auto simp: rotate_def Let_def log_sync_def)
  then have cm': "maybe_rotate c now cm = cm\<lparr>ec_event_log := w, ec_sealed := ec_sealed cm @ [w_written ?w]\<rparr>"
    using False by (auto simp: maybe_rotate_def Let_def split: option.splits)
  have "log_inv c (S @ [(w_written ?w, items)]) w [(now 3, None, ?cp)] 1"
    using rotate_inv [OF laws log(1) _ rot] wf by simp
  moreover have "logged_events (S @ [(w_written ?w, items)]) [(now 3, None, ?cp)] = logged_events S items"
    by (simp add: logged_events_def)
  ultimately show ?thesis
    using cm' log(2) by (intro exI [of _ "S @ [(w_written ?w, items)]"] exI [of _ "[(now 3, None, ?cp)]"] exI [of _ w]
        exI [of _ "ec_sealed cm @ [w_written ?w]"]) simp
qed

lemma maybe_rotate_inv:
  assumes laws: "codec_laws c" and inv: "committer_inv c cm S items"
  shows "\<exists>S' items'. committer_inv c (maybe_rotate c now cm) S' items'"
proof -
  have "log_inv c S (ec_event_log cm) items (length items)" "map fst S = ec_sealed cm" using inv by (simp_all add: committer_inv_def)
  then obtain S' items' w sl where "maybe_rotate c now cm = cm\<lparr>ec_event_log := w, ec_sealed := sl\<rparr>"
    "log_inv c S' w items' (length items')" "map fst S' = sl" "logged_events S' items' = logged_events S items"
    using maybe_rotate_log [OF laws] by blast
  then show ?thesis using inv by (intro exI [of _ S'] exI [of _ items']) (simp add: committer_inv_def)
qed

lemma log_entry_events [simp]: "entry_events (log_entry ns e) = [(ns, e)]" "entry_wf (log_entry ns e) \<longleftrightarrow> event_fits e"
  by (simp_all add: log_entry_def)

text \<open>Buffering an applied event keeps the invariant.\<close>

lemma buffer_event_inv:
  assumes inv: "committer_inv c cm S items" and wf: "event_fits e"
    and run: "apply_event_ns e ns (ec_live_state cm) = (Ok (), st')"
  shows "replay_events (logged_events S items @ buffered_events cm @ [(ns, e)]) = Ok st'"
proof -
  have "replay_loop (logged_events S items @ buffered_events cm) kernel_new = Ok (ec_live_state cm)"
    using inv by (simp add: committer_inv_def replay_events_def)
  then show ?thesis
    using run replay_loop_append [of "logged_events S items @ buffered_events cm" "[(ns, e)]" kernel_new]
    by (simp add: replay_events_def)
qed

lemma journal_commit_one:
  assumes "j_buffer (ec_journal cm) = []"
  shows "ec_event_log (journal_commit now [e] cm) = ec_event_log cm" "ec_live_state (journal_commit now [e] cm) = ec_live_state cm"
    "ec_write_buf (journal_commit now [e] cm) = ec_write_buf cm" "ec_sealed (journal_commit now [e] cm) = ec_sealed cm"
    "j_committed (ec_journal (journal_commit now [e] cm)) = j_committed (ec_journal cm) @ [e]"
    "j_buffer (ec_journal (journal_commit now [e] cm)) = []"
  using assms by (simp_all add: journal_commit_def commit_buffer_def append_buffered_def Let_def)

lemma commit_event_inv:
  assumes laws: "codec_laws c" and inv: "committer_inv c cm S items" and wf: "event_fits e"
    and run: "commit_event_ns c now e ns cm = (Ok r, cm')"
  shows "\<exists>S' items'. committer_inv c cm' S' items'"
proof -
  obtain st' where ap: "apply_event_ns e ns (ec_live_state cm) = (Ok (), st')"
    using run by (auto simp: commit_event_ns_def split: res.splits prod.splits)
  let ?cm = "cm\<lparr>ec_live_state := st', ec_write_buf := ec_write_buf cm @ [log_entry ns e]\<rparr>"
  note replay = buffer_event_inv [OF inv wf ap]
  define cm1 where "cm1 = snd (if length (ec_write_buf ?cm) \<ge> ec_flush_every ?cm then write_buffer c now ?cm else (Ok (), ?cm))"
  have cm': "cm' = maybe_rotate c now (journal_commit now [e] cm1)"
    and ok: "fst (if length (ec_write_buf ?cm) \<ge> ec_flush_every ?cm then write_buffer c now ?cm else (Ok (), ?cm)) = Ok ()"
    using run ap by (auto simp: commit_event_ns_def cm1_def Let_def split: res.splits prod.splits if_splits)
  have j: "j_buffer (ec_journal cm) = []" "j_committed (ec_journal cm) = map snd (logged_events S items @ buffered_events cm)"
    using inv by (simp_all add: committer_inv_def)
  \<comment> \<open>the buffered state, with the journal already extended\<close>
  have inv1: "committer_inv c (journal_commit now [e] ?cm) S items"
    using inv replay wf j by (simp add: committer_inv_def journal_commit_one)
  have "\<exists>items1. committer_inv c (journal_commit now [e] cm1) S items1"
  proof (cases "length (ec_write_buf ?cm) \<ge> ec_flush_every ?cm")
    case True
    then have wb: "write_buffer c now ?cm = (Ok (), cm1)" using ok by (simp add: cm1_def prod_eq_iff)
    then have "write_buffer c now (journal_commit now [e] ?cm) = (Ok (), journal_commit now [e] cm1)"
      by (auto simp: write_buffer_def journal_commit_def split: res.splits prod.splits)
    from write_buffer_inv [OF laws inv1 this] show ?thesis by blast
  next
    case False
    then show ?thesis using inv1 by (auto simp: cm1_def)
  qed
  then show ?thesis using maybe_rotate_inv [OF laws] cm' by blast
qed

text \<open>Committers that start on a fresh log and are driven by single commits and flushes.\<close>

inductive committed :: "wire_codec \<Rightarrow> EventCommitter \<Rightarrow> bool" for c where
  start: "log_open c None (Some dim) = Ok w \<Longrightarrow> 1 \<le> unat dim \<Longrightarrow> unat dim \<le> WIRE_MAX_DIM \<Longrightarrow>
    committed c (with_flush_every k (with_rotation_bytes limit (committer_new w journal_new kernel_new)))"
| commit: "committed c cm \<Longrightarrow> event_fits e \<Longrightarrow> commit_event_ns c now e ns cm = (Ok r, cm') \<Longrightarrow> committed c cm'"
| flush: "committed c cm \<Longrightarrow> flush_pending c now cm = (Ok (), cm') \<Longrightarrow> committed c cm'"

lemma committed_inv:
  assumes laws: "codec_laws c"
  shows "committed c cm \<Longrightarrow> \<exists>S items. committer_inv c cm S items"
proof (induction rule: committed.induct)
  case (start dim w k limit)
  then have "log_inv c [] w [] 0" by (rule log_open_new)
  then show ?case
    by (intro exI [of _ "[]"]) (simp add: committer_inv_def with_flush_every_def with_rotation_bytes_def committer_new_def journal_new_def
        logged_events_def replay_events_def)
next
  case (commit cm e now ns r cm')
  then show ?case using commit_event_inv [OF laws] by blast
next
  case (flush cm now cm')
  then obtain S items where "committer_inv c cm S items" by blast
  with flush(2) show ?case using write_buffer_inv [OF laws] unfolding flush_pending_def by (metis prod.inject)
qed

lemma committed_recovers:
  assumes laws: "codec_laws c" and cm: "committed c cm" and size: "length (ec_sealed cm) < 2 ^ 32"
    and files: "mset files = mset (w_written (ec_event_log cm) # ec_sealed cm)"
  shows "\<exists>st j n. recover_from_event_log c files = Ok (st, j, n) \<and>
    j_committed (ec_journal cm) = j_committed j @ map snd (buffered_events cm) \<and>
    replay_loop (buffered_events cm) st = Ok (ec_live_state cm)"
proof -
  obtain S items where inv: "committer_inv c cm S items" using committed_inv [OF laws cm] by blast
  let ?w = "ec_event_log cm"
  have log: "log_inv c S ?w items (length items)" "map fst S = ec_sealed cm" using inv by (simp_all add: committer_inv_def)
  have "dim_ok (w_dim ?w) None" using log(1) by (simp add: log_inv_def dim_ok_def)
  moreover have "w_synced ?w \<le> length (w_written ?w)" using log(1) by (simp add: log_inv_all_synced)
  moreover have "length S < 2 ^ 32" using size log(2) by (metis length_map)
  ultimately have "read_all_segments c None files = Ok (logged_events S items)"
    using read_all_crash [OF laws log(1), of None "length (w_written ?w)" files] files log(2)
    by (auto simp: logged_events_def)
  moreover obtain st where "replay_events (logged_events S items) = Ok st" "replay_loop (buffered_events cm) st = Ok (ec_live_state cm)"
    using inv replay_loop_append [of "logged_events S items" "buffered_events cm" kernel_new]
    by (auto simp: committer_inv_def replay_events_def)
  ultimately show ?thesis
    using inv by (simp add: recover_from_event_log_def committer_inv_def from_committed_def)
qed

end
