(* ===== verification/Sample_Codec.thy ===== *)
theory Sample_Codec
  imports Event_Log_Props
begin

text \<open>
  A concrete serialisation with the laws of \<open>codec_laws\<close>, on which the theorems about the log are instantiated: the
  fields of an entry in the order of the Rust structs, behind a length written in unary.
\<close>

section \<open>Fields\<close>

fun enc_admin :: "bincode \<Rightarrow> AdminEvent \<Rightarrow> bytes" where
  "enc_admin B (NodeJoined i raft api by) = enc_variant B 0 @ enc_u64 B i @ enc_str B raft @ enc_str B api @ enc_key B by"
| "enc_admin B (NodeLeft i by) = enc_variant B 1 @ enc_u64 B i @ enc_key B by"

definition dec_admin :: "bincode \<Rightarrow> AdminEvent decoder" where
  "dec_admin B bs =
     do { (v, bs) \<leftarrow> dec_variant B bs; (i, bs) \<leftarrow> dec_u64 B bs;
          if v = 0 then do { (raft, bs) \<leftarrow> dec_str B bs; (api, bs) \<leftarrow> dec_str B bs; (by, bs) \<leftarrow> dec_key B bs;
                             Some (NodeJoined i raft api by, bs) }
          else do { (by, bs) \<leftarrow> dec_key B bs; Some (NodeLeft i by, bs) } }"

fun enc_log_entry :: "bincode \<Rightarrow> LogEntry \<Rightarrow> bytes" where
  "enc_log_entry B (Event e) = enc_variant B 0 @ encode_event B e"
| "enc_log_entry B (Checkpoint n h t) = enc_variant B 1 @ enc_u64 B n @ enc_many (enc_u8 B) h @ enc_u64 B t"
| "enc_log_entry B (Admin a) = enc_variant B 2 @ enc_admin B a"
| "enc_log_entry B (EventNs ns e) = enc_variant B 3 @ enc_u16 B ns @ encode_event B e"

definition dec_log_entry :: "bincode \<Rightarrow> LogEntry decoder" where
  "dec_log_entry B bs =
     do { (v, bs) \<leftarrow> dec_variant B bs;
          if v = 0 then do { (e, bs) \<leftarrow> decode_event B bs; Some (Event e, bs) }
          else if v = 1 then do { (n, bs) \<leftarrow> dec_u64 B bs; (h, bs) \<leftarrow> dec_many (dec_u8 B) 32 bs; (t, bs) \<leftarrow> dec_u64 B bs;
                                  Some (Checkpoint n h t, bs) }
          else if v = 2 then do { (a, bs) \<leftarrow> dec_admin B bs; Some (Admin a, bs) }
          else do { (ns, bs) \<leftarrow> dec_u16 B bs; (e, bs) \<leftarrow> decode_event B bs; Some (EventNs ns e, bs) } }"

definition enc_item :: "bincode \<Rightarrow> item \<Rightarrow> bytes" where
  "enc_item B x = enc_u64 B (fst x) @ enc_option B (enc_key B) (fst (snd x)) @ enc_log_entry B (snd (snd x))"

definition dec_item :: "bincode \<Rightarrow> item decoder" where
  "dec_item B bs =
     do { (t, bs) \<leftarrow> dec_u64 B bs; (rid, bs) \<leftarrow> dec_option B (dec_key B) bs; (x, bs) \<leftarrow> dec_log_entry B bs; Some ((t, rid, x), bs) }"

lemma admin_codec:
  assumes B: "bincode_laws B" and "admin_wf a"
  shows "dec_admin B (enc_admin B a @ r) = Some (a, r)"
  using assms(2) by (cases a) (simp_all add: dec_admin_def bincode_lawsD [OF B] key_roundtrip [OF B] text_ok_def)

lemma log_entry_codec:
  assumes B: "bincode_laws B" and "entry_wf x"
  shows "dec_log_entry B (enc_log_entry B x @ r) = Some (x, r)"
proof (cases x)
  case (Checkpoint n h t)
  then have "dec_many (dec_u8 B) 32 (enc_many (enc_u8 B) h @ r') = Some (h, r')" for r'
    using dec_many_enc_many [of "dec_u8 B" "enc_u8 B" h r'] bincode_lawsD(1) [OF B] assms(2) by simp
  then show ?thesis using Checkpoint by (simp add: dec_log_entry_def bincode_lawsD [OF B])
qed (use assms(2) in \<open>simp_all add: dec_log_entry_def bincode_lawsD [OF B] event_roundtrip_aux [OF B] admin_codec [OF B] event_fits_def\<close>)

lemma item_codec:
  assumes B: "bincode_laws B" and "item_wf x"
  shows "dec_item B (enc_item B x @ r) = Some (x, r)"
proof -
  obtain t rid e where x: "x = (t, rid, e)" by (cases x) auto
  have "dec_option B (dec_key B) (enc_option B (enc_key B) rid @ r') = Some (rid, r')" for r'
    using assms(2) x key_roundtrip [OF B] by (intro option_roundtrip [OF B]) auto
  then show ?thesis
    using assms(2) x by (simp add: dec_item_def enc_item_def bincode_lawsD [OF B] log_entry_codec [OF B])
qed

section \<open>Frames\<close>

definition frame :: "bytes \<Rightarrow> bytes" where
  "frame body = replicate (length body) 1 @ 0 # body"

definition unframe :: "(bytes \<Rightarrow> 'a option) \<Rightarrow> bytes \<Rightarrow> (DecodeError, 'a \<times> nat) res" where
  "unframe parse bs =
     (let n = length (takeWhile (\<lambda>b. b = 1) bs) in
      if length bs < 2 * n + 1 then Err UnexpectedEnd
      else case parse (take n (drop (n + 1) bs)) of Some x \<Rightarrow> Ok (x, 2 * n + 1) | None \<Rightarrow> Err (OtherError ''invalid entry''))"

lemma takeWhile_ones: "takeWhile (\<lambda>b. b = (1 :: u8)) (replicate n 1 @ 0 # r) = replicate n 1"
  by (induction n) simp_all

lemma unframe_frame: "parse body = Some x \<Longrightarrow> unframe parse (frame body @ r) = Ok (x, length (frame body))"
  by (simp add: unframe_def frame_def takeWhile_ones)

lemma unframe_prefix: "n < length (frame body) \<Longrightarrow> unframe parse (take n (frame body)) = Err UnexpectedEnd"
proof (cases "n \<le> length body")
  case True
  then have "take n (frame body) = replicate n 1" by (simp add: frame_def)
  then show ?thesis by (cases n) (simp_all add: unframe_def)
next
  case False
  assume n: "n < length (frame body)"
  have "take n (frame body) = replicate (length body) 1 @ 0 # take (n - length body - 1) body"
    using False by (cases "n - length body") (auto simp: frame_def take_Cons')
  then show ?thesis using n False by (simp add: unframe_def takeWhile_ones frame_def)
qed

section \<open>The codec\<close>

definition body_v3 :: "EntryV3 \<Rightarrow> bytes" where
  "body_v3 e = e3_prev_hash e @ enc_item le_bincode (e3_wall_time_secs e, e3_request_id e, e3_entry e)"

definition parse_v3 :: "bytes \<Rightarrow> EntryV3 option" where
  "parse_v3 bs =
     (case dec_item le_bincode (drop 32 bs) of
        Some ((t, rid, x), _) \<Rightarrow> Some \<lparr>e3_prev_hash = take 32 bs, e3_wall_time_secs = t, e3_request_id = rid, e3_entry = x\<rparr>
      | None \<Rightarrow> None)"

definition sample_codec :: wire_codec where
  "sample_codec =
     \<lparr>enc_v2 = (\<lambda>e. Ok (frame (body_v3 \<lparr>e3_prev_hash = e2_prev_hash e, e3_wall_time_secs = e2_wall_time_secs e,
                                      e3_request_id = None, e3_entry = e2_entry e\<rparr>))),
      dec_v2 = unframe (\<lambda>bs. map_option (\<lambda>e. \<lparr>e2_prev_hash = e3_prev_hash e, e2_wall_time_secs = e3_wall_time_secs e,
                                             e2_entry = e3_entry e\<rparr>) (parse_v3 bs)),
      enc_v3 = (\<lambda>e. Ok (frame (body_v3 e))), dec_v3 = unframe parse_v3,
      enc_commit_v2 = (\<lambda>(t, x). Ok (enc_item le_bincode (t, None, x))),
      enc_commit_v3 = (\<lambda>x. Ok (enc_item le_bincode x)),
      crc32_of = (\<lambda>bs. of_nat (length bs)), blake3_of = (\<lambda>bs. replicate 32 (of_nat (length bs)))\<rparr>"

lemma parse_body_v3:
  assumes "v3_wf e"
  shows "parse_v3 (body_v3 e @ r) = Some e"
proof -
  have "item_wf (e3_wall_time_secs e, e3_request_id e, e3_entry e)" using assms by (simp add: v3_wf_def)
  from item_codec [OF le_bincode_laws this] assms show ?thesis
    by (simp add: parse_v3_def body_v3_def v3_wf_def)
qed

lemma sample_codec_laws: "codec_laws sample_codec"
  unfolding codec_laws_def
proof (intro conjI allI impI)
  fix e assume "v3_wf e"
  then have "parse_v3 (body_v3 e) = Some e" using parse_body_v3 [of e "[]"] by simp
  then show "\<exists>bs. enc_v3 sample_codec e = Ok bs \<and> bs \<noteq> [] \<and> (\<forall>r. dec_v3 sample_codec (bs @ r) = Ok (e, length bs)) \<and>
      (\<forall>n < length bs. dec_v3 sample_codec (take n bs) = Err UnexpectedEnd)"
    using unframe_frame [of parse_v3 "body_v3 e" e] unframe_prefix [of _ "body_v3 e" parse_v3]
    by (simp add: sample_codec_def frame_def)
next
  fix x y :: item and bs
  assume "item_wf x \<and> item_wf y \<and> enc_commit_v3 sample_codec x = Ok bs \<and> enc_commit_v3 sample_codec y = Ok bs"
  then show "x = y"
    using item_codec [OF le_bincode_laws, of x "[]"] item_codec [OF le_bincode_laws, of y "[]"] by (auto simp: sample_codec_def)
qed (simp_all add: sample_codec_def)

end
