(* ===== verification/Log_Theorems.thy ===== *)
theory Log_Theorems
  imports Event_Store_Props Sample_Codec Kernel_Demo
begin

text \<open>The properties of the event log and of the committer.\<close>

section \<open>Writing succeeds\<close>

lemma encode_entry_ok:
  assumes laws: "codec_laws c" and "item_wf (t, rid, x)" "length head = 32" "check_metadata_cap x = Ok ()"
  shows "\<exists>bs. encode_entry c VERSION_V4 head t rid x = Ok bs"
proof -
  have "v3_wf \<lparr>e3_prev_hash = head, e3_wall_time_secs = t, e3_request_id = rid, e3_entry = x\<rparr>"
    using assms by (simp add: v3_wf_def)
  then obtain bs where "enc_v3 c \<lparr>e3_prev_hash = head, e3_wall_time_secs = t, e3_request_id = rid, e3_entry = x\<rparr> = Ok bs"
    using codec_lawsE [OF laws] by blast
  then show ?thesis using assms(4) by (simp add: encode_entry_v4)
qed

lemma chain_entry_ok: "codec_laws c \<Longrightarrow> entry_wf x \<Longrightarrow> \<exists>h. chain_advance c VERSION_V4 head (stamped head t rid x) = Ok h"
  using chain_advance_total [of c "stamped head t rid x"] by (auto simp: stamped_def)

lemma append_ok:
  assumes laws: "codec_laws c" and inv: "log_inv c S w items k" and x: "item_wf (t, rid, x)" "check_metadata_cap x = Ok ()"
  shows "\<exists>w'. append_with_request_id c t x rid w = (Ok (), w')"
proof -
  have head: "length (w_chain_head w) = 32" using log_inv_segment [OF inv] segment_head [OF laws] by metis
  have v: "w_version w = VERSION_V4" using inv by (simp add: log_inv_def)
  obtain bs h where "encode_entry c VERSION_V4 (w_chain_head w) t rid x = Ok bs"
    "chain_advance c VERSION_V4 (w_chain_head w) (stamped (w_chain_head w) t rid x) = Ok h"
    using encode_entry_ok [OF laws x(1) head x(2)] chain_entry_ok [OF laws, of x "w_chain_head w" t rid] x(1) by auto
  then show ?thesis by (simp add: append_with_request_id_def v log_sync_def log_write_def Let_def)
qed

lemma batch_loop_ok:
  assumes laws: "codec_laws c"
  shows "length (w_chain_head w) = 32 \<Longrightarrow> w_version w = VERSION_V4 \<Longrightarrow> \<forall>x \<in> set es. entry_wf x \<and> check_metadata_cap x = Ok () \<Longrightarrow>
    \<exists>tot' w'. batch_loop c t es tot w = (Ok tot', w') \<and> length (w_chain_head w') = 32 \<and> w_version w' = VERSION_V4"
proof (induction es arbitrary: w tot)
  case (Cons x es)
  have x: "item_wf (t, None, x)" "check_metadata_cap x = Ok ()" using Cons.prems(3) by simp_all
  obtain bs h where bs: "encode_entry c VERSION_V4 (w_chain_head w) t None x = Ok bs"
    "chain_advance c VERSION_V4 (w_chain_head w) (stamped (w_chain_head w) t None x) = Ok h"
    using encode_entry_ok [OF laws x(1) Cons.prems(1) x(2)] chain_entry_ok [OF laws, of x "w_chain_head w" t None] x(1) by auto
  have "length h = 32" using chain_advance_length [OF laws bs(2)] .
  then show ?case
    using Cons.IH [of "(log_write bs w)\<lparr>w_chain_head := h\<rparr>"] Cons.prems bs by (simp add: log_write_def)
qed simp

lemma append_batch_ok:
  assumes laws: "codec_laws c" and inv: "log_inv c S w items k" and es: "\<forall>x \<in> set es. entry_wf x \<and> check_metadata_cap x = Ok ()"
  shows "\<exists>w'. append_batch c t es w = (Ok (), w')"
proof -
  have "length (w_chain_head w) = 32" using log_inv_segment [OF inv] segment_head [OF laws] by metis
  moreover have "w_version w = VERSION_V4" using inv by (simp add: log_inv_def)
  ultimately show ?thesis using batch_loop_ok [OF laws _ _ es, of w t 0] by (auto simp: append_batch_def Let_def)
qed

lemma synced_log:
  assumes "log_inv c S w items (length items)"
  shows "dim_ok (w_dim w) None" "w_synced w \<le> length (w_written w)"
  using assms unfolding log_inv_all_synced by (auto simp: dim_ok_def)

text \<open>Reading a log that is synced.\<close>

lemma read_synced:
  assumes laws: "codec_laws c" and log: "log_inv c S w items (length items)" and S: "length S < 2 ^ 32"
  shows "read_all_segments c None (w_written w # map fst S) = Ok (logged_events S items)"
  using read_all_crash [OF laws log synced_log [OF log] S, of "w_written w # map fst S"] by (auto simp: logged_events_def)

section \<open>Crashes\<close>

text \<open>Writers that start on a fresh file, with the sealed segments, the entries of the live segment and the number of them that are synced.\<close>

inductive writes :: "wire_codec \<Rightarrow> (bytes \<times> item list) list \<Rightarrow> EventLogWriter \<Rightarrow> item list \<Rightarrow> nat \<Rightarrow> bool" for c where
  fresh: "log_open c None (Some dim) = Ok w \<Longrightarrow> 1 \<le> unat dim \<Longrightarrow> unat dim \<le> WIRE_MAX_DIM \<Longrightarrow> writes c [] w [] 0"
| append: "writes c S w items k \<Longrightarrow> item_wf (now, rid, e) \<Longrightarrow> append_with_request_id c now e rid w = (Ok (), w') \<Longrightarrow>
    writes c S w' (items @ [(now, rid, e)]) (Suc (length items))"
| batch: "writes c S w items k \<Longrightarrow> \<forall>e \<in> set es. entry_wf e \<Longrightarrow> es \<noteq> [] \<Longrightarrow> append_batch c now es w = (Ok (), w') \<Longrightarrow>
    writes c S w' (items @ map (\<lambda>e. (now, None, e)) es) (length items + length es)"
| batch_failed: "writes c S w items k \<Longrightarrow> \<forall>e \<in> set es. entry_wf e \<Longrightarrow> append_batch c now es w = (Err err, w') \<Longrightarrow>
    batch_loop c now (take j es) 0 w = (Ok n, w') \<Longrightarrow> writes c S w' (items @ map (\<lambda>e. (now, None, e)) (take j es)) k"
| rotate: "writes c S w items k \<Longrightarrow> \<forall>e. cp = Some e \<longrightarrow> entry_wf e \<Longrightarrow> rotate c now cp w = (Ok sealed, w') \<Longrightarrow>
    writes c (S @ [(sealed, items)]) w' (map (\<lambda>e. (now, None, e)) (case cp of None \<Rightarrow> [] | Some e \<Rightarrow> [e]))
      (length (case cp of None \<Rightarrow> [] | Some e \<Rightarrow> [e]))"

lemma log_inv_unsynced:
  assumes laws: "codec_laws c" and inv: "log_inv c S w items k" and wf: "\<forall>e \<in> set es. entry_wf e"
    and run: "batch_loop c now es 0 w = (Ok n, w')"
  shows "log_inv c S w' (items @ map (\<lambda>e. (now, None, e)) es) k"
proof -
  obtain prev fk hk where S: "sealed_chain c (w_dim w) 0 (replicate 32 0) S prev"
    and seg: "segment c (w_dim w) (w_segment_seq w) prev items (w_written w) (w_chain_head w)"
    and syn: "segment c (w_dim w) (w_segment_seq w) prev (take k items) fk hk" "w_synced w = length fk" "k \<le> length items"
    using inv by (auto simp: log_inv_def)
  have v: "w_version w = VERSION_V4" using inv by (simp add: log_inv_def)
  show ?thesis
    using batch_loop_inv [OF laws seg v wf run] S syn inv by (auto simp: log_inv_def)
qed

lemma writes_inv:
  assumes laws: "codec_laws c"
  shows "writes c S w items k \<Longrightarrow> log_inv c S w items k"
proof (induction rule: writes.induct)
  case (fresh dim w)
  then show ?case by (rule log_open_new)
next
  case (append S w items k now rid e w')
  then show ?case using append_inv [OF laws append.IH append.hyps(2,3)] by simp
next
  case (batch S w items k es now w')
  then show ?case using append_batch_inv [OF laws batch.IH batch.hyps(2,4)] by auto
next
  case (batch_failed S w items k es now err w' j n)
  have "\<forall>e \<in> set (take j es). entry_wf e" using batch_failed.hyps(2) by (meson in_set_takeD)
  then show ?case using log_inv_unsynced [OF laws batch_failed.IH _ batch_failed.hyps(4)] by simp
next
  case (rotate S w items k cp now sealed w')
  from rotate_inv [OF laws rotate.IH rotate.hyps(2,3)] show ?case by (rule conjunct2)
qed


lemma sample_open: "\<exists>w. log_open sample_codec None (Some 2) = Ok w \<and> writes sample_codec [] w [] 0 \<and> w_dim w = 2"
proof -
  obtain w where w: "log_open sample_codec None (Some 2) = Ok w" "w_dim w = 2" by (simp add: log_open_def Let_def)
  then show ?thesis using writes.fresh [OF w(1)] by (auto simp: WIRE_MAX_DIM_def)
qed


section \<open>Restarts\<close>


text \<open>A fresh committer and one that holds a buffered event.\<close>

definition fresh_committer :: "wire_codec \<Rightarrow> EventCommitter" where
  "fresh_committer c = committer_new (ok_value (log_open c None (Some 1))) journal_new kernel_new"

lemma fresh_open: "log_open c None (Some 1) = Ok (ok_value (log_open c None (Some 1)))"
  by (simp add: log_open_def ok_value_def Let_def)

lemma fresh_committed: "committed c (fresh_committer c)"
proof -
  have "with_flush_every 64 (with_rotation_bytes (Some DEFAULT_LOG_ROTATION_BYTES) (fresh_committer c)) = fresh_committer c"
    by (simp add: with_flush_every_def with_rotation_bytes_def fresh_committer_def committer_new_def DEFAULT_WRITE_BUFFER_SIZE_def)
  moreover have "committed c (with_flush_every 64 (with_rotation_bytes (Some DEFAULT_LOG_ROTATION_BYTES) (fresh_committer c)))"
    unfolding fresh_committer_def by (rule committed.start [OF fresh_open]) (simp_all add: WIRE_MAX_DIM_def)
  ultimately show ?thesis by simp
qed

definition first_insert :: KernelEvent where
  "first_insert = InsertRecord 0 [65536] None 0"

lemma commit_first:
  "\<exists>cm. commit_event_ns c now first_insert DEFAULT_NS (fresh_committer c) = (Ok Committed, cm) \<and>
     ec_write_buf cm = [Event first_insert] \<and> ec_event_log cm = ec_event_log (fresh_committer c) \<and> ec_sealed cm = [] \<and>
     ec_flush_every cm = 64 \<and> ec_log_rotation_bytes cm = Some DEFAULT_LOG_ROTATION_BYTES \<and>
     j_committed (ec_journal cm) = [first_insert] \<and>
     ec_live_state cm = snd (apply_event_ns first_insert DEFAULT_NS kernel_new)"
proof -
  obtain st where st: "apply_event_ns first_insert DEFAULT_NS kernel_new = (Ok (), st)"
    by (simp add: first_insert_def kernel_eval DEFAULT_NS_def)
  have "w_bytes_written (ok_value (log_open c None (Some 1))) = 0" by (simp add: log_open_def ok_value_def Let_def)
  then show ?thesis
    by (simp add: commit_event_ns_def fresh_committer_def committer_new_def st DEFAULT_WRITE_BUFFER_SIZE_def log_entry_def
        maybe_rotate_def journal_commit_def DEFAULT_LOG_ROTATION_BYTES_def commit_buffer_def append_buffered_def journal_new_def Let_def)
qed

lemma capless [simp]: "check_metadata_cap (Event first_insert) = Ok ()" "event_fits first_insert"
  by (simp_all add: check_metadata_cap_def first_insert_def metadata_ok_def event_fits_def DECODE_LIMIT_def)

lemma flush_ok:
  assumes laws: "codec_laws c" and log: "log_inv c S (ec_event_log cm) items k"
    and buf: "\<forall>x \<in> set (ec_write_buf cm). entry_wf x \<and> check_metadata_cap x = Ok ()" "ec_write_buf cm \<noteq> []"
  shows "\<exists>w. append_batch c (now 0) (ec_write_buf cm) (ec_event_log cm) = (Ok (), w) \<and>
    flush_pending c now cm = (Ok (), cm\<lparr>ec_event_log := w, ec_write_buf := []\<rparr>)"
  using append_batch_ok [OF laws log buf(1), of "now 0"] buf(2) by (auto simp: flush_pending_def write_buffer_def)

lemma fresh_log_inv: "log_inv c [] (ec_event_log (fresh_committer c)) [] 0"
  using log_open_new [OF fresh_open] by (simp add: fresh_committer_def committer_new_def WIRE_MAX_DIM_def)


definition second_insert :: KernelEvent where
  "second_insert = InsertRecord 1 [0] None 0"

lemma second_ok [simp]: "check_metadata_cap (Event second_insert) = Ok ()" "event_fits second_insert"
  by (simp_all add: check_metadata_cap_def second_insert_def metadata_ok_def event_fits_def DECODE_LIMIT_def)

lemma second_applies: "\<exists>st. apply_event_ns second_insert DEFAULT_NS (snd (apply_event_ns first_insert DEFAULT_NS kernel_new)) = (Ok (), st)"
  by (simp add: first_insert_def second_insert_def kernel_eval DEFAULT_NS_def)

lemma second_first_fails: "replay_events [(DEFAULT_NS, second_insert), (DEFAULT_NS, first_insert)] = Err (EventApplication InvalidOperation)"
  by (simp add: replay_events_def first_insert_def second_insert_def kernel_eval DEFAULT_NS_def)

text \<open>The batch on its own is logged, and the log may be rotated.\<close>

lemma batch_logged:
  assumes laws: "codec_laws c" and log: "log_inv c [] (ec_event_log cm) [] 0" and cm: "ec_sealed cm = []"
    and ap: "apply_event_ns e DEFAULT_NS (ec_live_state cm) = (Ok (), st)" and e: "event_fits e" "check_metadata_cap (Event e) = Ok ()"
  shows "\<exists>cm' S items. commit_batch_ns c now [e] DEFAULT_NS cm = (Ok Committed, cm') \<and> ec_write_buf cm' = ec_write_buf cm \<and>
    log_inv c S (ec_event_log cm') items (length items) \<and> map fst S = ec_sealed cm' \<and> logged_events S items = [(DEFAULT_NS, e)] \<and> length S \<le> 1"
proof -
  obtain w where w: "append_batch c (now 0) [Event e] (ec_event_log cm) = (Ok (), w)"
    using append_batch_ok [OF laws log, of "[Event e]" "now 0"] e by auto
  have log1: "log_inv c [] w [(now 0, None, Event e)] (length [(now 0, None, Event e)])"
    using append_batch_inv [OF laws log _ w] e(1) by auto
  let ?cm = "journal_commit now [e] (cm\<lparr>ec_event_log := w, ec_live_state := st\<rparr>)"
  have run: "commit_batch_ns c now [e] DEFAULT_NS cm = (Ok Committed, maybe_rotate c now ?cm)"
    using ap w by (simp add: commit_batch_ns_def log_entry_def Let_def)
  have pre: "log_inv c [] (ec_event_log ?cm) [(now 0, None, Event e)] (length [(now 0, None, Event e)])" "map fst [] = ec_sealed ?cm"
    "ec_write_buf ?cm = ec_write_buf cm" using log1 cm by (simp_all add: journal_commit_def)
  obtain S items w' sl where rot: "maybe_rotate c now ?cm = ?cm\<lparr>ec_event_log := w', ec_sealed := sl\<rparr>"
    "log_inv c S w' items (length items)" "map fst S = sl" "logged_events S items = logged_events [] [(now 0, None, Event e)]" "length S \<le> 1"
    using maybe_rotate_log [OF laws pre(1,2), of now] by auto
  then show ?thesis
    using run pre(3) by (intro exI [of _ "maybe_rotate c now ?cm"] exI [of _ S] exI [of _ items]) (simp add: logged_events_def)
qed

text \<open>Batches overtake buffered events. A batch is appended to the log before the events that are still in the write buffer,
  although it was applied after them: one insert committed on its own, followed by a batch with the next insert and a flush, all
  of them successful, leave a log from which recovery fails.\<close>

theorem batch_overtakes_buffer:
  assumes "codec_laws c"
  shows "\<exists>cm1 cm2 cm3. commit_event_ns c now first_insert DEFAULT_NS (fresh_committer c) = (Ok Committed, cm1) \<and>
    commit_batch_ns c now [second_insert] DEFAULT_NS cm1 = (Ok Committed, cm2) \<and> flush_pending c now cm2 = (Ok (), cm3) \<and>
    recover_from_event_log c (w_written (ec_event_log cm3) # ec_sealed cm3) = Err (EventApplication InvalidOperation)"
proof -
  obtain cm1 where run1: "commit_event_ns c now first_insert DEFAULT_NS (fresh_committer c) = (Ok Committed, cm1)"
    and cm1: "ec_write_buf cm1 = [Event first_insert]" "ec_event_log cm1 = ec_event_log (fresh_committer c)" "ec_sealed cm1 = []"
      "ec_live_state cm1 = snd (apply_event_ns first_insert DEFAULT_NS kernel_new)"
    using commit_first [of c now] by blast
  obtain st where "apply_event_ns second_insert DEFAULT_NS (ec_live_state cm1) = (Ok (), st)" using second_applies cm1(4) by metis
  then obtain cm2 S items where run2: "commit_batch_ns c now [second_insert] DEFAULT_NS cm1 = (Ok Committed, cm2)"
    and cm2: "ec_write_buf cm2 = [Event first_insert]" "log_inv c S (ec_event_log cm2) items (length items)" "map fst S = ec_sealed cm2"
      "logged_events S items = [(DEFAULT_NS, second_insert)]" "length S \<le> 1"
    using batch_logged [OF assms, of cm1 second_insert st now] fresh_log_inv [of c] cm1 by auto
  obtain w where w: "append_batch c (now 0) [Event first_insert] (ec_event_log cm2) = (Ok (), w)"
    "flush_pending c now cm2 = (Ok (), cm2\<lparr>ec_event_log := w, ec_write_buf := []\<rparr>)"
    using flush_ok [OF assms cm2(2), of now] cm2(1) by auto
  let ?items = "items @ [(now 0, None, Event first_insert)]"
  have log: "log_inv c S w ?items (length ?items)" using append_batch_inv [OF assms cm2(2) _ w(1)] by auto
  have "read_all_segments c None (w_written w # ec_sealed cm2) = Ok (logged_events S ?items)"
    using read_synced [OF assms log] cm2(3,5) by simp
  moreover have "logged_events S ?items = [(DEFAULT_NS, second_insert), (DEFAULT_NS, first_insert)]"
    using cm2(4) by (simp add: logged_events_def)
  ultimately show ?thesis
    using run1 run2 w(2) second_first_fails by (simp add: recover_from_event_log_def)
qed

theorem batch_overtakes_buffer_witness:
  "\<exists>cm1 cm2 cm3. commit_event_ns sample_codec (\<lambda>_. 5) first_insert DEFAULT_NS (fresh_committer sample_codec) = (Ok Committed, cm1) \<and>
    commit_batch_ns sample_codec (\<lambda>_. 5) [second_insert] DEFAULT_NS cm1 = (Ok Committed, cm2) \<and>
    flush_pending sample_codec (\<lambda>_. 5) cm2 = (Ok (), cm3) \<and>
    recover_from_event_log sample_codec (w_written (ec_event_log cm3) # ec_sealed cm3) = Err (EventApplication InvalidOperation)"
  by (rule batch_overtakes_buffer [OF sample_codec_laws])

section \<open>Failed flushes\<close>

text \<open>A commit that only buffers.\<close>

lemma commit_buffers:
  assumes "apply_event_ns e ns (ec_live_state cm) = (Ok (), st)" "Suc (length (ec_write_buf cm)) < ec_flush_every cm"
    "ec_log_rotation_bytes cm = Some limit" "unat (w_bytes_written (ec_event_log cm)) < unat limit"
  shows "commit_event_ns c now e ns cm = (Ok Committed,
    journal_commit now [e] (cm\<lparr>ec_live_state := st, ec_write_buf := ec_write_buf cm @ [log_entry ns e]\<rparr>))"
  using assms by (simp add: commit_event_ns_def maybe_rotate_def journal_commit_def Let_def)

lemma batch_loop_oversize:
  assumes "check_metadata_cap bad = Err err"
  shows "batch_loop c t xs tot w = (Ok tot', w') \<Longrightarrow> batch_loop c t (xs @ [bad]) tot w = (Err (LogWire err), w')"
proof (induction xs arbitrary: tot w)
  case Nil
  then show ?case using assms by (simp add: encode_entry_def)
next
  case (Cons x xs)
  then show ?case by (auto split: res.splits)
qed

definition oversize :: bytes where "oversize = replicate 65537 0"

definition oversize_update :: KernelEvent where
  "oversize_update = UpdateRecordMetadata 0 (Some oversize)"

lemma oversize_cap: "check_metadata_cap (Event oversize_update) = Err (WMetadataTooLarge 65537)"
  by (simp add: check_metadata_cap_def oversize_update_def oversize_def METADATA_CAP_def)

lemma oversize_applies:
  "\<exists>st. apply_event_ns oversize_update DEFAULT_NS (snd (apply_event_ns first_insert DEFAULT_NS kernel_new)) = (Ok (), st)"
  by (simp add: first_insert_def oversize_update_def kernel_eval apply_update_metadata_def pool_update_metadata_def DEFAULT_NS_def)

lemma first_twice_fails: "replay_events [(DEFAULT_NS, first_insert), (DEFAULT_NS, first_insert)] = Err (EventApplication InvalidOperation)"
  by (simp add: replay_events_def first_insert_def kernel_eval DEFAULT_NS_def)

text \<open>One failed flush of a buffer that ends with an oversized entry: what precedes it is written, and the buffer is kept.\<close>

lemma failed_flush:
  assumes laws: "codec_laws c" and log: "log_inv c S (ec_event_log cm) items k" and buf: "ec_write_buf cm = [Event first_insert, Event oversize_update]"
  shows "\<exists>w. flush_pending c now cm = (Err (EventLogFailed (LogWire (WMetadataTooLarge 65537))), cm\<lparr>ec_event_log := w\<rparr>) \<and>
    log_inv c S w (items @ [(now 0, None, Event first_insert)]) k"
proof -
  have "length (w_chain_head (ec_event_log cm)) = 32" using log_inv_segment [OF log] segment_head [OF laws] by metis
  moreover have "w_version (ec_event_log cm) = VERSION_V4" using log by (simp add: log_inv_def)
  ultimately obtain tot w where loop: "batch_loop c (now 0) [Event first_insert] 0 (ec_event_log cm) = (Ok tot, w)"
    using batch_loop_ok [OF laws, of "ec_event_log cm" "[Event first_insert]" "now 0" 0] by auto
  have "append_batch c (now 0) (ec_write_buf cm) (ec_event_log cm) = (Err (LogWire (WMetadataTooLarge 65537)), w)"
    using batch_loop_oversize [OF oversize_cap loop] by (simp add: append_batch_def buf)
  then have "flush_pending c now cm = (Err (EventLogFailed (LogWire (WMetadataTooLarge 65537))), cm\<lparr>ec_event_log := w\<rparr>)"
    by (simp add: flush_pending_def write_buffer_def buf)
  moreover have "log_inv c S w (items @ [(now 0, None, Event first_insert)]) k"
    using log_inv_unsynced [OF laws log _ loop] by simp
  ultimately show ?thesis by blast
qed

text \<open>A failed flush can be repeated, and every repetition writes the entries before the failing one again. An insert followed by a
  metadata update of 65537 bytes are both committed; the kernel accepts the update, the log does not. Each flush fails, and after
  the second one the log holds the insert twice, so that recovery fails.\<close>

theorem failed_flush_duplicates:
  assumes "codec_laws c"
  shows "\<exists>cm1 cm2 cm3 cm4. commit_event_ns c now first_insert DEFAULT_NS (fresh_committer c) = (Ok Committed, cm1) \<and>
    commit_event_ns c now oversize_update DEFAULT_NS cm1 = (Ok Committed, cm2) \<and>
    flush_pending c now cm2 = (Err (EventLogFailed (LogWire (WMetadataTooLarge 65537))), cm3) \<and>
    flush_pending c now cm3 = (Err (EventLogFailed (LogWire (WMetadataTooLarge 65537))), cm4) \<and>
    recover_from_event_log c (w_written (ec_event_log cm4) # ec_sealed cm4) = Err (EventApplication InvalidOperation)"
proof -
  obtain cm1 where run1: "commit_event_ns c now first_insert DEFAULT_NS (fresh_committer c) = (Ok Committed, cm1)"
    and cm1: "ec_write_buf cm1 = [Event first_insert]" "ec_event_log cm1 = ec_event_log (fresh_committer c)" "ec_sealed cm1 = []"
      "ec_flush_every cm1 = 64" "ec_log_rotation_bytes cm1 = Some DEFAULT_LOG_ROTATION_BYTES"
      "ec_live_state cm1 = snd (apply_event_ns first_insert DEFAULT_NS kernel_new)"
    using commit_first [of c now] by blast
  obtain st where st: "apply_event_ns oversize_update DEFAULT_NS (ec_live_state cm1) = (Ok (), st)" using oversize_applies cm1(6) by metis
  have bytes: "w_bytes_written (ec_event_log cm1) = 0"
    by (simp add: cm1(2) fresh_committer_def committer_new_def log_open_def ok_value_def Let_def)
  obtain cm2 where run2: "commit_event_ns c now oversize_update DEFAULT_NS cm1 = (Ok Committed, cm2)"
    and cm2: "ec_write_buf cm2 = [Event first_insert, Event oversize_update]" "ec_event_log cm2 = ec_event_log (fresh_committer c)" "ec_sealed cm2 = []"
    using commit_buffers [OF st, of DEFAULT_LOG_ROTATION_BYTES] cm1 bytes
    by (simp add: log_entry_def journal_commit_def DEFAULT_LOG_ROTATION_BYTES_def)
  have log2: "log_inv c [] (ec_event_log cm2) [] 0" using fresh_log_inv cm2(2) by metis
  obtain w3 where run3: "flush_pending c now cm2 = (Err (EventLogFailed (LogWire (WMetadataTooLarge 65537))), cm2\<lparr>ec_event_log := w3\<rparr>)"
    and log3: "log_inv c [] w3 [(now 0, None, Event first_insert)] 0"
    using failed_flush [OF assms log2 cm2(1), of now] by auto
  let ?cm3 = "cm2\<lparr>ec_event_log := w3\<rparr>" and ?x = "(now 0, None, Event first_insert) :: item"
  have "log_inv c [] (ec_event_log ?cm3) [?x] 0" "ec_write_buf ?cm3 = [Event first_insert, Event oversize_update]"
    using log3 cm2(1) by simp_all
  from failed_flush [OF assms this, of now]
  obtain w4 where run4: "flush_pending c now ?cm3 = (Err (EventLogFailed (LogWire (WMetadataTooLarge 65537))), ?cm3\<lparr>ec_event_log := w4\<rparr>)"
    and log4: "log_inv c [] w4 [?x, ?x] 0" by auto
  have "dim_ok (w_dim w4) None" using log4 by (simp add: log_inv_def dim_ok_def)
  moreover have "w_synced w4 \<le> length (w_written w4)"
    using log4 by (auto simp: log_inv_def segment_def)
  ultimately have "read_all_segments c None [w_written w4] = Ok [(DEFAULT_NS, first_insert), (DEFAULT_NS, first_insert)]"
    using read_all_crash [OF assms log4, of None "length (w_written w4)" "[w_written w4]"] by auto
  then show ?thesis
    using run1 run2 run3 run4 cm2(3) first_twice_fails by (simp add: recover_from_event_log_def)
qed

theorem failed_flush_duplicates_witness:
  "\<exists>cm1 cm2 cm3 cm4. commit_event_ns sample_codec (\<lambda>_. 5) first_insert DEFAULT_NS (fresh_committer sample_codec) = (Ok Committed, cm1) \<and>
    commit_event_ns sample_codec (\<lambda>_. 5) oversize_update DEFAULT_NS cm1 = (Ok Committed, cm2) \<and>
    flush_pending sample_codec (\<lambda>_. 5) cm2 = (Err (EventLogFailed (LogWire (WMetadataTooLarge 65537))), cm3) \<and>
    flush_pending sample_codec (\<lambda>_. 5) cm3 = (Err (EventLogFailed (LogWire (WMetadataTooLarge 65537))), cm4) \<and>
    recover_from_event_log sample_codec (w_written (ec_event_log cm4) # ec_sealed cm4) = Err (EventApplication InvalidOperation)"
  by (rule failed_flush_duplicates [OF sample_codec_laws])

section \<open>The hash chain\<close>

definition decoded_wf :: "DecodedEntry list \<Rightarrow> bool" where
  "decoded_wf ds \<longleftrightarrow> (\<forall>d \<in> set ds. item_wf (d_wall_time_secs d, d_request_id d, d_entry d))"

text \<open>The last links of two chains: equal heads come from equal entries on equal heads, or from a collision.\<close>

lemma link_binding:
  assumes laws: "codec_laws c" and wf: "decoded_wf [d]" "decoded_wf [d']" and len: "length (d_prev_hash d) = length (d_prev_hash d')"
    and run: "chain_advance c VERSION_V4 (d_prev_hash d) d = Ok h" "chain_advance c VERSION_V4 (d_prev_hash d') d' = Ok h"
  shows "d = d' \<or> clash (blake3_of c) (chain_inputs c [d]) (chain_inputs c [d'])"
proof -
  let ?x = "\<lambda>d. (d_wall_time_secs d, d_request_id d, d_entry d)"
  have link: "\<exists>b. enc_commit_v3 c (?x d) = Ok b \<and> blake3_of c (d_prev_hash d @ b) = h"
    if "chain_advance c VERSION_V4 (d_prev_hash d) d = Ok h" for d
    using that by (auto simp: chain_advance_def chain_advance_v3_def expect_def split: res.splits)
  obtain b b' where b: "enc_commit_v3 c (?x d) = Ok b" "blake3_of c (d_prev_hash d @ b) = h"
      "enc_commit_v3 c (?x d') = Ok b'" "blake3_of c (d_prev_hash d' @ b') = h"
    using link [OF run(1)] link [OF run(2)] by blast
  show ?thesis
  proof (cases "d_prev_hash d @ b = d_prev_hash d' @ b'")
    case True
    then have eq: "d_prev_hash d = d_prev_hash d'" "b = b'" using len by simp_all
    have "item_wf (?x d)" "item_wf (?x d')" using wf by (simp_all add: decoded_wf_def)
    from codec_laws_inj [OF laws this b(1)] have "?x d = ?x d'" using b(3) eq(2) by metis
    then show ?thesis using eq(1) by simp
  next
    case False
    then show ?thesis using b by (auto simp: clash_def)
  qed
qed

lemma linked_head:
  "codec_laws c \<Longrightarrow> length head = 32 \<Longrightarrow> linked c head ds h \<Longrightarrow> length h = 32"
  by (induction ds arbitrary: head) (auto dest: chain_advance_length)

lemma linked_binding:
  assumes laws: "codec_laws c" and len: "length head = 32"
  shows "linked c head ds h \<Longrightarrow> linked c head ds' h \<Longrightarrow> length ds = length ds' \<Longrightarrow> decoded_wf ds \<Longrightarrow> decoded_wf ds' \<Longrightarrow>
    ds = ds' \<or> clash (blake3_of c) (chain_inputs c ds) (chain_inputs c ds')"
proof (induction ds arbitrary: ds' h rule: rev_induct)
  case (snoc d ds)
  obtain es e where ds': "ds' = es @ [e]" using snoc.prems(3) by (cases ds' rule: rev_cases) auto
  have d: "linked c head ds (d_prev_hash d)" "chain_advance c VERSION_V4 (d_prev_hash d) d = Ok h"
    and e: "linked c head es (d_prev_hash e)" "chain_advance c VERSION_V4 (d_prev_hash e) e = Ok h"
    using snoc.prems(1,2) by (auto simp: ds' linked_snoc)
  have wf: "decoded_wf [d]" "decoded_wf [e]" "decoded_wf ds" "decoded_wf es"
    using snoc.prems(4,5) by (simp_all add: ds' decoded_wf_def)
  have sub: "chain_inputs c ds \<subseteq> chain_inputs c (ds @ [d])" "chain_inputs c [d] \<subseteq> chain_inputs c (ds @ [d])"
    "chain_inputs c es \<subseteq> chain_inputs c ds'" "chain_inputs c [e] \<subseteq> chain_inputs c ds'"
    by (simp_all only: ds' chain_inputs_append Un_upper1 Un_upper2)
  have "length (d_prev_hash d) = length (d_prev_hash e)" using linked_head [OF laws len] d(1) e(1) by simp
  from link_binding [OF laws wf(1,2) this d(2) e(2)] show ?case
  proof
    assume "d = e"
    then have "ds = es \<or> clash (blake3_of c) (chain_inputs c ds) (chain_inputs c es)"
      using snoc.IH [of "d_prev_hash d" es] d e wf snoc.prems(3) by (simp add: ds')
    then show ?thesis using \<open>d = e\<close> clash_mono [OF _ sub(1,3)] by (auto simp: ds')
  qed (use clash_mono [OF _ sub(2,4)] in blast)
qed simp

text \<open>C12: The final head of a segment commits to its whole history. If two segment bodies of equally many well-formed
  entries are accepted from the same starting head and end with the same final head, then they hold the same entries, with the same
  times and request ids, or the hashed strings of the two walks contain a collision of the hash function.\<close>

theorem chain_head_binds_history:
  assumes "codec_laws c" "length head = 32"
    and "walk_segment_body c VERSION_V4 buf start head = Ok (ds, h)" "walk_segment_body c VERSION_V4 buf' start' head = Ok (ds', h)"
    and "length ds = length ds'" "decoded_wf ds" "decoded_wf ds'"
  shows "ds = ds' \<or> clash (blake3_of c) (chain_inputs c ds) (chain_inputs c ds')"
  using linked_binding [OF assms(1,2) walk_linked [OF assms(3)] walk_linked [OF assms(4)] assms(5-7)] .

lemma walk_sample:
  fixes r
  defines "x \<equiv> (5, None, Event (DeleteRecord r)) :: item"
  shows "\<exists>bs. walk_segment_body sample_codec VERSION_V4 bs 0 (replicate 32 0) =
    Ok ([stamped (replicate 32 0) 5 None (Event (DeleteRecord r))], replicate 32 (of_nat (32 + length (enc_item le_bincode x))))"
proof -
  let ?e = "Event (DeleteRecord r)" and ?h = "replicate 32 (of_nat (32 + length (enc_item le_bincode x))) :: bytes"
  obtain b where b: "encode_entry sample_codec VERSION_V4 (replicate 32 0) 5 None ?e = Ok b"
    using encode_entry_ok [OF sample_codec_laws, of 5 None ?e "replicate 32 0"] by (auto simp: check_metadata_cap_def)
  have h: "chain_advance sample_codec VERSION_V4 (replicate 32 0) (stamped (replicate 32 0) 5 None ?e) = Ok ?h"
    by (simp add: chain_advance_def chain_advance_v3_def expect_def stamped_def sample_codec_def x_def)
  have enc: "encode_log sample_codec (replicate 32 0) [x] = Ok (b, ?h)" using b h by (simp add: x_def)
  have "torn_tail sample_codec []" by (simp add: torn_tail_def)
  from walk_chained [OF sample_codec_laws this _ _ enc, of 0 "[]"]
  show ?thesis using h by (intro exI [of _ b]) (simp add: walk_segment_body_def x_def)
qed

theorem chain_head_binds_history_witness:
  "clash (blake3_of sample_codec) (chain_inputs sample_codec [stamped (replicate 32 0) 5 None (Event (DeleteRecord 7))])
     (chain_inputs sample_codec [stamped (replicate 32 0) 5 None (Event (DeleteRecord 8))])"
proof -
  have same: "length (enc_item le_bincode (5, None, Event (DeleteRecord 7))) = length (enc_item le_bincode (5, None, Event (DeleteRecord 8)))"
    by (simp add: enc_item_def le_bincode_def)
  obtain bs bs' where walks: "walk_segment_body sample_codec VERSION_V4 bs 0 (replicate 32 0) =
      Ok ([stamped (replicate 32 0) 5 None (Event (DeleteRecord 7))], replicate 32 (of_nat (32 + length (enc_item le_bincode (5, None, Event (DeleteRecord 7))))))"
    "walk_segment_body sample_codec VERSION_V4 bs' 0 (replicate 32 0) =
      Ok ([stamped (replicate 32 0) 5 None (Event (DeleteRecord 8))], replicate 32 (of_nat (32 + length (enc_item le_bincode (5, None, Event (DeleteRecord 7))))))"
    using walk_sample [of 7] walk_sample [of 8] unfolding same by blast
  show ?thesis
    using chain_head_binds_history [OF sample_codec_laws _ walks] by (simp add: decoded_wf_def stamped_def)
qed

section \<open>Torn tails\<close>

text \<open>Reopening a log keeps a torn tail, and the next entry is written behind it. Opening a segment file that ends with
  the start of an entry succeeds with the head of the complete entries; an append to the reopened log is acknowledged, and
  its bytes follow the torn ones in the file.\<close>

theorem reopen_keeps_torn_tail:
  assumes laws: "codec_laws c" and seg: "segment c dim seq prev items file h" and dim: "1 \<le> unat dim" "unat dim \<le> WIRE_MAX_DIM"
    and torn: "torn_tail c torn" and x: "item_wf (t, None, x)" "check_metadata_cap x = Ok ()"
  shows "\<exists>w w' bs. log_open c (Some (file @ torn)) (Some dim) = Ok w \<and> w_chain_head w = h \<and>
    append_with_request_id c t x None w = (Ok (), w') \<and> encode_entry c VERSION_V4 h t None x = Ok bs \<and>
    w_written w' = file @ torn @ bs \<and> w_synced w' = length (w_written w')"
proof -
  obtain body where body: "length prev = 32" "items_wf items" "encode_log c prev items = Ok (body, h)"
    "file = encode_header_v4 dim FORMAT_Q16_16 seq prev @ body" using seg by (auto simp: segment_def)
  have "walk_loop c VERSION_V4 (body @ torn) 48 prev [] = Some (Ok (chained c prev items, h))"
    using walk_chained [OF laws torn body(2,1,3), of 48 "[]"] by simp
  then have "\<exists>w. log_open c (Some (file @ torn)) (Some dim) = Ok w \<and> w_chain_head w = h \<and> w_version w = VERSION_V4 \<and> w_written w = file @ torn"
    by (simp add: log_open_def body(4,1) parse_header_v4 [OF dim] walk_segment_body_def)
  then obtain w where w: "log_open c (Some (file @ torn)) (Some dim) = Ok w" "w_chain_head w = h" "w_version w = VERSION_V4"
    "w_written w = file @ torn" by blast
  obtain bs where bs: "encode_entry c VERSION_V4 h t None x = Ok bs"
    using encode_entry_ok [OF laws x(1) _ x(2)] segment_head [OF laws seg] by blast
  obtain h' where "chain_advance c VERSION_V4 h (stamped h t None x) = Ok h'" using chain_entry_ok [OF laws, of x h t None] x(1) by auto
  then have "\<exists>w'. append_with_request_id c t x None w = (Ok (), w') \<and> w_written w' = file @ torn @ bs \<and> w_synced w' = length (w_written w')"
    using bs w by (simp add: append_with_request_id_def log_sync_def log_write_def Let_def)
  then show ?thesis using w(1,2) bs by blast
qed

text \<open>With the sample codec, an entry behind one torn byte is read as one more torn entry.\<close>

lemma torn_frame:
  assumes "v3_wf e" "length crc = 4"
  shows "decode_entry sample_codec VERSION_V4 (1 # frame (body_v3 e) @ crc) = Err Truncated"
proof -
  let ?n = "length (body_v3 e)" and ?bs = "1 # frame (body_v3 e) @ crc"
  have ones: "?bs = replicate (Suc ?n) 1 @ 0 # body_v3 e @ crc" by (simp add: frame_def)
  have "length (takeWhile (\<lambda>b. b = 1) ?bs) = Suc ?n" unfolding ones takeWhile_ones by simp
  moreover have "take (Suc ?n) (drop (Suc ?n + 1) ?bs) = body_v3 e @ take 1 crc" unfolding ones by simp
  ultimately have "unframe parse_v3 ?bs = Ok (e, 2 * Suc ?n + 1)"
    using parse_body_v3 [OF assms(1), of "take 1 crc"] assms(2) by (simp add: unframe_def Let_def frame_def)
  then show ?thesis using assms(2) by (simp add: decode_entry_def sample_codec_def CRC32_SUFFIX_LEN_def frame_def)
qed

lemma torn_before_sample:
  assumes "encode_entry sample_codec VERSION_V4 (replicate 32 0) 5 None (Event (DeleteRecord 7)) = Ok bs"
  shows "torn_tail sample_codec (1 # bs)"
proof -
  have "v3_wf \<lparr>e3_prev_hash = replicate 32 0, e3_wall_time_secs = 5, e3_request_id = None, e3_entry = Event (DeleteRecord 7)\<rparr>"
    by (simp add: v3_wf_def)
  from torn_frame [OF this] show ?thesis
    using assms by (auto simp: torn_tail_def encode_entry_v4 sample_codec_def)
qed

theorem reopen_keeps_torn_tail_witness:
  "\<exists>w w'. log_open sample_codec (Some (encode_header_v4 2 FORMAT_Q16_16 0 (replicate 32 0) @ [1])) (Some 2) = Ok w \<and>
     append_with_request_id sample_codec 5 (Event (DeleteRecord 7)) None w = (Ok (), w') \<and>
     w_synced w' = length (w_written w') \<and> read_all_segments sample_codec (Some 2) [w_written w'] = Ok []"
proof -
  let ?file = "encode_header_v4 2 FORMAT_Q16_16 0 (replicate 32 0)"
  have seg: "segment sample_codec 2 0 (replicate 32 0) [] ?file (replicate 32 0)" by (simp add: segment_def)
  have "torn_tail sample_codec [1]"
    by (simp add: torn_tail_def decode_entry_def sample_codec_def unframe_def)
  then obtain w w' bs where run: "log_open sample_codec (Some (?file @ [1])) (Some 2) = Ok w"
      "append_with_request_id sample_codec 5 (Event (DeleteRecord 7)) None w = (Ok (), w')"
      "encode_entry sample_codec VERSION_V4 (replicate 32 0) 5 None (Event (DeleteRecord 7)) = Ok bs"
      "w_written w' = ?file @ 1 # bs" "w_synced w' = length (w_written w')"
    using reopen_keeps_torn_tail [OF sample_codec_laws seg, of "[1]" 5 "Event (DeleteRecord 7)"]
    by (auto simp: WIRE_MAX_DIM_def check_metadata_cap_def)
  have "dim_ok 2 (Some 2)" by (simp add: dim_ok_def WIRE_MAX_DIM_def)
  from read_segment_torn [OF sample_codec_laws this seg torn_before_sample [OF run(3)]]
  have "read_all_segments sample_codec (Some 2) [w_written w'] = Ok []"
    unfolding run(4) by (simp add: read_all_segments_def)
  then show ?thesis using run(1,2,5) by blast
qed

end
