(* ===== verification/Registry.thy ===== *)
theory Registry
  imports State_Hash "HOL-Library.AList"
begin

text \<open>
  \<open>valori-metadata/src/collection.rs\<close>: the registry of collection names, which allocates namespace ids. A hash map is the
  list of its pairs; the order of the list stands for the order of its iteration, on which no result depends.
\<close>

section \<open>The registry\<close>

definition MAX_COLLECTIONS :: u16 where "MAX_COLLECTIONS = 1024"

record Collection =
  c_name :: rust_string
  c_project :: rust_string
  c_namespace_id :: u16
  c_created_at :: u64

text \<open>The remainder by zero panics.\<close>

definition shard_id :: "u8 \<Rightarrow> Collection \<Rightarrow> (unit, u8) res" where
  "shard_id shard_count c =
     (if shard_count = 0 then Panic else Ok (of_nat (unat (c_namespace_id c) mod unat shard_count)))"

record CollectionRegistry =
  cr_map :: "(rust_string \<times> u16) list"
  cr_next_id :: u16

definition registry_new :: CollectionRegistry where
  "registry_new = \<lparr>cr_map = [], cr_next_id = 1\<rparr>"

definition default_name :: rust_string where "default_name = ascii ''default''"

definition registry_resolve :: "rust_string option \<Rightarrow> CollectionRegistry \<Rightarrow> u16 option" where
  "registry_resolve name reg =
     (case name of None \<Rightarrow> Some 0 | Some n \<Rightarrow> if n = default_name then Some 0 else map_of (cr_map reg) n)"

definition registry_create :: "rust_string \<Rightarrow> CollectionRegistry \<Rightarrow> u16 option \<times> CollectionRegistry" where
  "registry_create name reg =
     (if name = default_name then (Some 0, reg)
      else case map_of (cr_map reg) name of
        Some i \<Rightarrow> (Some i, reg)
      | None \<Rightarrow>
          if cr_next_id reg \<ge> MAX_COLLECTIONS then (None, reg)
          else (Some (cr_next_id reg),
                reg\<lparr>cr_next_id := cr_next_id reg + 1, cr_map := AList.update name (cr_next_id reg) (cr_map reg)\<rparr>))"

definition registry_drop :: "rust_string \<Rightarrow> CollectionRegistry \<Rightarrow> u16 option \<times> CollectionRegistry" where
  "registry_drop name reg = (map_of (cr_map reg) name, reg\<lparr>cr_map := AList.delete name (cr_map reg)\<rparr>)"

definition registry_names :: "CollectionRegistry \<Rightarrow> rust_string list" where
  "registry_names reg = map fst (sort_key snd (cr_map reg))"

definition registry_list :: "CollectionRegistry \<Rightarrow> (rust_string \<times> u16) list" where
  "registry_list reg = (default_name, 0) # sort_key snd (cr_map reg)"

section \<open>Its invariant\<close>

text \<open>Names and ids correspond one to one, no id is the reserved 0, and every id lies below the next one.\<close>

definition registry_ok :: "CollectionRegistry \<Rightarrow> bool" where
  "registry_ok reg \<longleftrightarrow> distinct (map fst (cr_map reg)) \<and> distinct (map snd (cr_map reg)) \<and>
     default_name \<notin> fst ` set (cr_map reg) \<and> (\<forall>i \<in> snd ` set (cr_map reg). 0 < i \<and> i < cr_next_id reg) \<and>
     0 < cr_next_id reg \<and> cr_next_id reg \<le> MAX_COLLECTIONS"

lemma registry_new_ok: "registry_ok registry_new"
  by (simp add: registry_ok_def registry_new_def MAX_COLLECTIONS_def)

lemma update_fresh: "map_of al k = None \<Longrightarrow> AList.update k v al = al @ [(k, v)]"
  by (induction al) (auto split: if_splits)

lemma next_id_less: "i < MAX_COLLECTIONS \<Longrightarrow> unat (i + 1) = unat i + 1"
  by (simp add: MAX_COLLECTIONS_def word_less_nat_alt unat_word_ariths)

lemma registry_create_ok:
  assumes ok: "registry_ok reg" and run: "registry_create name reg = (r, reg')"
  shows "registry_ok reg'"
proof (cases "cr_next_id reg \<ge> MAX_COLLECTIONS \<or> name = default_name \<or> map_of (cr_map reg) name \<noteq> None")
  case True
  then have "reg' = reg" using run by (auto simp: registry_create_def split: if_splits option.splits)
  then show ?thesis using ok by simp
next
  case False
  then have fresh: "map_of (cr_map reg) name = None" "name \<notin> fst ` set (cr_map reg)" "cr_next_id reg < MAX_COLLECTIONS"
    by (simp_all add: map_of_eq_None_iff not_le)
  then have reg': "reg' = reg\<lparr>cr_next_id := cr_next_id reg + 1, cr_map := cr_map reg @ [(name, cr_next_id reg)]\<rparr>"
    using run False by (simp add: registry_create_def update_fresh)
  have nxt: "cr_next_id reg < cr_next_id reg + 1" "cr_next_id reg + 1 \<le> MAX_COLLECTIONS"
    using next_id_less [OF fresh(3)] fresh(3) by (simp_all add: word_less_nat_alt word_le_nat_alt)
  have "cr_next_id reg \<notin> snd ` set (cr_map reg)" using ok by (auto simp: registry_ok_def)
  then show ?thesis
    using ok fresh False nxt unfolding registry_ok_def reg' by (auto intro: less_trans)
qed

lemma registry_drop_ok: "registry_ok reg \<Longrightarrow> registry_ok (snd (registry_drop name reg))"
proof -
  assume ok: "registry_ok reg"
  have sub: "set (AList.delete name (cr_map reg)) \<subseteq> set (cr_map reg)" by (auto simp: AList.delete_eq)
  have "distinct (map snd (filter (\<lambda>p. fst p \<noteq> name) (cr_map reg)))"
    using ok by (simp add: registry_ok_def distinct_map_filter)
  then show ?thesis
    using ok sub by (auto simp: registry_ok_def registry_drop_def AList.delete_eq distinct_map_filter case_prod_unfold)
qed

text \<open>What \<open>create\<close> promises.\<close>

lemma registry_create_resolves:
  assumes ok: "registry_ok reg" and run: "registry_create name reg = (Some i, reg')"
  shows "registry_resolve (Some name) reg' = Some i"
    "other \<noteq> name \<Longrightarrow> registry_resolve (Some other) reg' = registry_resolve (Some other) reg"
    "registry_create name reg' = (Some i, reg')"
  using run by (auto simp: registry_create_def registry_resolve_def update_fresh map_of_append map_add_def
      split: if_splits option.splits)

text \<open>Ids are not given back: creating and dropping one collection often enough leaves an empty registry that refuses every new name.\<close>

definition create_drop :: "rust_string \<Rightarrow> CollectionRegistry \<Rightarrow> CollectionRegistry" where
  "create_drop name reg = snd (registry_drop name (snd (registry_create name reg)))"

lemma create_drop_step:
  assumes "name \<noteq> default_name" "k < 1024"
  shows "create_drop name \<lparr>cr_map = [], cr_next_id = of_nat k\<rparr> = \<lparr>cr_map = [], cr_next_id = of_nat (Suc k)\<rparr>"
proof -
  have "unat (of_nat k :: u16) = k" using assms(2) by (simp add: unat_of_nat)
  then have "\<not> MAX_COLLECTIONS \<le> (of_nat k :: u16)" using assms(2) by (simp add: MAX_COLLECTIONS_def word_le_nat_alt)
  then show ?thesis using assms(1) by (simp add: create_drop_def registry_create_def registry_drop_def)
qed

lemma registry_exhausted:
  assumes "name \<noteq> default_name" "other \<noteq> default_name"
  shows "registry_names ((create_drop name ^^ 1023) registry_new) = [] \<and>
    registry_create other ((create_drop name ^^ 1023) registry_new) = (None, (create_drop name ^^ 1023) registry_new)"
proof -
  have "(create_drop name ^^ n) registry_new = \<lparr>cr_map = [], cr_next_id = of_nat (Suc n)\<rparr>" if "n \<le> 1023" for n
    using that
  proof (induction n)
    case (Suc n)
    then show ?case using create_drop_step [OF assms(1), of "Suc n"] by simp
  qed (simp add: registry_new_def)
  then have "(create_drop name ^^ 1023) registry_new = \<lparr>cr_map = [], cr_next_id = 1024\<rparr>" by fastforce
  then show ?thesis using assms(2) by (simp add: registry_names_def registry_create_def MAX_COLLECTIONS_def)
qed

end
