(* ===== verification/Raft_State.thy ===== *)
theory Raft_State
  imports Registry Event_Store Wire_Time
begin

text \<open>
  \<open>valori-consensus/src/types.rs\<close> and \<open>state_machine.rs\<close>: the replicated state machine, which applies the committed entries of
  the Raft log to the kernel, answers duplicates, keeps the registry of collections, records applied events with an audit
  sink, and builds, installs and reloads snapshots. The membership of the cluster is a type of \<open>openraft\<close> and stays
  abstract. The database table holds values, not their serialisation, and its operations do not fail.
\<close>

section \<open>Requests and replies\<close>

definition CURRENT_SCHEMA_VERSION :: u8 where "CURRENT_SCHEMA_VERSION = 0"

definition MAX_DEDUP_ENTRIES :: nat where "MAX_DEDUP_ENTRIES = 1048576"

record LogId =
  l_leader :: "u64 \<times> u64"
  l_index :: u64

record ClientRequest =
  q_event :: KernelEvent
  q_request_id :: "bytes option"
  q_schema_version :: u8
  q_namespace_id :: u16

datatype 'm EntryPayload = Blank | Membership 'm | Normal ClientRequest

record 'm Entry =
  en_log_id :: LogId
  en_payload :: "'m EntryPayload"

type_synonym 'm StoredMembership = "LogId option \<times> 'm"

text \<open>The reasons of a rejection, by what their messages are formatted from.\<close>

datatype Rejection = SchemaTooNew u8 | NamespaceLimit | NamespaceNotFound rust_string | KernelRejected KernelError

record ClientResponse =
  a_log_index :: u64
  a_state_hash :: bytes
  a_deduplicated :: bool
  a_rejected :: "Rejection option"
  a_record_id :: "u32 option"
  a_node_id :: "u32 option"
  a_edge_id :: "u32 option"
  a_namespace_id :: "u16 option"

datatype StorageError = AuditFailed EventLogError | PayloadDecode
  | KernelDecode KernelError | StateHashMismatch bytes bytes

section \<open>The state machine\<close>

record SnapshotPayload =
  p_kernel :: bytes
  p_dedup :: "bytes list"
  p_state_hash :: bytes
  p_created_at :: "(u32 \<times> u64) list"
  p_text_corpus :: "(u64 \<times> rust_string) list"
  p_namespace_registry :: "(rust_string \<times> u16) list \<times> u16"

text \<open>Its derived serialisation; the vectors of pairs and the fixed arrays go through the primitives of bincode.\<close>

definition enc_payload :: "bincode \<Rightarrow> SnapshotPayload \<Rightarrow> bytes" where
  "enc_payload B p =
     enc_vec B (enc_u8 B) (p_kernel p) @ enc_vec B (enc_key B) (p_dedup p) @ enc_many (enc_u8 B) (p_state_hash p) @
     enc_vec B (\<lambda>(i, t). enc_u32 B i @ enc_u64 B t) (p_created_at p) @
     enc_vec B (\<lambda>(i, text). enc_u64 B i @ enc_str B text) (p_text_corpus p) @
     enc_vec B (\<lambda>(name, i). enc_str B name @ enc_u16 B i) (fst (p_namespace_registry p)) @ enc_u16 B (snd (p_namespace_registry p))"

definition dec_payload :: "bincode \<Rightarrow> SnapshotPayload decoder" where
  "dec_payload B bs =
     do { (kernel, bs) \<leftarrow> dec_vec B (dec_u8 B) bs; (dedup, bs) \<leftarrow> dec_vec B (dec_key B) bs;
          (state_hash, bs) \<leftarrow> dec_many (dec_u8 B) 32 bs;
          (created_at, bs) \<leftarrow> dec_vec B (\<lambda>bs. do { (i, bs) \<leftarrow> dec_u32 B bs; (t, bs) \<leftarrow> dec_u64 B bs; Some ((i, t), bs) }) bs;
          (text_corpus, bs) \<leftarrow> dec_vec B (\<lambda>bs. do { (i, bs) \<leftarrow> dec_u64 B bs; (text, bs) \<leftarrow> dec_str B bs; Some ((i, text), bs) }) bs;
          (names, bs) \<leftarrow> dec_vec B (\<lambda>bs. do { (name, bs) \<leftarrow> dec_str B bs; (i, bs) \<leftarrow> dec_u16 B bs; Some ((name, i), bs) }) bs;
          (next_id, bs) \<leftarrow> dec_u16 B bs;
          Some (\<lparr>p_kernel = kernel, p_dedup = dedup, p_state_hash = state_hash, p_created_at = created_at,
                 p_text_corpus = text_corpus, p_namespace_registry = (names, next_id)\<rparr>, bs) }"

record 'm SnapshotMeta =
  m_last_log_id :: "LogId option"
  m_last_membership :: "'m StoredMembership"
  m_snapshot_id :: string

record 'm SmDb =
  db_last_applied :: "LogId option"
  db_membership :: "'m StoredMembership option"
  db_snapshot :: "('m SnapshotMeta \<times> bytes) option"

record ('m, 's) StateMachineInner =
  i_state :: KernelState
  i_last_applied :: "LogId option"
  i_membership :: "'m StoredMembership"
  i_dedup_set :: "bytes set"
  i_dedup_order :: "bytes list"
  i_current_snapshot :: "('m SnapshotMeta \<times> bytes) option"
  i_audit :: 's
  i_created_at :: "(u32 \<times> u64) list"
  i_text_corpus :: "(u64 \<times> rust_string) list"
  i_namespace_registry :: CollectionRegistry
  i_db :: "'m SmDb option"
  i_replay_until :: "u64 option"

text \<open>What the state machine is run with: BLAKE3, the audit sink, the clock (read while an index is applied) and the
  primitive codecs of bincode.\<close>

record 's raft_env =
  v_hash :: "bytes \<Rightarrow> bytes"
  v_record :: "KernelEvent \<Rightarrow> bytes option \<Rightarrow> 's \<Rightarrow> (EventLogError, unit) res \<times> 's"
  v_clock :: "u64 \<Rightarrow> u64"
  v_bincode :: bincode

definition sm_new :: "'s \<Rightarrow> nat \<Rightarrow> 'm \<Rightarrow> ('m, 's) StateMachineInner" where
  "sm_new audit dim m0 =
     \<lparr>i_state = kernel_with_dim dim, i_last_applied = None, i_membership = (None, m0), i_dedup_set = {}, i_dedup_order = [],
      i_current_snapshot = None, i_audit = audit, i_created_at = [], i_text_corpus = [],
      i_namespace_registry = registry_new, i_db = None, i_replay_until = None\<rparr>"

text \<open>The eviction loop of \<open>remember_request\<close>.\<close>

fun evict :: "bytes set \<Rightarrow> bytes list \<Rightarrow> bytes set \<times> bytes list" where
  "evict S [] = (S, [])"
| "evict S (old # order) =
     (if length (old # order) > MAX_DEDUP_ENTRIES then evict (S - {old}) order else (S, old # order))"

definition remember_request :: "bytes \<Rightarrow> ('m, 's) StateMachineInner \<Rightarrow> ('m, 's) StateMachineInner" where
  "remember_request i inner =
     (if i \<in> i_dedup_set inner then inner
      else let (S, order) = evict (insert i (i_dedup_set inner)) (i_dedup_order inner @ [i]) in
        inner\<lparr>i_dedup_set := S, i_dedup_order := order\<rparr>)"

definition persist_applied :: "('m, 's) StateMachineInner \<Rightarrow> ('m, 's) StateMachineInner" where
  "persist_applied inner =
     inner\<lparr>i_db := map_option (\<lambda>db. db\<lparr>db_last_applied := i_last_applied inner,
                                      db_membership := Some (i_membership inner)\<rparr>) (i_db inner)\<rparr>"

definition persist_snapshot :: "('m, 's) StateMachineInner \<Rightarrow> ('m, 's) StateMachineInner" where
  "persist_snapshot inner =
     (case i_current_snapshot inner of
        None \<Rightarrow> inner
      | Some snap \<Rightarrow> inner\<lparr>i_db := map_option (\<lambda>db. db\<lparr>db_snapshot := Some snap\<rparr>) (i_db inner)\<rparr>)"

section \<open>Applying entries\<close>

definition sm_state_hash :: "'s raft_env \<Rightarrow> ('m, 's) StateMachineInner \<Rightarrow> bytes" where
  "sm_state_hash env inner = hash_state_blake3 (v_hash env) (i_state inner)"

definition reply :: "'s raft_env \<Rightarrow> u64 \<Rightarrow> bool \<Rightarrow> Rejection option \<Rightarrow> ('m, 's) StateMachineInner \<Rightarrow> ClientResponse" where
  "reply env log_index deduplicated rejected inner =
     \<lparr>a_log_index = log_index, a_state_hash = sm_state_hash env inner, a_deduplicated = deduplicated, a_rejected = rejected,
      a_record_id = None, a_node_id = None, a_edge_id = None, a_namespace_id = None\<rparr>"

fun pre_alloc_id :: "KernelEvent \<Rightarrow> KernelState \<Rightarrow> u32 option" where
  "pre_alloc_id (AutoInsertRecord _ _ _) st = Some (next_record_id st)"
| "pre_alloc_id (AutoInsertRecordEncrypted _ _ _ _) st = Some (next_record_id st)"
| "pre_alloc_id _ st = None"

fun pre_alloc_node_id :: "KernelEvent \<Rightarrow> KernelState \<Rightarrow> u32 option" where
  "pre_alloc_node_id (AutoCreateNode _ _) st = Some (next_node_id st)"
| "pre_alloc_node_id _ st = None"

fun pre_alloc_edge_id :: "KernelEvent \<Rightarrow> KernelState \<Rightarrow> u32 option" where
  "pre_alloc_edge_id (AutoCreateEdge _ _ _) st = Some (next_edge_id st)"
| "pre_alloc_edge_id _ st = None"

text \<open>The registry error, the resolved namespace, and the registry with the speculative insertion.\<close>

fun resolve_request :: "KernelEvent \<Rightarrow> CollectionRegistry \<Rightarrow> Rejection option \<times> u16 option \<times> CollectionRegistry" where
  "resolve_request (AutoCreateNamespace name) reg =
     (case registry_create name reg of
        (Some i, reg) \<Rightarrow> (None, Some i, reg) | (None, reg) \<Rightarrow> (Some NamespaceLimit, None, reg))"
| "resolve_request (DropNamespace name) reg = (None, registry_resolve (Some name) reg, reg)"
| "resolve_request _ reg = (None, None, reg)"

definition kernel_step :: "KernelEvent \<Rightarrow> u16 \<Rightarrow> KernelState \<Rightarrow> (StorageError, Rejection option) res \<times> KernelState" where
  "kernel_step event ns st =
     (case apply_event_ns event ns st of
        (Ok _, st') \<Rightarrow> (Ok None, st') | (Err e, st') \<Rightarrow> (Ok (Some (KernelRejected e)), st')
      | (Panic, st') \<Rightarrow> (Panic, st') | (Diverges, st') \<Rightarrow> (Diverges, st'))"

fun request_step :: "KernelEvent \<Rightarrow> u16 \<Rightarrow> u16 option \<Rightarrow> KernelState \<Rightarrow> (StorageError, Rejection option) res \<times> KernelState" where
  "request_step (AutoCreateNamespace name) ns resolved st =
     (case resolved of Some i \<Rightarrow> kernel_step (AutoCreateNamespace name) i st | None \<Rightarrow> (Panic, st))"
| "request_step (DropNamespace name) ns resolved st =
     (case resolved of Some i \<Rightarrow> kernel_step (DropNamespace name) i st | None \<Rightarrow> (Ok (Some (NamespaceNotFound name)), st))"
| "request_step event ns resolved st = kernel_step event ns st"

definition in_replay :: "u64 \<Rightarrow> ('m, 's) StateMachineInner \<Rightarrow> bool" where
  "in_replay log_index inner \<longleftrightarrow> (case i_replay_until inner of Some t \<Rightarrow> log_index \<le> t | None \<Rightarrow> False)"

definition stamp_record :: "'s raft_env \<Rightarrow> u64 \<Rightarrow> KernelEvent \<Rightarrow> u32 option \<Rightarrow> ('m, 's) StateMachineInner \<Rightarrow> ('m, 's) StateMachineInner" where
  "stamp_record env log_index event rid inner =
     (case rid of
        None \<Rightarrow> inner
      | Some i \<Rightarrow>
          inner\<lparr>i_created_at := AList.update i (v_clock env log_index) (i_created_at inner),
                i_text_corpus := (case event of
                    AutoInsertRecord _ (Some text) _ \<Rightarrow>
                      if utf8_valid text then AList.update (ucast i) text (i_text_corpus inner) else i_text_corpus inner
                  | _ \<Rightarrow> i_text_corpus inner)\<rparr>)"

text \<open>What follows a successful apply; an error of the audit sink leaves the rest undone.\<close>

definition accept_request :: "'s raft_env \<Rightarrow> u64 \<Rightarrow> bool \<Rightarrow> ClientRequest \<Rightarrow> u32 option \<Rightarrow> ('m, 's) StateMachineInner
    \<Rightarrow> (StorageError, unit) res \<times> ('m, 's) StateMachineInner" where
  "accept_request env log_index replaying req rid inner =
     (let inner = (case q_request_id req of Some i \<Rightarrow> remember_request i inner | None \<Rightarrow> inner);
          (r, audit) = (if replaying then (Ok (), i_audit inner) else v_record env (q_event req) (q_request_id req) (i_audit inner));
          inner = inner\<lparr>i_audit := audit\<rparr> in
      case r of
        Ok _ \<Rightarrow> (Ok (), stamp_record env log_index (q_event req) rid inner)
      | Err e \<Rightarrow> (Err (AuditFailed e), inner) | Panic \<Rightarrow> (Panic, inner) | Diverges \<Rightarrow> (Diverges, inner))"

fun settle_registry :: "KernelEvent \<Rightarrow> bool \<Rightarrow> u16 option \<Rightarrow> CollectionRegistry \<Rightarrow> u16 option \<times> CollectionRegistry" where
  "settle_registry (AutoCreateNamespace name) rejected resolved reg =
     (if rejected then (None, snd (registry_drop name reg)) else (resolved, reg))"
| "settle_registry (DropNamespace name) rejected resolved reg =
     (None, if rejected then reg else snd (registry_drop name reg))"
| "settle_registry _ rejected resolved reg = (None, reg)"

definition apply_request :: "'s raft_env \<Rightarrow> u64 \<Rightarrow> ClientRequest \<Rightarrow> ('m, 's) StateMachineInner
    \<Rightarrow> (StorageError, ClientResponse) res \<times> ('m, 's) StateMachineInner" where
  "apply_request env log_index req inner =
     (if unat (q_schema_version req) > unat CURRENT_SCHEMA_VERSION
      then (Ok (reply env log_index False (Some (SchemaTooNew (q_schema_version req))) inner), inner)
      else if (case q_request_id req of Some i \<Rightarrow> i \<in> i_dedup_set inner | None \<Rightarrow> False)
      then (Ok (reply env log_index True None inner), inner)
      else
        let event = q_event req; rid = pre_alloc_id event (i_state inner); nid = pre_alloc_node_id event (i_state inner);
            eid = pre_alloc_edge_id event (i_state inner);
            (ns_err, resolved, reg) = resolve_request event (i_namespace_registry inner);
            (r, st) = (case ns_err of Some e \<Rightarrow> (Ok (Some e), i_state inner)
                       | None \<Rightarrow> request_step event (q_namespace_id req) resolved (i_state inner));
            inner = inner\<lparr>i_namespace_registry := reg, i_state := st\<rparr>; replaying = in_replay log_index inner;
            inner = (if replaying then inner else inner\<lparr>i_replay_until := None\<rparr>) in
        case r of
          Ok rejected \<Rightarrow>
            (let (r, inner) = (if rejected = None then accept_request env log_index replaying req rid inner else (Ok (), inner));
                 (ns, reg) = settle_registry event (rejected \<noteq> None) resolved (i_namespace_registry inner) in
             case r of
               Ok _ \<Rightarrow>
                 (let inner = inner\<lparr>i_namespace_registry := reg\<rparr> in
                  (Ok ((reply env log_index False rejected inner)\<lparr>a_record_id := (if rejected = None then rid else None),
                         a_node_id := (if rejected = None then nid else None), a_edge_id := (if rejected = None then eid else None),
                         a_namespace_id := ns\<rparr>), inner))
             | Err e \<Rightarrow> (Err e, inner) | Panic \<Rightarrow> (Panic, inner) | Diverges \<Rightarrow> (Diverges, inner))
        | Err e \<Rightarrow> (Err e, inner) | Panic \<Rightarrow> (Panic, inner) | Diverges \<Rightarrow> (Diverges, inner))"

definition apply_entry :: "'s raft_env \<Rightarrow> 'm Entry \<Rightarrow> ('m, 's) StateMachineInner
    \<Rightarrow> (StorageError, ClientResponse) res \<times> ('m, 's) StateMachineInner" where
  "apply_entry env entry inner =
     (let inner = inner\<lparr>i_last_applied := Some (en_log_id entry)\<rparr>; log_index = l_index (en_log_id entry) in
      case en_payload entry of
        Blank \<Rightarrow> (Ok (reply env log_index False None inner), inner)
      | Membership m \<Rightarrow>
          (let inner = inner\<lparr>i_membership := (Some (en_log_id entry), m)\<rparr> in (Ok (reply env log_index False None inner), inner))
      | Normal req \<Rightarrow> apply_request env log_index req inner)"

fun apply_loop :: "'s raft_env \<Rightarrow> 'm Entry list \<Rightarrow> ('m, 's) StateMachineInner
    \<Rightarrow> (StorageError, ClientResponse list) res \<times> ('m, 's) StateMachineInner" where
  "apply_loop env [] inner = (Ok [], inner)"
| "apply_loop env (entry # entries) inner =
     (case apply_entry env entry inner of
        (Ok r, inner) \<Rightarrow> (case apply_loop env entries inner of (rs, inner) \<Rightarrow> (res_bind rs (\<lambda>rs. Ok (r # rs)), inner))
      | (Err e, inner) \<Rightarrow> (Err e, inner) | (Panic, inner) \<Rightarrow> (Panic, inner) | (Diverges, inner) \<Rightarrow> (Diverges, inner))"

definition sm_apply :: "'s raft_env \<Rightarrow> 'm Entry list \<Rightarrow> ('m, 's) StateMachineInner
    \<Rightarrow> (StorageError, ClientResponse list) res \<times> ('m, 's) StateMachineInner" where
  "sm_apply env entries inner =
     (case apply_loop env entries inner of (Ok rs, inner) \<Rightarrow> (Ok rs, persist_applied inner) | (r, inner) \<Rightarrow> (r, inner))"

section \<open>Snapshots and restarts\<close>

text \<open>Collecting pairs into a hash map.\<close>

definition of_pairs :: "('k \<times> 'v) list \<Rightarrow> ('k \<times> 'v) list" where
  "of_pairs ps = fold (\<lambda>(k, v). AList.update k v) ps []"

definition payload_of :: "'s raft_env \<Rightarrow> ('m, 's) StateMachineInner \<Rightarrow> SnapshotPayload" where
  "payload_of env inner =
     \<lparr>p_kernel = encode_state (i_state inner), p_dedup = i_dedup_order inner, p_state_hash = sm_state_hash env inner,
      p_created_at = i_created_at inner, p_text_corpus = i_text_corpus inner,
      p_namespace_registry = (cr_map (i_namespace_registry inner), cr_next_id (i_namespace_registry inner))\<rparr>"

definition build_snapshot :: "'s raft_env \<Rightarrow> ('m, 's) StateMachineInner
    \<Rightarrow> ('m SnapshotMeta \<times> bytes) \<times> ('m, 's) StateMachineInner" where
  "build_snapshot env inner =
     (let payload = payload_of env inner; bs = enc_payload (v_bincode env) payload;
          meta = \<lparr>m_last_log_id = i_last_applied inner, m_last_membership = i_membership inner,
                  m_snapshot_id = dec_digits (case i_last_applied inner of None \<Rightarrow> 0 | Some l \<Rightarrow> unat (l_index l)) @ ''-'' @
                    take 16 (hex (p_state_hash payload))\<rparr> in
      ((meta, bs), persist_snapshot (inner\<lparr>i_current_snapshot := Some (meta, bs)\<rparr>)))"

text \<open>The checks on a payload, shared by \<open>install_snapshot\<close> and \<open>with_db\<close>.\<close>

definition open_payload :: "'s raft_env \<Rightarrow> bytes \<Rightarrow> (StorageError, SnapshotPayload \<times> KernelState) res" where
  "open_payload env bs =
     res_bind (case dec_payload (v_bincode env) bs of Some (payload, _) \<Rightarrow> Ok payload | None \<Rightarrow> Err PayloadDecode) (\<lambda>payload.
     res_bind (map_err KernelDecode (decode_state (p_kernel payload))) (\<lambda>st.
     let actual = hash_state_blake3 (v_hash env) st in
     if actual \<noteq> p_state_hash payload then Err (StateHashMismatch (p_state_hash payload) actual) else Ok (payload, st)))"

definition load_payload :: "SnapshotPayload \<Rightarrow> KernelState \<Rightarrow> ('m, 's) StateMachineInner \<Rightarrow> ('m, 's) StateMachineInner" where
  "load_payload payload st inner =
     inner\<lparr>i_state := st, i_dedup_set := set (p_dedup payload), i_dedup_order := p_dedup payload,
           i_created_at := of_pairs (p_created_at payload), i_text_corpus := of_pairs (p_text_corpus payload),
           i_namespace_registry := \<lparr>cr_map = of_pairs (fst (p_namespace_registry payload)),
                                    cr_next_id = snd (p_namespace_registry payload)\<rparr>\<rparr>"

definition install_snapshot :: "'s raft_env \<Rightarrow> 'm SnapshotMeta \<Rightarrow> bytes \<Rightarrow> ('m, 's) StateMachineInner
    \<Rightarrow> (StorageError, unit) res \<times> ('m, 's) StateMachineInner" where
  "install_snapshot env meta bs inner =
     (case open_payload env bs of
        Ok (payload, st) \<Rightarrow>
          (Ok (), persist_snapshot ((load_payload payload st inner)\<lparr>i_last_applied := m_last_log_id meta,
             i_membership := m_last_membership meta, i_current_snapshot := Some (meta, bs)\<rparr>))
      | Err e \<Rightarrow> (Err e, inner) | Panic \<Rightarrow> (Panic, inner) | Diverges \<Rightarrow> (Diverges, inner))"

definition with_db :: "'s raft_env \<Rightarrow> 's \<Rightarrow> 'm SmDb \<Rightarrow> nat \<Rightarrow> 'm \<Rightarrow> (StorageError, ('m, 's) StateMachineInner) res" where
  "with_db env audit db dim m0 =
     (let fresh = (sm_new audit dim m0)\<lparr>i_db := Some db, i_replay_until := map_option l_index (db_last_applied db),
                   i_membership := (case db_membership db of Some m \<Rightarrow> m | None \<Rightarrow> (None, m0))\<rparr> in
      case db_snapshot db of
        None \<Rightarrow> Ok fresh
      | Some (meta, bs) \<Rightarrow>
          res_bind (open_payload env bs) (\<lambda>(payload, st).
          Ok ((load_payload payload st fresh)\<lparr>i_current_snapshot := Some (meta, bs), i_last_applied := m_last_log_id meta\<rparr>)))"

section \<open>Reads\<close>

definition locked_dim :: "('m, 's) StateMachineInner \<Rightarrow> nat option" where
  "locked_dim inner = ks_dim (i_state inner)"

definition record_created_at :: "u32 \<Rightarrow> ('m, 's) StateMachineInner \<Rightarrow> u64 option" where
  "record_created_at i inner = map_of (i_created_at inner) i"

definition resolve_namespace :: "rust_string option \<Rightarrow> ('m, 's) StateMachineInner \<Rightarrow> u16 option" where
  "resolve_namespace name inner = registry_resolve name (i_namespace_registry inner)"

definition list_namespaces :: "('m, 's) StateMachineInner \<Rightarrow> (rust_string \<times> u16) list" where
  "list_namespaces inner = registry_list (i_namespace_registry inner)"

definition applied_state :: "('m, 's) StateMachineInner \<Rightarrow> LogId option \<times> 'm StoredMembership" where
  "applied_state inner = (i_last_applied inner, i_membership inner)"

definition get_current_snapshot :: "('m, 's) StateMachineInner \<Rightarrow> ('m SnapshotMeta \<times> bytes) option" where
  "get_current_snapshot inner = i_current_snapshot inner"

section \<open>Audit sinks\<close>

definition null_record :: "KernelEvent \<Rightarrow> bytes option \<Rightarrow> unit \<Rightarrow> (EventLogError, unit) res \<times> unit" where
  "null_record event request_id sink = (Ok (), ())"

type_synonym memory_sink = "(string \<times> bytes option) list"

definition memory_record :: "KernelEvent \<Rightarrow> bytes option \<Rightarrow> memory_sink \<Rightarrow> (EventLogError, unit) res \<times> memory_sink" where
  "memory_record event request_id sink = (Ok (), sink @ [(event_type event, request_id)])"

text \<open>\<open>valori-node/src/commit/audit.rs\<close>: the sink that appends to the event log, with the segments it has sealed. The clock
  is read for the append, for the checkpoint and for its entry.\<close>

record EventLogAuditSink =
  s_writer :: EventLogWriter
  s_rotation_bytes :: "u64 option"
  s_sealed :: "bytes list"

definition audit_new :: "EventLogWriter \<Rightarrow> EventLogAuditSink" where
  "audit_new writer = \<lparr>s_writer = writer, s_rotation_bytes = Some DEFAULT_LOG_ROTATION_BYTES, s_sealed = []\<rparr>"

definition audit_with_rotation_bytes :: "u64 option \<Rightarrow> EventLogAuditSink \<Rightarrow> EventLogAuditSink" where
  "audit_with_rotation_bytes rotation_bytes sink = sink\<lparr>s_rotation_bytes := rotation_bytes\<rparr>"

definition audit_rotate :: "wire_codec \<Rightarrow> (nat \<Rightarrow> u64) \<Rightarrow> EventLogAuditSink \<Rightarrow> EventLogAuditSink" where
  "audit_rotate c now sink =
     (case s_rotation_bytes sink of
        None \<Rightarrow> sink
      | Some limit \<Rightarrow>
          if unat (w_bytes_written (s_writer sink)) < unat limit then sink
          else case rotate c (now 2) (Some (Checkpoint (w_event_count (s_writer sink)) (w_chain_head (s_writer sink)) (now 1)))
                 (s_writer sink) of
              (Ok sealed, w) \<Rightarrow> sink\<lparr>s_writer := w, s_sealed := s_sealed sink @ [sealed]\<rparr>
            | (_, w) \<Rightarrow> sink\<lparr>s_writer := w\<rparr>)"

definition audit_record :: "wire_codec \<Rightarrow> (nat \<Rightarrow> u64) \<Rightarrow> KernelEvent \<Rightarrow> bytes option \<Rightarrow> EventLogAuditSink
    \<Rightarrow> (EventLogError, unit) res \<times> EventLogAuditSink" where
  "audit_record c now event request_id sink =
     (case append_with_request_id c (now 0) (Event event) request_id (s_writer sink) of
        (Ok _, w) \<Rightarrow> (Ok (), audit_rotate c now (sink\<lparr>s_writer := w\<rparr>))
      | (r, w) \<Rightarrow> (r, sink\<lparr>s_writer := w\<rparr>))"

end
