(* ===== verification/Raft_Props.thy ===== *)
theory Raft_Props
  imports Raft_State
begin

text \<open>
  The replicated part of a state machine is a function of the applied entries: sinks, clocks, replay and batches do not matter.
  The window of remembered request ids, and what the audit sink receives.
\<close>

section \<open>Replicas\<close>

text \<open>The parts on which all replicas must agree; the membership is treated on its own.\<close>

definition replica_eq :: "('m, 's) StateMachineInner \<Rightarrow> ('m, 't) StateMachineInner \<Rightarrow> bool" where
  "replica_eq a b \<longleftrightarrow> i_state a = i_state b \<and> i_last_applied a = i_last_applied b \<and>
     i_dedup_set a = i_dedup_set b \<and> i_dedup_order a = i_dedup_order b \<and> i_text_corpus a = i_text_corpus b \<and>
     i_namespace_registry a = i_namespace_registry b"

lemma replica_eq_refl [simp]: "replica_eq a a"
  by (simp add: replica_eq_def)

lemma replica_eq_sym: "replica_eq a b \<Longrightarrow> replica_eq b a"
  by (simp add: replica_eq_def)

lemma replica_eq_trans: "replica_eq a b \<Longrightarrow> replica_eq b c \<Longrightarrow> replica_eq a c"
  by (simp add: replica_eq_def)

lemma replica_eq_local [simp]:
  "replica_eq (a\<lparr>i_replay_until := t\<rparr>) b = replica_eq a b" "replica_eq a (b\<lparr>i_replay_until := t\<rparr>) = replica_eq a b"
  "replica_eq (a\<lparr>i_audit := x\<rparr>) b = replica_eq a b" "replica_eq a (b\<lparr>i_audit := y\<rparr>) = replica_eq a b"
  "replica_eq (a\<lparr>i_db := d\<rparr>) b = replica_eq a b" "replica_eq a (b\<lparr>i_db := e\<rparr>) = replica_eq a b"
  by (simp_all add: replica_eq_def)

lemma persist_applied_eq [simp]: "replica_eq (persist_applied a) b = replica_eq a b" "replica_eq a (persist_applied b) = replica_eq a b"
  by (simp_all add: persist_applied_def)

lemma reply_cong:
  "replica_eq a b \<Longrightarrow> v_hash env = v_hash env' \<Longrightarrow> reply env idx d rej a = reply env' idx d rej b"
  by (simp add: reply_def sm_state_hash_def replica_eq_def)

lemma remember_cong: "replica_eq a b \<Longrightarrow> replica_eq (remember_request i a) (remember_request i b)"
  by (auto simp: replica_eq_def remember_request_def Let_def split: prod.splits)

lemma stamp_cong: "replica_eq a b \<Longrightarrow> replica_eq (stamp_record env idx ev rid a) (stamp_record env' idx ev rid b)"
  by (auto simp: replica_eq_def stamp_record_def split: option.splits KernelEvent.splits)

lemma accept_cong:
  assumes "replica_eq a b" "accept_request env idx rp req rid a = (Ok x, a')" "accept_request env' idx rp' req rid b = (Ok y, b')"
  shows "replica_eq a' b'"
proof -
  let ?f = "\<lambda>inner. case q_request_id req of Some i \<Rightarrow> remember_request i inner | None \<Rightarrow> inner"
  have "replica_eq (?f a) (?f b)" using assms(1) by (simp add: remember_cong split: option.splits)
  moreover obtain u where "a' = stamp_record env idx (q_event req) rid ((?f a)\<lparr>i_audit := u\<rparr>)"
    using assms(2) by (auto simp: accept_request_def Let_def split: prod.splits res.splits if_splits)
  moreover obtain w where "b' = stamp_record env' idx (q_event req) rid ((?f b)\<lparr>i_audit := w\<rparr>)"
    using assms(3) by (auto simp: accept_request_def Let_def split: prod.splits res.splits if_splits)
  ultimately show ?thesis by (simp add: stamp_cong)
qed

text \<open>The state before the audit, the outcome of the kernel, and what remains: the parts of \<open>apply_request\<close>.\<close>

definition skips :: "ClientRequest \<Rightarrow> ('m, 's) StateMachineInner \<Rightarrow> bool" where
  "skips req inner \<longleftrightarrow> unat (q_schema_version req) > unat CURRENT_SCHEMA_VERSION \<or>
     (case q_request_id req of Some i \<Rightarrow> i \<in> i_dedup_set inner | None \<Rightarrow> False)"

definition tried :: "ClientRequest \<Rightarrow> ('m, 's) StateMachineInner \<Rightarrow> (StorageError, Rejection option) res \<times> KernelState" where
  "tried req inner =
     (case resolve_request (q_event req) (i_namespace_registry inner) of
        (ns_err, resolved, reg) \<Rightarrow> (case ns_err of Some e \<Rightarrow> (Ok (Some e), i_state inner)
          | None \<Rightarrow> request_step (q_event req) (q_namespace_id req) resolved (i_state inner)))"

definition tried_state :: "u64 \<Rightarrow> ClientRequest \<Rightarrow> ('m, 's) StateMachineInner \<Rightarrow> ('m, 's) StateMachineInner" where
  "tried_state idx req inner =
     inner\<lparr>i_namespace_registry := snd (snd (resolve_request (q_event req) (i_namespace_registry inner))),
           i_state := snd (tried req inner), i_replay_until := (if in_replay idx inner then i_replay_until inner else None)\<rparr>"

definition settled :: "ClientRequest \<Rightarrow> bool \<Rightarrow> ('m, 's) StateMachineInner \<Rightarrow> CollectionRegistry \<Rightarrow> u16 option \<times> CollectionRegistry" where
  "settled req rejected inner reg = settle_registry (q_event req) rejected (fst (snd (resolve_request (q_event req) (i_namespace_registry inner)))) reg"

definition answered :: "'s raft_env \<Rightarrow> u64 \<Rightarrow> ClientRequest \<Rightarrow> Rejection option \<Rightarrow> KernelState \<Rightarrow> u16 option \<Rightarrow> ('m, 's) StateMachineInner \<Rightarrow> ClientResponse" where
  "answered env idx req rejected st ns inner =
     (reply env idx False rejected inner)\<lparr>a_record_id := (if rejected = None then pre_alloc_id (q_event req) st else None),
        a_node_id := (if rejected = None then pre_alloc_node_id (q_event req) st else None),
        a_edge_id := (if rejected = None then pre_alloc_edge_id (q_event req) st else None), a_namespace_id := ns\<rparr>"

lemma in_replay_upd [simp]: "in_replay idx (a\<lparr>i_namespace_registry := r, i_state := s\<rparr>) = in_replay idx a"
  by (simp add: in_replay_def)

lemma apply_request_skips:
  assumes "skips req inner"
  shows "apply_request env idx req inner = (Ok (reply env idx (unat (q_schema_version req) \<le> unat CURRENT_SCHEMA_VERSION)
    (if unat (q_schema_version req) > unat CURRENT_SCHEMA_VERSION then Some (SchemaTooNew (q_schema_version req)) else None) inner), inner)"
  using assms by (auto simp: apply_request_def skips_def)

lemma apply_request_runs:
  assumes "\<not> skips req inner"
  shows "apply_request env idx req inner =
    (let inner1 = tried_state idx req inner in
     case fst (tried req inner) of
       Ok rejected \<Rightarrow>
         (let (r, inner2) = (if rejected = None then accept_request env idx (in_replay idx inner) req (pre_alloc_id (q_event req) (i_state inner)) inner1
                             else (Ok (), inner1));
              (ns, reg) = settled req (rejected \<noteq> None) inner (i_namespace_registry inner2) in
          case r of
            Ok _ \<Rightarrow> (let inner3 = inner2\<lparr>i_namespace_registry := reg\<rparr> in (Ok (answered env idx req rejected (i_state inner) ns inner3), inner3))
          | Err e \<Rightarrow> (Err e, inner2) | Panic \<Rightarrow> (Panic, inner2) | Diverges \<Rightarrow> (Diverges, inner2))
     | Err e \<Rightarrow> (Err e, inner1) | Panic \<Rightarrow> (Panic, inner1) | Diverges \<Rightarrow> (Diverges, inner1))"
proof -
  obtain ns_err resolved reg where res: "resolve_request (q_event req) (i_namespace_registry inner) = (ns_err, resolved, reg)"
    by (metis prod_cases3)
  obtain r st where tr: "(case ns_err of Some e \<Rightarrow> (Ok (Some e), i_state inner)
      | None \<Rightarrow> request_step (q_event req) (q_namespace_id req) resolved (i_state inner)) = (r, st)" by fastforce
  have t: "tried req inner = (r, st)" using tr by (simp add: tried_def res)
  have s: "tried_state idx req inner = (if in_replay idx inner then inner\<lparr>i_namespace_registry := reg, i_state := st\<rparr>
      else inner\<lparr>i_namespace_registry := reg, i_state := st, i_replay_until := None\<rparr>)"
    by (simp add: tried_state_def res t)
  have run: "\<not> unat (q_schema_version req) > unat CURRENT_SCHEMA_VERSION"
      "\<not> (case q_request_id req of Some i \<Rightarrow> i \<in> i_dedup_set inner | None \<Rightarrow> False)"
    using assms by (simp_all add: skips_def)
  show ?thesis
    unfolding apply_request_def if_not_P [OF run(1)] if_not_P [OF run(2)] Let_def res t s settled_def answered_def
    by (simp only: prod.case tr fst_conv snd_conv in_replay_upd)
qed

lemma apply_request_OkE:
  assumes "\<not> skips req a" "apply_request env idx req a = (Ok r, a')"
  obtains rej a2 ns reg where "fst (tried req a) = Ok rej"
    "if rej = None then accept_request env idx (in_replay idx a) req (pre_alloc_id (q_event req) (i_state a)) (tried_state idx req a) = (Ok (), a2)
     else a2 = tried_state idx req a"
    "settled req (rej \<noteq> None) a (i_namespace_registry a2) = (ns, reg)" "a' = a2\<lparr>i_namespace_registry := reg\<rparr>"
    "r = answered env idx req rej (i_state a) ns a'"
proof -
  obtain rej where rej: "fst (tried req a) = Ok rej"
    using assms apply_request_runs [OF assms(1), of env idx] by (cases "fst (tried req a)") (auto simp: Let_def)
  obtain q a2 where q: "(if rej = None then accept_request env idx (in_replay idx a) req (pre_alloc_id (q_event req) (i_state a)) (tried_state idx req a)
      else (Ok (), tried_state idx req a)) = (q, a2)" by fastforce
  obtain ns reg where set: "settled req (rej \<noteq> None) a (i_namespace_registry a2) = (ns, reg)" by fastforce
  have run: "apply_request env idx req a = (case q of
        Ok _ \<Rightarrow> (Ok (answered env idx req rej (i_state a) ns (a2\<lparr>i_namespace_registry := reg\<rparr>)), a2\<lparr>i_namespace_registry := reg\<rparr>)
      | Err e \<Rightarrow> (Err e, a2) | Panic \<Rightarrow> (Panic, a2) | Diverges \<Rightarrow> (Diverges, a2))"
    unfolding apply_request_runs [OF assms(1)] rej Let_def by (simp only: res.case q prod.case set)
  then have "q = Ok ()" "r = answered env idx req rej (i_state a) ns a'" "a' = a2\<lparr>i_namespace_registry := reg\<rparr>"
    using assms(2) by (auto split: res.splits)
  then show thesis using that [OF rej _ set, of] q by (auto split: if_splits)
qed

lemma skips_cong: "replica_eq a b \<Longrightarrow> skips req a = skips req b"
  by (simp add: skips_def replica_eq_def split: option.splits)

lemma tried_cong: "replica_eq a b \<Longrightarrow> tried req a = tried req b"
  by (simp add: tried_def replica_eq_def split: prod.splits option.splits)

lemma tried_state_cong: "replica_eq a b \<Longrightarrow> replica_eq (tried_state idx req a) (tried_state idx req b)"
  using tried_cong [of a b req] by (simp add: tried_state_def replica_eq_def)

lemma apply_request_cong:
  assumes eq: "replica_eq a b" and hash: "v_hash env = v_hash env'"
    and a: "apply_request env idx req a = (Ok r, a')" and b: "apply_request env' idx req b = (Ok r', b')"
  shows "r = r' \<and> replica_eq a' b'"
proof (cases "skips req a")
  case True
  then show ?thesis
    using a b apply_request_skips [OF True] apply_request_skips [of req b env' idx] skips_cong [OF eq] reply_cong [OF eq hash] eq by auto
next
  case False
  then have "\<not> skips req b" using skips_cong [OF eq] by blast
  note same = tried_cong [OF eq, of req] tried_state_cong [OF eq, of idx req]
  have st: "i_state a = i_state b" "i_namespace_registry a = i_namespace_registry b" using eq by (simp_all add: replica_eq_def)
  from False a obtain rej a2 ns reg where A: "fst (tried req a) = Ok rej"
      "if rej = None then accept_request env idx (in_replay idx a) req (pre_alloc_id (q_event req) (i_state a)) (tried_state idx req a) = (Ok (), a2)
       else a2 = tried_state idx req a"
      "settled req (rej \<noteq> None) a (i_namespace_registry a2) = (ns, reg)" "a' = a2\<lparr>i_namespace_registry := reg\<rparr>"
      "r = answered env idx req rej (i_state a) ns a'" by (rule apply_request_OkE)
  from \<open>\<not> skips req b\<close> b obtain rej' b2 ns' reg' where B: "fst (tried req b) = Ok rej'"
      "if rej' = None then accept_request env' idx (in_replay idx b) req (pre_alloc_id (q_event req) (i_state b)) (tried_state idx req b) = (Ok (), b2)
       else b2 = tried_state idx req b"
      "settled req (rej' \<noteq> None) b (i_namespace_registry b2) = (ns', reg')" "b' = b2\<lparr>i_namespace_registry := reg'\<rparr>"
      "r' = answered env' idx req rej' (i_state b) ns' b'" by (rule apply_request_OkE)
  have rej: "rej' = rej" using A(1) B(1) same(1) by simp
  have "replica_eq a2 b2"
    using A(2) B(2) accept_cong [OF same(2), of env idx "in_replay idx a" req "pre_alloc_id (q_event req) (i_state b)" "()" a2 env'] same(2) st(1)
    by (cases rej) (auto simp: rej)
  moreover from this have "(ns', reg') = (ns, reg)"
    using A(3) B(3) st by (simp add: rej settled_def replica_eq_def)
  ultimately have "replica_eq a' b'" "ns' = ns" using A(4) B(4) by (simp_all add: replica_eq_def)
  then show ?thesis using A(5) B(5) reply_cong [OF _ hash, of a' b'] st(1) by (simp add: rej answered_def)
qed

lemma apply_entry_cong:
  assumes eq: "replica_eq a b" and hash: "v_hash env = v_hash env'"
    and a: "apply_entry env e a = (Ok r, a')" and b: "apply_entry env' e b = (Ok r', b')"
  shows "r = r' \<and> replica_eq a' b'"
proof -
  let ?f = "\<lambda>x. x\<lparr>i_last_applied := Some (en_log_id e)\<rparr>"
  have eq': "replica_eq (?f a) (b\<lparr>i_last_applied := Some (en_log_id e)\<rparr>)"
    "replica_eq (a\<lparr>i_last_applied := Some (en_log_id e), i_membership := m\<rparr>) (b\<lparr>i_last_applied := Some (en_log_id e), i_membership := m\<rparr>)" for m
    using eq by (simp_all add: replica_eq_def)
  show ?thesis
  proof (cases "en_payload e")
    case (Normal req)
    then show ?thesis using apply_request_cong [OF eq'(1) hash] a b by (simp add: apply_entry_def Let_def)
  qed (use a b eq' reply_cong [OF eq'(1) hash] reply_cong [OF eq'(2) hash] in \<open>auto simp: apply_entry_def Let_def\<close>)
qed

lemma apply_loop_append:
  "apply_loop env (xs @ ys) a =
     (case apply_loop env xs a of
        (Ok rs, a') \<Rightarrow> (case apply_loop env ys a' of (r, a'') \<Rightarrow> (res_bind r (\<lambda>rs'. Ok (rs @ rs')), a''))
      | (r, a') \<Rightarrow> (r, a'))"
proof (induction xs arbitrary: a)
  case Nil
  show ?case by (cases "apply_loop env ys a"; cases "fst (apply_loop env ys a)") auto
next
  case (Cons x xs)
  obtain r a1 where x: "apply_entry env x a = (r, a1)" by fastforce
  obtain rs a2 where xs: "apply_loop env xs a1 = (rs, a2)" by fastforce
  obtain rs' a3 where ys: "apply_loop env ys a2 = (rs', a3)" by fastforce
  show ?case using Cons [of a1] by (cases r; cases rs; cases rs') (simp_all add: x xs ys)
qed

lemma apply_loop_ConsE:
  assumes "apply_loop env (e # es) a = (Ok rs, a')"
  obtains r a1 rs1 where "apply_entry env e a = (Ok r, a1)" "apply_loop env es a1 = (Ok rs1, a')" "rs = r # rs1"
  using assms by (auto split: res.splits prod.splits)

lemma apply_loop_cong:
  assumes "v_hash env = v_hash env'"
  shows "replica_eq a b \<Longrightarrow> apply_loop env es a = (Ok rs, a') \<Longrightarrow> apply_loop env' es b = (Ok rs', b') \<Longrightarrow> rs = rs' \<and> replica_eq a' b'"
proof (induction es arbitrary: a b rs rs')
  case (Cons e es)
  obtain r a1 rs1 where A: "apply_entry env e a = (Ok r, a1)" "apply_loop env es a1 = (Ok rs1, a')" "rs = r # rs1"
    using Cons.prems(2) by (rule apply_loop_ConsE)
  obtain r' b1 rs1' where B: "apply_entry env' e b = (Ok r', b1)" "apply_loop env' es b1 = (Ok rs1', b')" "rs' = r' # rs1'"
    using Cons.prems(3) by (rule apply_loop_ConsE)
  show ?case using apply_entry_cong [OF Cons.prems(1) assms A(1) B(1)] Cons.IH [OF _ A(2) B(2)] A(3) B(3) by simp
qed simp

section \<open>Remembered requests\<close>

definition dedup_ok :: "('m, 's) StateMachineInner \<Rightarrow> bool" where
  "dedup_ok a \<longleftrightarrow> distinct (i_dedup_order a) \<and> set (i_dedup_order a) = i_dedup_set a \<and> length (i_dedup_order a) \<le> MAX_DEDUP_ENTRIES"

lemma evict_one:
  assumes "length order \<le> Suc MAX_DEDUP_ENTRIES"
  shows "evict S order = (if length order \<le> MAX_DEDUP_ENTRIES then (S, order) else (S - {hd order}, tl order))"
proof (cases order)
  case (Cons x xs)
  moreover have "evict (S - {x}) xs = (S - {x}, xs)" if "length xs \<le> MAX_DEDUP_ENTRIES" using that by (cases xs) auto
  ultimately show ?thesis using assms by auto
qed simp

lemma remember_order:
  assumes "dedup_ok a" "i \<notin> i_dedup_set a"
  shows "i_dedup_order (remember_request i a) =
      (if length (i_dedup_order a) < MAX_DEDUP_ENTRIES then i_dedup_order a @ [i] else tl (i_dedup_order a @ [i]))"
    "i_dedup_set (remember_request i a) = set (i_dedup_order (remember_request i a))"
proof -
  let ?o = "i_dedup_order a @ [i]"
  have o: "distinct ?o" "set ?o = insert i (i_dedup_set a)" "length ?o \<le> Suc MAX_DEDUP_ENTRIES"
    using assms by (auto simp: dedup_ok_def)
  have "insert i (i_dedup_set a) - {hd ?o} = set (tl ?o)" using o(1,2) by (cases ?o) auto
  then show "i_dedup_order (remember_request i a) = (if length (i_dedup_order a) < MAX_DEDUP_ENTRIES then ?o else tl ?o)"
    "i_dedup_set (remember_request i a) = set (i_dedup_order (remember_request i a))"
    using assms(2) evict_one [OF o(3), of "insert i (i_dedup_set a)"] o(2) by (auto simp: remember_request_def)
qed

lemma remember_ok: "dedup_ok a \<Longrightarrow> dedup_ok (remember_request i a)"
proof (cases "i \<in> i_dedup_set a")
  case False
  assume ok: "dedup_ok a"
  have "distinct (i_dedup_order a @ [i])" using ok False by (auto simp: dedup_ok_def)
  then show ?thesis using remember_order [OF ok False] ok by (auto simp: dedup_ok_def distinct_tl)
qed (simp add: remember_request_def)

text \<open>An id that at most \<open>n\<close> others have followed.\<close>

definition recent :: "bytes \<Rightarrow> nat \<Rightarrow> ('m, 's) StateMachineInner \<Rightarrow> bool" where
  "recent i n a \<longleftrightarrow> (\<exists>pre post. i_dedup_order a = pre @ i # post \<and> length post \<le> n)"

lemma recent_mem: "dedup_ok a \<Longrightarrow> recent i n a \<Longrightarrow> i \<in> i_dedup_set a"
  by (auto simp: dedup_ok_def recent_def)

lemma recent_mono: "recent i n a \<Longrightarrow> recent i (Suc n) a"
  by (auto simp: recent_def intro: le_SucI)

lemma remember_recent:
  assumes ok: "dedup_ok a" and rec: "recent i n a" and n: "Suc n < MAX_DEDUP_ENTRIES"
  shows "recent i (Suc n) (remember_request j a)"
proof (cases "j \<in> i_dedup_set a")
  case False
  obtain pre post where o: "i_dedup_order a = pre @ i # post" "length post \<le> n" using rec by (auto simp: recent_def)
  show ?thesis
  proof (cases "length (i_dedup_order a) < MAX_DEDUP_ENTRIES")
    case True
    then have "i_dedup_order (remember_request j a) = pre @ i # (post @ [j])"
      using remember_order(1) [OF ok False] o(1) by simp
    then show ?thesis using o(2) unfolding recent_def by (intro exI [of _ pre] exI [of _ "post @ [j]"]) simp
  next
    case full: False
    then have "pre \<noteq> []" using o n by auto
    then have "i_dedup_order (remember_request j a) = tl pre @ i # (post @ [j])"
      using remember_order(1) [OF ok False] full o(1) by simp
    then show ?thesis using o(2) unfolding recent_def by (intro exI [of _ "tl pre"] exI [of _ "post @ [j]"]) simp
  qed
qed (use recent_mono [OF rec] in \<open>simp add: remember_request_def\<close>)

lemma remember_self:
  assumes "dedup_ok a" "i \<notin> i_dedup_set a"
  shows "recent i 0 (remember_request i a)"
proof -
  have "i_dedup_order a \<noteq> []" if "\<not> length (i_dedup_order a) < MAX_DEDUP_ENTRIES" using that by (auto simp: MAX_DEDUP_ENTRIES_def)
  then show ?thesis
    using remember_order(1) [OF assms] by (auto simp: recent_def)
qed

text \<open>Two state machines with the same memory.\<close>

definition same_dedup :: "('m, 's) StateMachineInner \<Rightarrow> ('m, 't) StateMachineInner \<Rightarrow> bool" where
  "same_dedup a b \<longleftrightarrow> i_dedup_set a = i_dedup_set b \<and> i_dedup_order a = i_dedup_order b"

lemma same_dedup_simps:
  "same_dedup a b \<Longrightarrow> dedup_ok a = dedup_ok b" "same_dedup a b \<Longrightarrow> recent i n a = recent i n b"
  by (simp_all add: same_dedup_def dedup_ok_def recent_def)

lemma stamp_fields [simp]:
  "i_dedup_set (stamp_record env idx ev rid a) = i_dedup_set a" "i_dedup_order (stamp_record env idx ev rid a) = i_dedup_order a"
  "i_audit (stamp_record env idx ev rid a) = i_audit a" "i_replay_until (stamp_record env idx ev rid a) = i_replay_until a"
  "i_state (stamp_record env idx ev rid a) = i_state a" "i_db (stamp_record env idx ev rid a) = i_db a"
  "i_namespace_registry (stamp_record env idx ev rid a) = i_namespace_registry a"
  by (simp_all add: stamp_record_def split: option.splits)

lemma remember_fields [simp]:
  "i_audit (remember_request i a) = i_audit a" "i_replay_until (remember_request i a) = i_replay_until a"
  "i_state (remember_request i a) = i_state a" "i_db (remember_request i a) = i_db a"
  "i_namespace_registry (remember_request i a) = i_namespace_registry a"
  by (simp_all add: remember_request_def Let_def split: prod.splits)

lemma tried_state_fields [simp]:
  "i_dedup_set (tried_state idx req a) = i_dedup_set a" "i_dedup_order (tried_state idx req a) = i_dedup_order a"
  "i_audit (tried_state idx req a) = i_audit a" "i_state (tried_state idx req a) = snd (tried req a)" "i_db (tried_state idx req a) = i_db a"
  "i_replay_until (tried_state idx req a) = (if in_replay idx a then i_replay_until a else None)"
  by (simp_all add: tried_state_def)

lemma remember_same: "same_dedup a b \<Longrightarrow> same_dedup (remember_request i a) (remember_request i b)"
  by (auto simp: same_dedup_def remember_request_def Let_def split: prod.splits)

lemma accept_OkE:
  assumes "accept_request env idx rp req rid a = (Ok x, a')"
  obtains audit where "a' = stamp_record env idx (q_event req) rid
      ((case q_request_id req of Some i \<Rightarrow> remember_request i a | None \<Rightarrow> a)\<lparr>i_audit := audit\<rparr>)"
    "if rp then audit = i_audit a else v_record env (q_event req) (q_request_id req) (i_audit a) = (Ok (), audit)"
proof -
  have "i_audit (case q_request_id req of Some i \<Rightarrow> remember_request i a | None \<Rightarrow> a) = i_audit a" by (simp split: option.splits)
  then show thesis using assms that by (auto simp: accept_request_def Let_def split: prod.splits res.splits if_splits)
qed

section \<open>What an entry does to memory, sink and replay\<close>

text \<open>The request of an entry that was applied, by its reply.\<close>

definition accepted :: "'m Entry \<Rightarrow> ClientResponse \<Rightarrow> ClientRequest option" where
  "accepted e r = (case en_payload e of Normal req \<Rightarrow> if \<not> a_deduplicated r \<and> a_rejected r = None then Some req else None | _ \<Rightarrow> None)"

abbreviation remembered :: "ClientRequest \<Rightarrow> ('m, 's) StateMachineInner \<Rightarrow> ('m, 's) StateMachineInner" where
  "remembered req a \<equiv> case q_request_id req of Some i \<Rightarrow> remember_request i a | None \<Rightarrow> a"

lemma remembered_same: "same_dedup a b \<Longrightarrow> same_dedup (remembered req a) (remembered req b)"
  by (simp add: remember_same split: option.splits)

lemma answered_fields [simp]: "a_deduplicated (answered env idx req rej st ns a) = False" "a_rejected (answered env idx req rej st ns a) = rej"
  by (simp_all add: answered_def reply_def)

definition request_effect :: "'s raft_env \<Rightarrow> u64 \<Rightarrow> ClientRequest \<Rightarrow> ClientResponse \<Rightarrow> ('m, 's) StateMachineInner \<Rightarrow> ('m, 's) StateMachineInner \<Rightarrow> bool" where
  "request_effect env idx req r a a' \<longleftrightarrow>
     (if a_deduplicated r \<or> a_rejected r \<noteq> None then same_dedup a' a \<and> i_audit a' = i_audit a
      else \<not> skips req a \<and> same_dedup a' (remembered req a) \<and>
        (if in_replay idx a then i_audit a' = i_audit a else v_record env (q_event req) (q_request_id req) (i_audit a) = (Ok (), i_audit a')))"

definition replay_step :: "u64 \<Rightarrow> ('m, 's) StateMachineInner \<Rightarrow> ('m, 's) StateMachineInner \<Rightarrow> bool" where
  "replay_step idx a a' \<longleftrightarrow> i_replay_until a' = i_replay_until a \<or> \<not> in_replay idx a \<and> i_replay_until a' = None"

lemma apply_request_effect:
  assumes run: "apply_request env idx req a = (Ok r, a')"
  shows "request_effect env idx req r a a' \<and> replay_step idx a a' \<and> i_db a' = i_db a"
proof (cases "skips req a")
  case True
  then show ?thesis
    using run apply_request_skips [OF True, of env idx] by (auto simp: reply_def same_dedup_def request_effect_def replay_step_def)
next
  case False
  then obtain rej a2 ns reg where A: "fst (tried req a) = Ok rej"
    "if rej = None then accept_request env idx (in_replay idx a) req (pre_alloc_id (q_event req) (i_state a)) (tried_state idx req a) = (Ok (), a2)
     else a2 = tried_state idx req a"
    "settled req (rej \<noteq> None) a (i_namespace_registry a2) = (ns, reg)" "a' = a2\<lparr>i_namespace_registry := reg\<rparr>"
    "r = answered env idx req rej (i_state a) ns a'" using run by (rule apply_request_OkE)
  show ?thesis
  proof (cases "rej = None")
    case True
    with A(2) have "accept_request env idx (in_replay idx a) req (pre_alloc_id (q_event req) (i_state a)) (tried_state idx req a) = (Ok (), a2)" by simp
    then obtain audit where "a2 = stamp_record env idx (q_event req) (pre_alloc_id (q_event req) (i_state a))
        ((remembered req (tried_state idx req a))\<lparr>i_audit := audit\<rparr>)"
      "if in_replay idx a then audit = i_audit (tried_state idx req a)
       else v_record env (q_event req) (q_request_id req) (i_audit (tried_state idx req a)) = (Ok (), audit)"
      by (rule accept_OkE)
    moreover have "same_dedup (remembered req (tried_state idx req a)) (remembered req a)"
      by (rule remembered_same) (simp add: same_dedup_def)
    moreover have "i_replay_until (remembered req (tried_state idx req a)) = i_replay_until (tried_state idx req a)"
      "i_db (remembered req (tried_state idx req a)) = i_db a"
      by (simp_all split: option.splits)
    ultimately show ?thesis using True False A(4,5) by (auto simp: same_dedup_def request_effect_def replay_step_def)
  qed (use A in \<open>auto simp: same_dedup_def request_effect_def replay_step_def\<close>)
qed

text \<open>A second replica that replays the entry, or that has the same sink and does not replay it either, returns as well.\<close>

definition follows :: "u64 \<Rightarrow> ('m, 's) StateMachineInner \<Rightarrow> ('m, 's) StateMachineInner \<Rightarrow> bool" where
  "follows idx a b \<longleftrightarrow> replica_eq a b \<and> (in_replay idx b \<or> \<not> in_replay idx a \<and> \<not> in_replay idx b \<and> i_audit a = i_audit b)"

lemma accept_follows:
  assumes fol: "follows idx a b" and env: "v_record env = v_record env'"
    and run: "accept_request env idx (in_replay idx a) req rid a1 = (Ok x, a')"
    and sinks: "i_audit a1 = i_audit a" "i_audit b1 = i_audit b"
  shows "\<exists>b'. accept_request env' idx (in_replay idx b) req rid b1 = (Ok (), b')"
proof -
  have same: "i_audit (remembered req a1) = i_audit a" "i_audit (remembered req b1) = i_audit b"
    using sinks by (simp_all split: option.splits)
  show ?thesis
  proof (cases "in_replay idx b")
    case True
    then show ?thesis by (simp add: accept_request_def Let_def)
  next
    case False
    moreover obtain audit where "v_record env (q_event req) (q_request_id req) (i_audit a) = (Ok (), audit)"
      using accept_OkE [OF run] fol False sinks(1) by (auto simp: follows_def)
    ultimately show ?thesis using fol env same by (simp add: accept_request_def Let_def follows_def)
  qed
qed

lemma apply_request_follows:
  assumes fol: "follows idx a b" and env: "v_hash env = v_hash env'" "v_record env = v_record env'"
    and run: "apply_request env idx req a = (Ok r, a')"
  shows "\<exists>b'. apply_request env' idx req b = (Ok r, b')"
proof -
  have eq: "replica_eq a b" using fol by (simp add: follows_def)
  have "\<exists>r' b'. apply_request env' idx req b = (Ok r', b')"
  proof (cases "skips req a")
    case True
    then show ?thesis using apply_request_skips [of req b] skips_cong [OF eq] by blast
  next
    case False
    then have skips: "\<not> skips req b" using skips_cong [OF eq] by blast
    from False run obtain rej a2 ns reg where A: "fst (tried req a) = Ok rej"
      "if rej = None then accept_request env idx (in_replay idx a) req (pre_alloc_id (q_event req) (i_state a)) (tried_state idx req a) = (Ok (), a2)
       else a2 = tried_state idx req a"
      "settled req (rej \<noteq> None) a (i_namespace_registry a2) = (ns, reg)" "a' = a2\<lparr>i_namespace_registry := reg\<rparr>"
      "r = answered env idx req rej (i_state a) ns a'" by (rule apply_request_OkE)
    have "\<exists>b2. (if rej = None then accept_request env' idx (in_replay idx b) req (pre_alloc_id (q_event req) (i_state b)) (tried_state idx req b)
        else (Ok (), tried_state idx req b)) = (Ok (), b2)"
      using A(2) accept_follows [OF fol env(2), of req "pre_alloc_id (q_event req) (i_state a)" "tried_state idx req a" "()" a2 "tried_state idx req b"] eq
      by (cases rej) (auto simp: replica_eq_def)
    then obtain b2 where b2: "(if rej = None then accept_request env' idx (in_replay idx b) req (pre_alloc_id (q_event req) (i_state b)) (tried_state idx req b)
        else (Ok (), tried_state idx req b)) = (Ok (), b2)" by blast
    have "fst (tried req b) = Ok rej" using A(1) tried_cong [OF eq, of req] by simp
    then show ?thesis
      unfolding apply_request_runs [OF skips] Let_def by (simp only: res.case b2 prod.case split: prod.splits) blast
  qed
  then show ?thesis using apply_request_cong [OF eq env(1) run] by blast
qed

abbreviation idx_of :: "'m Entry \<Rightarrow> u64" where
  "idx_of e \<equiv> l_index (en_log_id e)"

lemma in_replay_last [simp]: "in_replay idx (a\<lparr>i_last_applied := l\<rparr>) = in_replay idx a" "in_replay idx (a\<lparr>i_membership := m\<rparr>) = in_replay idx a"
  by (simp_all add: in_replay_def)

lemma apply_entry_Normal:
  "en_payload e = Normal req \<Longrightarrow> apply_entry env e a = apply_request env (idx_of e) req (a\<lparr>i_last_applied := Some (en_log_id e)\<rparr>)"
  by (simp add: apply_entry_def Let_def)

lemma apply_entry_other:
  assumes "\<And>req. en_payload e \<noteq> Normal req"
  obtains m where "\<And>env a. apply_entry env e a = (Ok (reply env (idx_of e) False None (a\<lparr>i_last_applied := Some (en_log_id e), i_membership := m (i_membership a)\<rparr>)),
    a\<lparr>i_last_applied := Some (en_log_id e), i_membership := m (i_membership a)\<rparr>)"
proof (cases "en_payload e")
  case Blank
  then show thesis using that [of id] by (simp add: apply_entry_def Let_def)
next
  case (Membership m)
  then show thesis using that [of "\<lambda>_. (Some (en_log_id e), m)"] by (simp add: apply_entry_def Let_def)
qed (use assms in blast)

lemma skips_last [simp]: "skips req (a\<lparr>i_last_applied := l\<rparr>) = skips req a"
  by (simp add: skips_def split: option.splits)

text \<open>One entry: the memory, the sink, and that nothing else of the environment changes.\<close>

definition entry_effect :: "'s raft_env \<Rightarrow> 'm Entry \<Rightarrow> ClientResponse \<Rightarrow> ('m, 's) StateMachineInner \<Rightarrow> ('m, 's) StateMachineInner \<Rightarrow> bool" where
  "entry_effect env e r a a' \<longleftrightarrow>
     (case accepted e r of
        None \<Rightarrow> same_dedup a' a \<and> i_audit a' = i_audit a
      | Some req \<Rightarrow> \<not> skips req a \<and> same_dedup a' (remembered req a) \<and>
          (if in_replay (idx_of e) a then i_audit a' = i_audit a
           else v_record env (q_event req) (q_request_id req) (i_audit a) = (Ok (), i_audit a')))"

lemma apply_entry_effect:
  assumes run: "apply_entry env e a = (Ok r, a')"
  shows "entry_effect env e r a a' \<and> replay_step (idx_of e) a a' \<and> i_db a' = i_db a"
proof (cases "\<exists>req. en_payload e = Normal req")
  case True
  then obtain req where req: "en_payload e = Normal req" by blast
  let ?a = "a\<lparr>i_last_applied := Some (en_log_id e)\<rparr>"
  have same: "same_dedup (remembered req ?a) (remembered req a)" by (rule remembered_same) (simp add: same_dedup_def)
  have "apply_request env (idx_of e) req ?a = (Ok r, a')" using run req by (simp add: apply_entry_Normal)
  from apply_request_effect [OF this] same show ?thesis
    using req by (auto simp: request_effect_def entry_effect_def accepted_def same_dedup_def replay_step_def split: if_splits)
next
  case False
  then obtain m where "apply_entry env e a = (Ok (reply env (idx_of e) False None (a\<lparr>i_last_applied := Some (en_log_id e), i_membership := m (i_membership a)\<rparr>)),
      a\<lparr>i_last_applied := Some (en_log_id e), i_membership := m (i_membership a)\<rparr>)" using apply_entry_other [of e] by metis
  then show ?thesis
    using run False by (auto simp: entry_effect_def accepted_def same_dedup_def replay_step_def split: EntryPayload.splits)
qed

lemma apply_entry_follows:
  assumes fol: "follows (idx_of e) a b" and env: "v_hash env = v_hash env'" "v_record env = v_record env'"
    and run: "apply_entry env e a = (Ok r, a')"
  shows "\<exists>b'. apply_entry env' e b = (Ok r, b') \<and> replica_eq a' b' \<and> replay_step (idx_of e) b b' \<and>
    i_audit b' = (if in_replay (idx_of e) b then i_audit b else i_audit a')"
proof -
  have eq: "replica_eq a b" using fol by (simp add: follows_def)
  have "\<exists>r' b'. apply_entry env' e b = (Ok r', b')"
  proof (cases "\<exists>req. en_payload e = Normal req")
    case True
    then obtain req where req: "en_payload e = Normal req" by blast
    have "follows (idx_of e) (a\<lparr>i_last_applied := Some (en_log_id e)\<rparr>) (b\<lparr>i_last_applied := Some (en_log_id e)\<rparr>)"
      using fol by (simp add: follows_def replica_eq_def)
    then show ?thesis using apply_request_follows [OF _ env] run by (metis apply_entry_Normal [OF req])
  next
    case False
    then show ?thesis using apply_entry_other [of e] by metis
  qed
  then obtain b' where b': "apply_entry env' e b = (Ok r, b')" and eq': "replica_eq a' b'"
    using apply_entry_cong [OF eq env(1) run] by blast
  note A = apply_entry_effect [OF run] and B = apply_entry_effect [OF b']
  have "i_audit b' = (if in_replay (idx_of e) b then i_audit b else i_audit a')"
    using A B fol env(2) by (auto simp: follows_def entry_effect_def split: option.splits if_splits)
  then show ?thesis using b' eq' B by blast
qed

section \<open>Runs\<close>

text \<open>The membership after a sequence of entries.\<close>

fun membership_after :: "'m Entry list \<Rightarrow> 'm StoredMembership \<Rightarrow> 'm StoredMembership" where
  "membership_after [] m = m"
| "membership_after (e # es) m =
     membership_after es (case en_payload e of Membership m' \<Rightarrow> (Some (en_log_id e), m') | _ \<Rightarrow> m)"

lemma membership_after_twice: "membership_after es (membership_after es m) = membership_after es m"
proof -
  have "membership_after es m = m \<or> (\<forall>m'. membership_after es m' = membership_after es m)" for m
    by (induction es arbitrary: m) (auto split: EntryPayload.splits)
  then show ?thesis by metis
qed

lemma request_membership: "apply_request env idx req a = (Ok r, a') \<Longrightarrow> i_membership a' = i_membership a \<and> i_last_applied a' = i_last_applied a"
proof (cases "skips req a")
  case True
  then show "apply_request env idx req a = (Ok r, a') \<Longrightarrow> ?thesis" using apply_request_skips [OF True, of env idx] by simp
next
  case False
  have keep: "i_membership (remembered req b) = i_membership b" "i_last_applied (remembered req b) = i_last_applied b"
    "i_membership (stamp_record env idx ev rid b) = i_membership b" "i_last_applied (stamp_record env idx ev rid b) = i_last_applied b"
    "i_membership (tried_state idx req b) = i_membership b" "i_last_applied (tried_state idx req b) = i_last_applied b" for b :: "('a, 'b) StateMachineInner" and ev rid
    by (auto simp: remember_request_def stamp_record_def tried_state_def Let_def split: option.splits prod.splits)
  assume "apply_request env idx req a = (Ok r, a')"
  with False show ?thesis
    by (rule apply_request_OkE) (auto simp: keep split: if_splits elim!: accept_OkE)
qed

lemma apply_entry_last:
  assumes "apply_entry env e a = (Ok r, a')"
  shows "i_last_applied a' = Some (en_log_id e)"
    "i_membership a' = (case en_payload e of Membership m' \<Rightarrow> (Some (en_log_id e), m') | _ \<Rightarrow> i_membership a)"
  using assms request_membership [of env "idx_of e" _ "a\<lparr>i_last_applied := Some (en_log_id e)\<rparr>" r a']
  by (auto simp: apply_entry_def Let_def split: EntryPayload.splits)

lemma apply_loop_last:
  "apply_loop env es a = (Ok rs, a') \<Longrightarrow> i_membership a' = membership_after es (i_membership a) \<and> i_db a' = i_db a \<and>
     i_last_applied a' = (if es = [] then i_last_applied a else Some (en_log_id (last es)))"
proof (induction es arbitrary: a rs)
  case (Cons e es)
  obtain r a1 rs1 where A: "apply_entry env e a = (Ok r, a1)" "apply_loop env es a1 = (Ok rs1, a')"
    using Cons.prems by (rule apply_loop_ConsE)
  show ?case using Cons.IH [OF A(2)] apply_entry_last [OF A(1)] apply_entry_effect [OF A(1)] by auto
qed simp

lemma in_replay_cong: "i_replay_until b = i_replay_until a \<Longrightarrow> in_replay idx b = in_replay idx a"
  by (simp add: in_replay_def)

lemma loop_replay_none: "apply_loop env es a = (Ok rs, a') \<Longrightarrow> i_replay_until a = None \<Longrightarrow> i_replay_until a' = None"
proof (induction es arbitrary: a rs)
  case (Cons e es)
  obtain r a1 rs1 where A: "apply_entry env e a = (Ok r, a1)" "apply_loop env es a1 = (Ok rs1, a')"
    using Cons.prems(1) by (rule apply_loop_ConsE)
  show ?case using Cons.IH [OF A(2)] apply_entry_effect [OF A(1)] Cons.prems(2) by (auto simp: replay_step_def)
qed simp

text \<open>Replaying entries that another replica has applied, and applying new ones beside it.\<close>

lemma loop_replays:
  assumes env: "v_hash env = v_hash env'" "v_record env = v_record env'"
  shows "replica_eq a b \<Longrightarrow> i_replay_until b = Some t \<Longrightarrow> \<forall>e \<in> set es. idx_of e \<le> t \<Longrightarrow> apply_loop env es a = (Ok rs, a') \<Longrightarrow>
    \<exists>b'. apply_loop env' es b = (Ok rs, b') \<and> replica_eq a' b' \<and> i_audit b' = i_audit b \<and> i_replay_until b' = Some t"
proof (induction es arbitrary: a b rs)
  case (Cons e es)
  obtain r a1 rs1 where A: "apply_entry env e a = (Ok r, a1)" "apply_loop env es a1 = (Ok rs1, a')" "rs = r # rs1"
    using Cons.prems(4) by (rule apply_loop_ConsE)
  have rp: "in_replay (idx_of e) b" using Cons.prems(2,3) by (simp add: in_replay_def)
  then have "follows (idx_of e) a b" using Cons.prems(1) by (simp add: follows_def)
  from apply_entry_follows [OF this env A(1)] rp
  obtain b1 where B: "apply_entry env' e b = (Ok r, b1)" "replica_eq a1 b1" "i_audit b1 = i_audit b" "i_replay_until b1 = Some t"
    using Cons.prems(2) by (auto simp: replay_step_def)
  from Cons.IH [OF B(2,4) _ A(2)] Cons.prems(3) B(1,3) A(3) show ?case by auto
qed simp

lemma loop_lives:
  assumes env: "v_hash env = v_hash env'" "v_record env = v_record env'"
  shows "replica_eq a b \<Longrightarrow> i_audit a = i_audit b \<Longrightarrow> \<forall>e \<in> set es. \<not> in_replay (idx_of e) a \<and> \<not> in_replay (idx_of e) b \<Longrightarrow>
    apply_loop env es a = (Ok rs, a') \<Longrightarrow> \<exists>b'. apply_loop env' es b = (Ok rs, b') \<and> replica_eq a' b' \<and> i_audit b' = i_audit a'"
proof (induction es arbitrary: a b rs)
  case (Cons e es)
  obtain r a1 rs1 where A: "apply_entry env e a = (Ok r, a1)" "apply_loop env es a1 = (Ok rs1, a')" "rs = r # rs1"
    using Cons.prems(4) by (rule apply_loop_ConsE)
  have "follows (idx_of e) a b" using Cons.prems(1-3) by (simp add: follows_def)
  from apply_entry_follows [OF this env A(1)] Cons.prems(3)
  obtain b1 where B: "apply_entry env' e b = (Ok r, b1)" "replica_eq a1 b1" "i_audit b1 = i_audit a1" "replay_step (idx_of e) b b1" by auto
  have "\<forall>e \<in> set es. \<not> in_replay (idx_of e) a1 \<and> \<not> in_replay (idx_of e) b1"
    using Cons.prems(3) B(4) apply_entry_effect [OF A(1)] by (auto simp: replay_step_def in_replay_def)
  from Cons.IH [OF B(2) B(3) [symmetric] this A(2)] B(1) A(3) show ?case by auto
qed simp

end
