(* ===== verification/Raft_Theorems.thy ===== *)
theory Raft_Theorems
  imports Raft_Props Kernel_Theorems Snapshot_Theorems Log_Theorems
begin

text \<open>
  What the replicated state machine guarantees to a cluster: agreement of replicas, duplicates, restarts, snapshots, the
  audit log; and where these guarantees end.
\<close>

section \<open>Well-formed state machines\<close>

definition sm_ok :: "('m, 's) StateMachineInner \<Rightarrow> bool" where
  "sm_ok a \<longleftrightarrow> kernel_inv (i_state a) \<and> registry_ok (i_namespace_registry a) \<and> dedup_ok a \<and>
     distinct (map fst (i_created_at a)) \<and> distinct (map fst (i_text_corpus a))"

text \<open>The entries whose events find room and a version to count to, as they are reached.\<close>

fun safe_entries :: "'s raft_env \<Rightarrow> 'm Entry list \<Rightarrow> ('m, 's) StateMachineInner \<Rightarrow> bool" where
  "safe_entries env [] a \<longleftrightarrow> True"
| "safe_entries env (e # es) a \<longleftrightarrow>
     (case en_payload e of Normal req \<Rightarrow> event_safe (q_event req) (i_state a) \<and> version_ok (i_state a) | _ \<Rightarrow> True) \<and>
     safe_entries env es (snd (apply_entry env e a))"

definition sink_accepts :: "'s raft_env \<Rightarrow> bool" where
  "sink_accepts env \<longleftrightarrow> (\<forall>ev rid s. fst (v_record env ev rid s) = Ok ())"

lemma kernel_step_good:
  assumes "kernel_inv st" "event_safe ev st" "version_ok st"
  shows "\<exists>rej st'. kernel_step ev ns st = (Ok rej, st') \<and> kernel_inv st'"
  using apply_event_ns_good [OF assms, of ns]
  by (cases "apply_event_ns ev ns st") (auto simp: kernel_step_def good_def returns_def split: res.splits)

lemma tried_good:
  assumes "kernel_inv (i_state a)" "event_safe (q_event req) (i_state a)" "version_ok (i_state a)"
  shows "\<exists>rej st'. tried req a = (Ok rej, st') \<and> kernel_inv st'"
  using kernel_step_good [OF assms] assms(1)
  by (cases "q_event req") (auto simp: tried_def split: option.splits prod.splits)

lemma resolve_registry_ok: "registry_ok reg \<Longrightarrow> registry_ok (snd (snd (resolve_request ev reg)))"
  by (cases ev) (auto split: prod.splits option.splits dest: registry_create_ok)

lemma settle_registry_ok: "registry_ok reg \<Longrightarrow> registry_ok (snd (settle_registry ev rej res reg))"
  by (cases ev) (auto simp: registry_drop_ok)

lemma distinct_update: "distinct (map fst al) \<Longrightarrow> distinct (map fst (AList.update k v al))"
  by (rule AList.distinct_update)

lemma sm_ok_parts:
  assumes "sm_ok a"
  shows "sm_ok (a\<lparr>i_last_applied := l\<rparr>)" "sm_ok (a\<lparr>i_membership := m\<rparr>)" "sm_ok (a\<lparr>i_audit := s\<rparr>)" "sm_ok (a\<lparr>i_replay_until := t\<rparr>)"
    "sm_ok (a\<lparr>i_db := d\<rparr>)" "registry_ok reg \<Longrightarrow> sm_ok (a\<lparr>i_namespace_registry := reg\<rparr>)" "kernel_inv st \<Longrightarrow> sm_ok (a\<lparr>i_state := st\<rparr>)"
  using assms by (simp_all add: sm_ok_def dedup_ok_def)

lemma remember_sm_ok: "sm_ok a \<Longrightarrow> sm_ok (remember_request i a)"
  using remember_ok [of a i] by (auto simp: sm_ok_def remember_request_def Let_def split: prod.splits)

lemma stamp_sm_ok: "sm_ok a \<Longrightarrow> sm_ok (stamp_record env idx ev rid a)"
  by (auto simp: sm_ok_def dedup_ok_def stamp_record_def AList.distinct_update split: option.splits KernelEvent.splits)

lemma accept_sm_ok:
  assumes "sm_ok a" "sink_accepts env"
  shows "\<exists>a'. accept_request env idx rp req rid a = (Ok (), a') \<and> sm_ok a'"
proof -
  have "fst (v_record env ev r s) = Ok ()" for ev r s using assms(2) by (simp add: sink_accepts_def)
  moreover have "sm_ok (remembered req a)" using assms(1) by (simp add: remember_sm_ok split: option.splits)
  ultimately show ?thesis by (simp add: accept_request_def Let_def split_beta sm_ok_parts stamp_sm_ok)
qed

lemma accept_returns:
  assumes "fst (v_record env (q_event req) (q_request_id req) (i_audit a)) = Ok ()"
  shows "\<exists>a'. accept_request env idx rp req rid a = (Ok (), a')"
proof -
  have "i_audit (remembered req a) = i_audit a" by (simp split: option.splits)
  then show ?thesis using assms by (simp add: accept_request_def Let_def split_beta)
qed

lemma tried_state_ok: "sm_ok a \<Longrightarrow> kernel_inv (snd (tried req a)) \<Longrightarrow> sm_ok (tried_state idx req a)"
  unfolding tried_state_def by (intro sm_ok_parts resolve_registry_ok) (simp_all add: sm_ok_def)

lemma apply_request_ok:
  assumes ok: "sm_ok a" and sink: "sink_accepts env" and safe: "event_safe (q_event req) (i_state a)" "version_ok (i_state a)"
  shows "\<exists>r a'. apply_request env idx req a = (Ok r, a') \<and> sm_ok a'"
proof (cases "skips req a")
  case True
  then show ?thesis using apply_request_skips [OF True] ok by blast
next
  case False
  obtain rej st' where t: "tried req a = (Ok rej, st')" "kernel_inv st'"
    using tried_good [of a req] ok safe by (auto simp: sm_ok_def)
  then have ok1: "sm_ok (tried_state idx req a)" by (intro tried_state_ok ok) simp
  have "\<exists>a2. (if rej = None then accept_request env idx (in_replay idx a) req (pre_alloc_id (q_event req) (i_state a)) (tried_state idx req a)
      else (Ok (), tried_state idx req a)) = (Ok (), a2) \<and> sm_ok a2"
    using accept_sm_ok [OF ok1 sink] ok1 by simp
  then obtain a2 where a2: "(if rej = None then accept_request env idx (in_replay idx a) req (pre_alloc_id (q_event req) (i_state a)) (tried_state idx req a)
      else (Ok (), tried_state idx req a)) = (Ok (), a2)" "sm_ok a2" by blast
  obtain ns reg where s: "settled req (rej \<noteq> None) a (i_namespace_registry a2) = (ns, reg)" by fastforce
  have "registry_ok reg"
    using settle_registry_ok [of "i_namespace_registry a2" "q_event req" "rej \<noteq> None"] s a2(2) by (metis settled_def sm_ok_def snd_conv)
  then show ?thesis
    unfolding apply_request_runs [OF False] t Let_def by (simp only: fst_conv res.case a2(1) prod.case s) (auto intro: sm_ok_parts a2)
qed

lemma apply_entry_ok:
  assumes ok: "sm_ok a" and sink: "sink_accepts env" and safe: "safe_entries env (e # es) a"
  shows "\<exists>r a'. apply_entry env e a = (Ok r, a') \<and> sm_ok a'"
proof (cases "en_payload e")
  case (Normal req)
  then show ?thesis
    using apply_request_ok [OF sm_ok_parts(1) [OF ok] sink, of req "Some (en_log_id e)" "idx_of e"] safe by (simp add: apply_entry_Normal)
qed (use ok in \<open>simp_all add: apply_entry_def Let_def sm_ok_parts\<close>)

lemma apply_loop_ok:
  "sm_ok a \<Longrightarrow> sink_accepts env \<Longrightarrow> safe_entries env es a \<Longrightarrow> \<exists>rs a'. apply_loop env es a = (Ok rs, a') \<and> length rs = length es \<and> sm_ok a'"
proof (induction es arbitrary: a)
  case (Cons e es)
  obtain r a1 where a1: "apply_entry env e a = (Ok r, a1)" "sm_ok a1"
    using apply_entry_ok [OF Cons.prems] by blast
  then show ?case using Cons.IH [OF a1(2) Cons.prems(2)] Cons.prems(3) by fastforce
qed simp


lemma sm_new_ok: "sm_ok (sm_new s dim m0)"
  using reachable_inv [OF reachable.start [of dim]] by (simp add: sm_ok_def sm_new_def registry_new_ok dedup_ok_def)

text \<open>A cluster of one node with a sink in memory, its hash a checksum of the length.\<close>

definition demo_env :: "memory_sink raft_env" where
  "demo_env = \<lparr>v_hash = (\<lambda>bs. replicate 32 (of_nat (length bs))), v_record = memory_record, v_clock = id, v_bincode = le_bincode\<rparr>"

definition request :: "bytes option \<Rightarrow> u16 \<Rightarrow> KernelEvent \<Rightarrow> ClientRequest" where
  "request rid ns ev = \<lparr>q_event = ev, q_request_id = rid, q_schema_version = 0, q_namespace_id = ns\<rparr>"

abbreviation log_at :: "u64 \<Rightarrow> LogId" where
  "log_at i \<equiv> \<lparr>l_leader = (1, 1), l_index = i\<rparr>"

definition entry_at :: "u64 \<Rightarrow> 'm EntryPayload \<Rightarrow> 'm Entry" where
  "entry_at i p = \<lparr>en_log_id = log_at i, en_payload = p\<rparr>"

definition first_request :: ClientRequest where
  "first_request = request (Some (replicate 16 1)) 0 first_insert"

definition new_node :: "(unit, memory_sink) StateMachineInner" where
  "new_node = sm_new [] 0 ()"

lemma new_node_ok: "sm_ok new_node"
  by (simp add: new_node_def sm_new_ok)

lemma demo_env_sink [simp]: "sink_accepts demo_env"
  by (simp add: sink_accepts_def demo_env_def memory_record_def)


section \<open>Agreement\<close>

fun apply_batches :: "'s raft_env \<Rightarrow> 'm Entry list list \<Rightarrow> ('m, 's) StateMachineInner
    \<Rightarrow> (StorageError, ClientResponse list) res \<times> ('m, 's) StateMachineInner" where
  "apply_batches env [] a = (Ok [], a)"
| "apply_batches env (es # ess) a =
     (case sm_apply env es a of
        (Ok rs, a) \<Rightarrow> (case apply_batches env ess a of (r, a) \<Rightarrow> (res_bind r (\<lambda>rs'. Ok (rs @ rs')), a))
      | (r, a) \<Rightarrow> (r, a))"

lemma persist_applied_fields [simp]:
  "i_membership (persist_applied a) = i_membership a" "i_audit (persist_applied a) = i_audit a"
  "i_replay_until (persist_applied a) = i_replay_until a" "i_last_applied (persist_applied a) = i_last_applied a"
  by (simp_all add: persist_applied_def)

text \<open>Applying entries neither reads nor changes the database.\<close>

definition at_db :: "'m SmDb option \<Rightarrow> ('m, 's) StateMachineInner \<Rightarrow> ('m, 's) StateMachineInner" where
  "at_db d a = a\<lparr>i_db := d\<rparr>"

lemma at_db_fields [simp]:
  "i_state (at_db d a) = i_state a" "i_last_applied (at_db d a) = i_last_applied a" "i_membership (at_db d a) = i_membership a"
  "i_dedup_set (at_db d a) = i_dedup_set a" "i_dedup_order (at_db d a) = i_dedup_order a" "i_audit (at_db d a) = i_audit a"
  "i_created_at (at_db d a) = i_created_at a" "i_text_corpus (at_db d a) = i_text_corpus a" "i_replay_until (at_db d a) = i_replay_until a"
  "i_namespace_registry (at_db d a) = i_namespace_registry a" "replica_eq (at_db d a) b = replica_eq a b"
  "in_replay idx (at_db d a) = in_replay idx a" "reply env idx dd rej (at_db d a) = reply env idx dd rej a" "skips req (at_db d a) = skips req a"
  "tried req (at_db d a) = tried req a"
  by (simp_all add: at_db_def in_replay_def reply_def sm_state_hash_def skips_def tried_def split: option.splits prod.splits)

lemma at_db_commutes:
  "tried_state idx req (at_db d a) = at_db d (tried_state idx req a)" "remember_request i (at_db d a) = at_db d (remember_request i a)"
  "stamp_record env idx ev rid (at_db d a) = at_db d (stamp_record env idx ev rid a)"
  "(at_db d a)\<lparr>i_audit := s\<rparr> = at_db d (a\<lparr>i_audit := s\<rparr>)" "(at_db d a)\<lparr>i_namespace_registry := r\<rparr> = at_db d (a\<lparr>i_namespace_registry := r\<rparr>)"
  "(at_db d a)\<lparr>i_last_applied := l\<rparr> = at_db d (a\<lparr>i_last_applied := l\<rparr>)" "(at_db d a)\<lparr>i_membership := m\<rparr> = at_db d (a\<lparr>i_membership := m\<rparr>)"
  by (simp_all add: at_db_def tried_state_def remember_request_def stamp_record_def in_replay_def tried_def skips_def
      split: option.splits prod.splits KernelEvent.splits)

lemma accept_db: "accept_request env idx rp req rid (at_db d a) = map_prod id (at_db d) (accept_request env idx rp req rid a)"
  by (cases "q_request_id req") (simp_all add: accept_request_def Let_def at_db_commutes split: prod.splits res.splits)

lemma apply_request_db: "apply_request env idx req (at_db d a) = map_prod id (at_db d) (apply_request env idx req a)"
proof (cases "skips req a")
  case True
  then show ?thesis using apply_request_skips [of req a env idx] apply_request_skips [of req "at_db d a" env idx] by simp
next
  case False
  then have "\<not> skips req (at_db d a)" by simp
  then show ?thesis
    unfolding apply_request_runs [OF False] apply_request_runs [OF \<open>\<not> skips req (at_db d a)\<close>]
    by (auto simp: Let_def at_db_commutes accept_db settled_def answered_def split: prod.splits res.splits)
qed

lemma apply_entry_db: "apply_entry env e (at_db d a) = map_prod id (at_db d) (apply_entry env e a)"
  by (cases "en_payload e") (simp_all add: apply_entry_def Let_def at_db_commutes apply_request_db)

lemma apply_loop_db: "apply_loop env es (at_db d a) = map_prod id (at_db d) (apply_loop env es a)"
  by (induction es arbitrary: a) (auto simp: apply_entry_db split: prod.splits res.splits)

lemma sm_applyE:
  assumes "sm_apply env es a = (Ok rs, a')"
  obtains d a1 where "apply_loop env es a = (Ok rs, a1)" "a' = at_db d a1" "a' = persist_applied a1"
  using assms by (auto simp: sm_apply_def persist_applied_def at_db_def split: prod.splits res.splits)

lemma apply_batches_loop:
  "apply_batches env ess a = (Ok rs, a') \<Longrightarrow> \<exists>d b. apply_loop env (concat ess) a = (Ok rs, b) \<and> a' = at_db d b"
proof (induction ess arbitrary: a rs)
  case Nil
  then show ?case by (auto intro!: exI [of _ "i_db a"] simp: at_db_def)
next
  case (Cons es ess)
  obtain rs1 a1 rs2 where step: "sm_apply env es a = (Ok rs1, a1)" "apply_batches env ess a1 = (Ok rs2, a')" "rs = rs1 @ rs2"
    using Cons.prems by (auto split: prod.splits res.splits)
  obtain d a2 where a2: "apply_loop env es a = (Ok rs1, a2)" "a1 = at_db d a2" using step(1) by (rule sm_applyE)
  obtain d' b where b: "apply_loop env (concat ess) (at_db d a2) = (Ok rs2, b)" "a' = at_db d' b" using Cons.IH [OF step(2)] a2(2) by blast
  then obtain b' where "apply_loop env (concat ess) a2 = (Ok rs2, b')" "b = at_db d b'"
    by (cases "apply_loop env (concat ess) a2") (auto simp: apply_loop_db)
  then show ?case using b(2) a2(1) step(3) by (auto intro!: exI [of _ d'] simp: apply_loop_append at_db_def)
qed

lemma apply_batches_of_loop:
  "apply_loop env (concat ess) a = (Ok rs, b) \<Longrightarrow> \<exists>d. apply_batches env ess a = (Ok rs, at_db d b)"
proof (induction ess arbitrary: a rs b)
  case Nil
  then show ?case by (auto intro!: exI [of _ "i_db b"] simp: at_db_def)
next
  case (Cons es ess)
  obtain rs1 a1 rs2 where step: "apply_loop env es a = (Ok rs1, a1)" "apply_loop env (concat ess) a1 = (Ok rs2, b)" "rs = rs1 @ rs2"
    using Cons.prems by (auto simp: apply_loop_append split: prod.splits res.splits)
  obtain d where "sm_apply env es a = (Ok rs1, at_db d a1)" using step(1) by (simp add: sm_apply_def persist_applied_def at_db_def)
  moreover have "apply_loop env (concat ess) (at_db d a1) = (Ok rs2, at_db d b)" using step(2) by (simp add: apply_loop_db)
  ultimately show ?case using Cons.IH step(3) by (fastforce simp: at_db_def)
qed

text \<open>C13: Replicas agree. Two state machines that agree and then apply the same committed entries, whatever the batches in which
  each receives them, whatever its clock, its audit sink and the index up to which it replays, give the same replies (state hashes
  and allocated ids included) and agree afterwards: on the kernel state, the remembered requests, the registry of
  collections, the text corpus, the membership and the last applied entry.\<close>

theorem replicas_agree:
  assumes "replica_eq a b" "i_membership a = i_membership b" "v_hash env = v_hash env'" "concat ess = concat ess'"
    "apply_batches env ess a = (Ok rs, a')" "apply_batches env' ess' b = (Ok rs', b')"
  shows "rs = rs' \<and> replica_eq a' b' \<and> i_membership a' = i_membership b'"
proof -
  obtain d x where x: "apply_loop env (concat ess) a = (Ok rs, x)" "a' = at_db d x" using apply_batches_loop [OF assms(5)] by blast
  obtain d' y where y: "apply_loop env' (concat ess) b = (Ok rs', y)" "b' = at_db d' y" using apply_batches_loop [OF assms(6)] assms(4) by auto
  have "rs = rs' \<and> replica_eq x y" by (rule apply_loop_cong [OF assms(3,1) x(1) y(1)])
  moreover have "i_membership x = i_membership y" using apply_loop_last [OF x(1)] apply_loop_last [OF y(1)] assms(2) by simp
  ultimately show ?thesis using x(2) y(2) by (simp add: replica_eq_def)
qed

text \<open>Another node without an audit sink, with another clock, to which the same entries come one by one.\<close>

definition other_env :: "unit raft_env" where
  "other_env = \<lparr>v_hash = v_hash demo_env, v_record = null_record, v_clock = (\<lambda>i. i + 100), v_bincode = le_bincode\<rparr>"

definition other_node :: "(unit, unit) StateMachineInner" where
  "other_node = sm_new () 0 ()"

definition two_entries :: "unit Entry list" where
  "two_entries = [entry_at 1 (Membership ()), entry_at 2 (Normal first_request)]"

lemma two_entries_safe: "safe_entries env two_entries (sm_new s 0 ())"
  by (simp add: two_entries_def entry_at_def apply_entry_def Let_def sm_new_def first_request_def request_def first_insert_def
      kernel_with_dim_def kernel_new_def version_ok_def version_next_def)

lemma other_env_sink [simp]: "sink_accepts other_env"
  by (simp add: sink_accepts_def other_env_def null_record_def)

lemma two_entries_apply:
  assumes "sink_accepts env" "concat ess = two_entries"
  shows "\<exists>rs a'. apply_batches env ess (sm_new s 0 ()) = (Ok rs, a')"
  using apply_loop_ok [OF sm_new_ok assms(1) two_entries_safe] apply_batches_of_loop [of env ess] assms(2) by metis

theorem replicas_agree_witness:
  "\<exists>rs a' b'. apply_batches demo_env [two_entries] new_node = (Ok rs, a') \<and>
     apply_batches other_env (map (\<lambda>e. [e]) two_entries) other_node = (Ok rs, b') \<and> replica_eq a' b' \<and> i_membership a' = i_membership b'"
proof -
  obtain rs a' rs' b' where runs: "apply_batches demo_env [two_entries] new_node = (Ok rs, a')"
      "apply_batches other_env (map (\<lambda>e. [e]) two_entries) other_node = (Ok rs', b')"
    using two_entries_apply [of demo_env "[two_entries]" "[]"] two_entries_apply [of other_env "map (\<lambda>e. [e]) two_entries" "()"]
    by (auto simp: new_node_def other_node_def)
  have "replica_eq new_node other_node" "i_membership new_node = i_membership other_node" "v_hash demo_env = v_hash other_env"
    by (simp_all add: new_node_def other_node_def sm_new_def replica_eq_def other_env_def)
  from replicas_agree [OF this _ runs] runs show ?thesis by auto
qed

section \<open>Duplicates\<close>

lemma entry_recent:
  assumes "apply_entry env e a = (Ok r, a')" "dedup_ok a" "recent i n a" "Suc n < MAX_DEDUP_ENTRIES"
  shows "dedup_ok a' \<and> recent i (Suc n) a'"
proof -
  have "same_dedup a' a \<or> (\<exists>j. same_dedup a' (remember_request j a))"
    using apply_entry_effect [OF assms(1)] by (auto simp: entry_effect_def split: option.splits)
  then show ?thesis
    using assms(2-4) remember_ok [OF assms(2)] remember_recent [OF assms(2-4)] recent_mono [OF assms(3)]
    by (auto simp: same_dedup_simps)
qed

lemma loop_recent:
  "apply_loop env es a = (Ok rs, a') \<Longrightarrow> dedup_ok a \<Longrightarrow> recent i n a \<Longrightarrow> n + length es < MAX_DEDUP_ENTRIES \<Longrightarrow>
    dedup_ok a' \<and> recent i (n + length es) a'"
proof (induction es arbitrary: a n rs)
  case (Cons e es)
  obtain r a1 rs1 where A: "apply_entry env e a = (Ok r, a1)" "apply_loop env es a1 = (Ok rs1, a')"
    using Cons.prems(1) by (rule apply_loop_ConsE)
  show ?case using Cons.IH [OF A(2), of "Suc n"] entry_recent [OF A(1) Cons.prems(2,3)] Cons.prems(4) by simp
qed simp

text \<open>C14: A request is applied at most once. After a request with an id has been applied, and as long as fewer than
  \<open>MAX_DEDUP_ENTRIES\<close> entries follow, every later request with the same id is answered as a duplicate and changes neither the
  kernel nor the audit log.\<close>

theorem duplicates_answered:
  assumes ok: "dedup_ok a" and first: "apply_entry env e a = (Ok r, a1)" "en_payload e = Normal req" "q_request_id req = Some i"
      "\<not> a_deduplicated r" "a_rejected r = None"
    and between: "apply_loop env es a1 = (Ok rs, a2)" "length es < MAX_DEDUP_ENTRIES"
    and again: "en_payload e' = Normal req'" "q_request_id req' = Some i" "q_schema_version req' = CURRENT_SCHEMA_VERSION"
  shows "\<exists>r' a3. apply_entry env e' a2 = (Ok r', a3) \<and> a_deduplicated r' \<and> i_state a3 = i_state a2 \<and> i_audit a3 = i_audit a2"
proof -
  have "accepted e r = Some req" using first by (simp add: accepted_def)
  then have eff: "\<not> skips req a" "same_dedup a1 (remember_request i a)"
    using apply_entry_effect [OF first(1)] first(3) by (simp_all add: entry_effect_def)
  then have "i \<notin> i_dedup_set a" using first(3) by (simp add: skips_def)
  then have "dedup_ok a1" "recent i 0 a1" using remember_ok [OF ok] remember_self [OF ok] eff(2) by (simp_all add: same_dedup_simps)
  from loop_recent [OF between(1) this] between(2) have "i \<in> i_dedup_set a2" using recent_mem by auto
  then have "skips req' (a2\<lparr>i_last_applied := Some (en_log_id e')\<rparr>)" using again(2) by (simp add: skips_def)
  from apply_request_skips [OF this] again show ?thesis by (simp add: apply_entry_Normal reply_def)
qed

lemma entry_accepted:
  assumes "en_payload e = Normal req" "\<not> skips req a" "tried req a = (Ok None, st)"
    "fst (v_record env (q_event req) (q_request_id req) (i_audit a)) = Ok ()"
  shows "\<exists>r a'. apply_entry env e a = (Ok r, a') \<and> \<not> a_deduplicated r \<and> a_rejected r = None \<and> i_state a' = st \<and>
    i_namespace_registry a' = snd (settled req False a (snd (snd (resolve_request (q_event req) (i_namespace_registry a)))))"
proof -
  let ?a = "a\<lparr>i_last_applied := Some (en_log_id e)\<rparr>"
  have new: "\<not> skips req ?a" and t: "tried req ?a = (Ok None, st)"
    using assms(2,3) by (simp_all add: tried_def split: prod.splits option.splits)
  have audit: "fst (v_record env (q_event req) (q_request_id req) (i_audit (tried_state (idx_of e) req ?a))) = Ok ()" using assms(4) by simp
  obtain x where x: "accept_request env (idx_of e) (in_replay (idx_of e) ?a) req (pre_alloc_id (q_event req) (i_state ?a)) (tried_state (idx_of e) req ?a) = (Ok (), x)"
    using accept_returns [OF audit] by blast
  have "i_state x = i_state (tried_state (idx_of e) req ?a)" "i_namespace_registry x = i_namespace_registry (tried_state (idx_of e) req ?a)"
    using x by (rule accept_OkE, simp split: option.splits)+
  then have st: "i_state x = st" and reg: "i_namespace_registry x = snd (snd (resolve_request (q_event req) (i_namespace_registry a)))"
    using t by (simp_all add: tried_state_def)
  obtain ns reg where s: "settled req False ?a (i_namespace_registry x) = (ns, reg)" by fastforce
  have "apply_request env (idx_of e) req ?a = (Ok (answered env (idx_of e) req None (i_state ?a) ns (x\<lparr>i_namespace_registry := reg\<rparr>)), x\<lparr>i_namespace_registry := reg\<rparr>)"
    unfolding apply_request_runs [OF new] t Let_def using x s by simp
  then show ?thesis using st reg s by (simp add: apply_entry_Normal [OF assms(1)] settled_def)
qed

lemma first_request_applies:
  assumes "sink_accepts env"
  shows "\<exists>r a'. apply_entry env (entry_at 1 (Normal first_request)) (sm_new s 0 ()) = (Ok r, a') \<and> \<not> a_deduplicated r \<and> a_rejected r = None"
proof -
  obtain k where k: "apply_event_ns (InsertRecord 0 [65536] None 0) 0 kernel_new = (Ok (), k)" by (simp add: kernel_eval)
  have "\<not> skips first_request (sm_new s 0 ())"
    by (simp add: skips_def first_request_def request_def sm_new_def CURRENT_SCHEMA_VERSION_def)
  moreover have "tried first_request (sm_new s 0 ()) = (Ok None, k)"
    by (simp add: tried_def first_request_def request_def sm_new_def kernel_with_dim_def first_insert_def kernel_step_def k)
  ultimately show ?thesis
    using entry_accepted [of "entry_at 1 (Normal first_request)" first_request] assms by (fastforce simp: entry_at_def sink_accepts_def)
qed

theorem duplicates_answered_witness:
  "\<exists>r a1 r' a3. apply_entry demo_env (entry_at 1 (Normal first_request)) new_node = (Ok r, a1) \<and> a_rejected r = None \<and>
     apply_entry demo_env (entry_at 3 (Normal first_request)) (a1\<lparr>i_last_applied := Some (log_at 2)\<rparr>) = (Ok r', a3) \<and>
     a_deduplicated r' \<and> i_state a3 = i_state a1"
proof -
  obtain r a1 where first: "apply_entry demo_env (entry_at 1 (Normal first_request)) new_node = (Ok r, a1)" "\<not> a_deduplicated r" "a_rejected r = None"
    using first_request_applies [of demo_env "[]"] by (auto simp: new_node_def)
  let ?a2 = "a1\<lparr>i_last_applied := Some (log_at 2)\<rparr>"
  have mid: "apply_loop demo_env [entry_at 2 Blank] a1 = (Ok [reply demo_env 2 False None ?a2], ?a2)"
    by (simp add: apply_entry_def entry_at_def Let_def)
  have "dedup_ok new_node" "length [entry_at 2 Blank] < MAX_DEDUP_ENTRIES" "en_payload (entry_at i (Normal first_request)) = Normal first_request"
    "q_request_id first_request = Some (replicate 16 1)" "q_schema_version first_request = CURRENT_SCHEMA_VERSION" for i
    by (simp_all add: new_node_def sm_new_def dedup_ok_def MAX_DEDUP_ENTRIES_def entry_at_def first_request_def request_def CURRENT_SCHEMA_VERSION_def)
  from duplicates_answered [OF this(1) first(1) this(3,4) first(2,3) mid this(2,3,4,5), of 3] first show ?thesis by auto
qed

section \<open>Restarts\<close>


definition empty_db :: "unit SmDb" where
  "empty_db = \<lparr>db_last_applied = None, db_membership = None, db_snapshot = None\<rparr>"

lemma first_sm_apply:
  assumes "sink_accepts env"
  shows "\<exists>rs a r b. sm_apply env [entry_at 1 (Normal first_request)] ((sm_new s 0 ())\<lparr>i_db := d\<rparr>) = (Ok rs, a) \<and>
    apply_entry env (entry_at 1 (Normal first_request)) (sm_new s 0 ()) = (Ok r, b) \<and> rs = [r] \<and> i_audit a = i_audit b \<and>
    \<not> a_deduplicated r \<and> a_rejected r = None"
proof -
  obtain r b where "apply_entry env (entry_at 1 (Normal first_request)) (sm_new s 0 ()) = (Ok r, b)" "\<not> a_deduplicated r \<and> a_rejected r = None"
    using first_request_applies [OF assms] by blast
  then show ?thesis using apply_entry_db [of env "entry_at 1 (Normal first_request)" d "sm_new s 0 ()"] by (simp add: sm_apply_def at_db_def [symmetric])
qed


text \<open>The last applied entry is saved once per batch, after its events were recorded: a node that stops in between records
  the events of the batch a second time.\<close>

lemma first_audited:
  "\<exists>r a'. apply_entry demo_env (entry_at 1 (Normal first_request)) ((sm_new s 0 ())\<lparr>i_db := d\<rparr>) = (Ok r, a') \<and>
     i_audit a' = s @ [(event_type first_insert, Some (replicate 16 1))]"
proof -
  let ?e = "entry_at 1 (Normal first_request) :: unit Entry"
  obtain r a' where run: "apply_entry demo_env ?e (sm_new s 0 ()) = (Ok r, a')" "\<not> a_deduplicated r" "a_rejected r = None"
    using first_request_applies [OF demo_env_sink] by blast
  then have "accepted ?e r = Some first_request" by (simp add: accepted_def entry_at_def)
  then have "v_record demo_env (q_event first_request) (q_request_id first_request) s = (Ok (), i_audit a')"
    using apply_entry_effect [OF run(1)] by (simp add: entry_effect_def in_replay_def sm_new_def)
  then have "i_audit a' = s @ [(event_type first_insert, Some (replicate 16 1))]"
    by (simp add: demo_env_def memory_record_def first_request_def request_def)
  then show ?thesis using run(1) apply_entry_db [of demo_env ?e d "sm_new s 0 ()"] by (simp add: at_db_def [symmetric])
qed

lemma unsaved_batch_audited_twice:
  "\<exists>r a b r' b'. apply_entry demo_env (entry_at 1 (Normal first_request)) (new_node\<lparr>i_db := Some empty_db\<rparr>) = (Ok r, a) \<and>
     with_db demo_env (i_audit a) empty_db 0 () = Ok b \<and> apply_entry demo_env (entry_at 1 (Normal first_request)) b = (Ok r', b') \<and>
     i_audit b' = [(event_type first_insert, Some (replicate 16 1)), (event_type first_insert, Some (replicate 16 1))]"
proof -
  have "with_db demo_env t empty_db 0 () = Ok ((sm_new t 0 ())\<lparr>i_db := Some empty_db\<rparr>)" for t
    by (simp add: with_db_def empty_db_def Let_def sm_new_def)
  then show ?thesis
    using first_audited [of "Some empty_db" "[]"] first_audited [of "Some empty_db" "[(event_type first_insert, Some (replicate 16 1))]"]
    by (fastforce simp: new_node_def)
qed

end
