(* ===== verification/Raft_Snapshot.thy ===== *)
theory Raft_Snapshot
  imports Raft_Theorems Hash_Theorems
begin

text \<open>
  Snapshots of the replicated state machine: their payload survives serialisation, a node that installs one agrees with
  the node that built it, and what the snapshot leaves out.
\<close>

section \<open>Payloads\<close>

definition payload_wf :: "SnapshotPayload \<Rightarrow> bool" where
  "payload_wf p \<longleftrightarrow> length (p_kernel p) < 2 ^ 64 \<and> length (p_dedup p) < 2 ^ 64 \<and> (\<forall>i \<in> set (p_dedup p). length i = 16) \<and>
     length (p_state_hash p) = 32 \<and> length (p_created_at p) < 2 ^ 64 \<and> length (p_text_corpus p) < 2 ^ 64 \<and>
     (\<forall>(i, text) \<in> set (p_text_corpus p). text_ok text) \<and> length (fst (p_namespace_registry p)) < 2 ^ 64 \<and>
     (\<forall>(name, i) \<in> set (fst (p_namespace_registry p)). text_ok name)"

lemma dec_many_on:
  "(\<And>x rest. x \<in> set xs \<Longrightarrow> dec (enc x @ rest) = Some (x, rest)) \<Longrightarrow> dec_many dec (length xs) (enc_many enc xs @ rest) = Some (xs, rest)"
  by (induction xs arbitrary: rest) (simp_all add: enc_many_def)

lemma vec_on:
  assumes "bincode_laws B" "length xs < 2 ^ 64" "\<And>x rest. x \<in> set xs \<Longrightarrow> dec (enc x @ rest) = Some (x, rest)"
  shows "dec_vec B dec (enc_vec B enc xs @ rest) = Some (xs, rest)"
  using bincode_lawsD(6) [OF assms(1,2)] dec_many_on [of xs dec enc rest, OF assms(3)] by (simp add: dec_vec_def enc_vec_def)

lemma payload_roundtrip:
  assumes B: "bincode_laws B" and wf: "payload_wf p"
  shows "dec_payload B (enc_payload B p @ r) = Some (p, r)"
proof -
  note prim = bincode_lawsD [OF B] key_roundtrip [OF B]
  have hash: "dec_many (dec_u8 B) 32 (enc_many (enc_u8 B) (p_state_hash p) @ r') = Some (p_state_hash p, r')" for r'
    using dec_many_enc_many [of "dec_u8 B" "enc_u8 B" "p_state_hash p" r'] prim(1) wf by (simp add: payload_wf_def)
  have "dec_vec B (dec_u8 B) (enc_vec B (enc_u8 B) (p_kernel p) @ r') = Some (p_kernel p, r')"
    "dec_vec B (dec_key B) (enc_vec B (enc_key B) (p_dedup p) @ r') = Some (p_dedup p, r')"
    "dec_vec B (\<lambda>bs. do { (i, bs) \<leftarrow> dec_u32 B bs; (t, bs) \<leftarrow> dec_u64 B bs; Some ((i, t), bs) })
       (enc_vec B (\<lambda>(i, t). enc_u32 B i @ enc_u64 B t) (p_created_at p) @ r') = Some (p_created_at p, r')"
    "dec_vec B (\<lambda>bs. do { (i, bs) \<leftarrow> dec_u64 B bs; (text, bs) \<leftarrow> dec_str B bs; Some ((i, text), bs) })
       (enc_vec B (\<lambda>(i, text). enc_u64 B i @ enc_str B text) (p_text_corpus p) @ r') = Some (p_text_corpus p, r')"
    "dec_vec B (\<lambda>bs. do { (name, bs) \<leftarrow> dec_str B bs; (i, bs) \<leftarrow> dec_u16 B bs; Some ((name, i), bs) })
       (enc_vec B (\<lambda>(name, i). enc_str B name @ enc_u16 B i) (fst (p_namespace_registry p)) @ r') = Some (fst (p_namespace_registry p), r')" for r'
    using wf by (intro vec_on [OF B]; force simp: payload_wf_def prim text_ok_def)+
  then show ?thesis by (simp add: dec_payload_def enc_payload_def hash prim)
qed

section \<open>Installing a snapshot\<close>

lemma of_pairs_distinct: "distinct (map fst ps) \<Longrightarrow> of_pairs ps = ps"
proof -
  have "fold (\<lambda>(k, v). AList.update k v) ps acc = acc @ ps" if "distinct (map fst (acc @ ps))" for acc :: "('a \<times> 'b) list"
    using that
  proof (induction ps arbitrary: acc)
    case (Cons p ps)
    obtain k v where p: "p = (k, v)" by fastforce
    have "k \<notin> fst ` set acc" using Cons.prems p by force
    then have "AList.update k v acc = acc @ [(k, v)]" by (simp add: update_fresh map_of_eq_None_iff)
    then show ?case using Cons.IH [of "acc @ [p]"] Cons.prems p by simp
  qed simp
  then show "distinct (map fst ps) \<Longrightarrow> of_pairs ps = ps" by (simp add: of_pairs_def)
qed

definition snapshot_ready :: "'s raft_env \<Rightarrow> ('m, 's) StateMachineInner \<Rightarrow> bool" where
  "snapshot_ready env a \<longleftrightarrow> sm_ok a \<and> bincode_laws (v_bincode env) \<and> payload_wf (payload_of env a) \<and>
     snapshot_fits (i_state a) \<and> dense_nodes (i_state a) \<and> dense_edges (i_state a)"

lemma restored_hash: "hash_state_blake3 H (restored st) = hash_state_blake3 H st"
  by (simp add: restored_def hash_state_blake3_def state_preimage_def)

lemma open_built:
  assumes ready: "snapshot_ready env a" and env: "v_hash env = v_hash env'" "v_bincode env = v_bincode env'"
  shows "open_payload env' (enc_payload (v_bincode env) (payload_of env a)) = Ok (payload_of env a, restored (i_state a))"
proof -
  have "dec_payload (v_bincode env) (enc_payload (v_bincode env) (payload_of env a)) = Some (payload_of env a, [])"
    using payload_roundtrip [of "v_bincode env" "payload_of env a" "[]"] ready by (simp add: snapshot_ready_def)
  moreover have "decode_state (encode_state (i_state a)) = Ok (restored (i_state a))"
    using decode_restored [of "i_state a" "[]"] ready by (simp add: snapshot_ready_def sm_ok_def)
  ultimately show ?thesis
    using env by (simp add: open_payload_def payload_of_def sm_state_hash_def restored_hash)
qed

lemma load_built:
  assumes "sm_ok a"
  shows "replica_eq ((load_payload (payload_of env a) st b)\<lparr>i_last_applied := i_last_applied a\<rparr>) (a\<lparr>i_state := st\<rparr>)"
    "i_created_at (load_payload (payload_of env a) st b) = i_created_at a"
proof -
  have "distinct (map fst (i_created_at a))" "distinct (map fst (i_text_corpus a))" "distinct (map fst (cr_map (i_namespace_registry a)))"
    "set (i_dedup_order a) = i_dedup_set a"
    using assms by (simp_all add: sm_ok_def registry_ok_def dedup_ok_def)
  then show "replica_eq ((load_payload (payload_of env a) st b)\<lparr>i_last_applied := i_last_applied a\<rparr>) (a\<lparr>i_state := st\<rparr>)"
    "i_created_at (load_payload (payload_of env a) st b) = i_created_at a"
    by (auto simp: load_payload_def payload_of_def of_pairs_distinct replica_eq_def)
qed

lemma persist_snapshot_fields [simp]:
  "replica_eq (persist_snapshot a) b = replica_eq a b" "i_membership (persist_snapshot a) = i_membership a" "i_state (persist_snapshot a) = i_state a"
  "i_created_at (persist_snapshot a) = i_created_at a" "i_dedup_set (persist_snapshot a) = i_dedup_set a"
  "i_last_applied (persist_snapshot a) = i_last_applied a" "i_dedup_order (persist_snapshot a) = i_dedup_order a"
  "i_text_corpus (persist_snapshot a) = i_text_corpus a" "i_namespace_registry (persist_snapshot a) = i_namespace_registry a"
  by (simp_all add: persist_snapshot_def split: option.splits)

lemma install_built:
  assumes ready: "snapshot_ready env a" and env: "v_hash env = v_hash env'" "v_bincode env = v_bincode env'"
    and built: "fst (build_snapshot env a) = (meta, bs)"
  shows "\<exists>b'. install_snapshot env' meta bs b = (Ok (), b') \<and> replica_eq b' (a\<lparr>i_state := restored (i_state a)\<rparr>) \<and>
    i_membership b' = i_membership a \<and> i_created_at b' = i_created_at a"
proof -
  have meta: "m_last_log_id meta = i_last_applied a" "m_last_membership meta = i_membership a" "bs = enc_payload (v_bincode env) (payload_of env a)"
    using built by (auto simp: build_snapshot_def Let_def)
  let ?b = "load_payload (payload_of env a) (restored (i_state a)) b"
  have "install_snapshot env' meta bs b = (Ok (), persist_snapshot (?b\<lparr>i_last_applied := i_last_applied a,
      i_membership := i_membership a, i_current_snapshot := Some (meta, bs)\<rparr>))"
    using open_built [OF ready env] meta by (simp add: install_snapshot_def)
  moreover have "replica_eq (?b\<lparr>i_last_applied := i_last_applied a\<rparr>) (a\<lparr>i_state := restored (i_state a)\<rparr>)" "i_created_at ?b = i_created_at a"
    using ready by (intro load_built; simp add: snapshot_ready_def)+
  ultimately show ?thesis by (simp add: replica_eq_def)
qed


definition leader :: "KernelState \<Rightarrow> (unit, memory_sink) StateMachineInner" where
  "leader st = new_node\<lparr>i_state := st, i_last_applied := Some (log_at 7), i_dedup_set := {replicate 16 1}, i_dedup_order := [replicate 16 1],
     i_namespace_registry := snd (registry_create (ascii ''docs'') registry_new)\<rparr>"

lemma leader_ok: "kernel_inv st \<Longrightarrow> sm_ok (leader st)"
  using registry_create_ok [OF registry_new_ok, of "ascii ''docs''"] 
  by (cases "registry_create (ascii ''docs'') registry_new")
    (simp add: leader_def new_node_def sm_new_def sm_ok_def dedup_ok_def MAX_DEDUP_ENTRIES_def)

lemma docs_registry: "registry_create (ascii ''docs'') registry_new = (Some 1, \<lparr>cr_map = [(ascii ''docs'', 1)], cr_next_id = 2\<rparr>)"
  by (simp add: registry_create_def registry_new_def default_name_def ascii_def MAX_COLLECTIONS_def word_le_nat_alt)

lemma docs_text: "text_ok (ascii ''docs'')"
  by (simp add: text_ok_def ascii_def utf8_valid.simps in_range_def)

lemma leader_payload: "length (encode_state st) < 2 ^ 64 \<Longrightarrow> payload_wf (payload_of demo_env (leader st))"
  by (simp add: payload_wf_def payload_of_def leader_def new_node_def sm_new_def sm_state_hash_def hash_state_blake3_def demo_env_def
      docs_registry docs_text)

lemma length_heads: "length (concat (map le32 (take MAX_NAMESPACES hs))) \<le> 4096"
proof -
  have "length (concat (map le32 xs)) = 4 * length xs" for xs by (induction xs) simp_all
  then show ?thesis by (simp add: MAX_NAMESPACES_def)
qed

lemma demo_payload: "payload_wf (payload_of demo_env (leader demo))"
proof (rule leader_payload)
  have "length (encode_state demo) \<le> 20000"
    using length_heads [of "ks_record_heads demo"] length_heads [of "ks_node_heads demo"]
    by (simp add: encode_state_def encode_header_def encode_slot_def encode_record_def encode_node_def encode_edge_def push_str_def push_opt_def demo_def
        MAX_NAMESPACES_def MAGIC_def)
  then show "length (encode_state demo) < 2 ^ 64" by simp
qed

text \<open>A kernel with one record, and its leader.\<close>

definition one_record :: KernelState where
  "one_record = run [(0, first_insert)] kernel_new"

lemma one_record_eq:
  "one_record = kernel_new\<lparr>ks_dim := Some 1, ks_version := 1, ks_record_heads := (ks_record_heads kernel_new)[0 := 0],
     ks_records := [Some \<lparr>r_id = 0, r_vector = [65536], r_metadata = None, r_tag = 0, r_flags = 0, r_namespace_id = 0,
       r_next_in_ns = NS_LIST_NIL, r_prev_in_ns = NS_LIST_NIL\<rparr>]\<rparr>"
  by (simp add: one_record_def first_insert_def kernel_eval)

lemma one_record_inv: "kernel_inv one_record"
proof -
  have "reachable one_record"
    unfolding one_record_def by (rule safe_run_reachable [OF kernel_new_reachable])
      (simp add: first_insert_def version_ok_def version_next_def kernel_new_def)
  then show ?thesis by (rule reachable_inv)
qed

lemma one_record_payload: "payload_wf (payload_of demo_env (leader one_record))"
proof (rule leader_payload)
  have "length (encode_state one_record) \<le> 20000"
    using length_heads [of "ks_record_heads one_record"] length_heads [of "ks_node_heads one_record"]
    by (simp add: encode_state_def encode_header_def encode_slot_def encode_record_def one_record_eq kernel_new_def MAX_NAMESPACES_def MAGIC_def live_count_def)
  then show "length (encode_state one_record) < 2 ^ 64" by simp
qed

lemma one_record_fits: "snapshot_fits one_record"
  by (simp add: snapshot_fits_def one_record_eq kernel_new_def dim_value_def live_count_def MAX_DIM_def MAX_RECORDS_def)


section \<open>What a snapshot leaves out\<close>

lemma shred_entry:
  assumes "apply_event_ns (ShredKey key) ns (i_state z) = (Ok (), S)" "sink_accepts env" "en_payload e = Normal (request None ns (ShredKey key))"
  shows "\<exists>r z'. apply_entry env e z = (Ok r, z') \<and> a_rejected r = None \<and> i_state z' = S"
proof -
  let ?req = "request None ns (ShredKey key)"
  have "\<not> skips ?req z" by (simp add: skips_def request_def CURRENT_SCHEMA_VERSION_def)
  moreover have "tried ?req z = (Ok None, S)" using assms(1) by (simp add: tried_def request_def kernel_step_def)
  ultimately show ?thesis using entry_accepted [OF assms(3)] assms(2) by (metis sink_accepts_def)
qed

lemma shred_leader:
  assumes inv: "kernel_inv st" and ver: "version_ok st" and key: "ks_encrypted_keys st key = Some is" "i \<in> set is" "get_record st i = Some x"
  shows "\<exists>S. apply_event_ns (ShredKey key) ns st = (Ok (), S) \<and> get_record S i = Some (shred x)"
proof -
  have "apply_arm (ShredKey key) ns st = (Ok (), st\<lparr>ks_records := fold shred_one is (ks_records st),
      ks_encrypted_keys := (ks_encrypted_keys st)(key := None)\<rparr>)"
    using apply_shred_key_ok(1) [OF inv, of "is" key] key(1) by (simp add: finish_def)
  from apply_event_ns_arm [OF ver this] key show ?thesis by (simp add: get_record_def slot_shred_all)
qed

text \<open>C38: Erasure does not reach a node restored from a snapshot. The table of keys is not part of a snapshot: when a leader holds
  a record encrypted under a key, and a follower has installed the leader's snapshot, the same committed \<open>ShredKey\<close> request is
  accepted by both, shreds the record on the leader, and leaves it with its ciphertext on the follower.\<close>

theorem restored_follower_keeps_shredded:
  assumes ready: "snapshot_ready env a" and env: "v_hash env = v_hash env'" "v_bincode env = v_bincode env'" "sink_accepts env" "sink_accepts env'"
    and built: "fst (build_snapshot env a) = (meta, bs)" and installed: "install_snapshot env' meta bs b = (Ok (), b')"
    and key: "ks_encrypted_keys (i_state a) key = Some is" "i \<in> set is" "get_record (i_state a) i = Some x" and ver: "version_ok (i_state a)"
    and e: "en_payload e = Normal (request None ns (ShredKey key))"
  shows "\<exists>r a' r' b''. apply_entry env e a = (Ok r, a') \<and> a_rejected r = None \<and> apply_entry env' e b' = (Ok r', b'') \<and> a_rejected r' = None \<and>
    (\<exists>y. get_record (i_state a') i = Some y \<and> shredded y \<and> r_metadata y = None) \<and> get_record (i_state b'') i = Some x"
proof -
  let ?st = "i_state a"
  have inv: "kernel_inv ?st" using ready by (simp add: snapshot_ready_def sm_ok_def)
  have b': "i_state b' = restored ?st"
    using install_built [OF ready env(1,2) built, of b] installed by (auto simp: replica_eq_def)
  obtain A where A: "apply_event_ns (ShredKey key) ns ?st = (Ok (), A)" "get_record A i = Some (shred x)"
    using shred_leader [OF inv ver key] by blast
  obtain B where B: "apply_event_ns (ShredKey key) ns (i_state b') = (Ok (), B)" "get_record B i = Some x"
    using ver key(3) b' by (auto simp: apply_event_ns_def apply_shred_key_def finish_def version_ok_def version_next_def restored_def get_record_def split: if_splits)
  show ?thesis
    using shred_entry [OF A(1) env(3) e] shred_entry [OF B(1) env(4) e] A(2) B(2) shred_flags(3) [of x] by (fastforce simp: shred_def)
qed

theorem restored_follower_keeps_shredded_witness:
  "\<exists>meta bs b' r a' r' b''. fst (build_snapshot demo_env (leader demo)) = (meta, bs) \<and> install_snapshot demo_env meta bs new_node = (Ok (), b') \<and>
    apply_entry demo_env (entry_at 8 (Normal (request None 2 (ShredKey demo_key)))) (leader demo) = (Ok r, a') \<and> a_rejected r = None \<and>
    apply_entry demo_env (entry_at 8 (Normal (request None 2 (ShredKey demo_key)))) b' = (Ok r', b'') \<and> a_rejected r' = None \<and>
    (\<exists>y. get_record (i_state a') 2 = Some y \<and> shredded y \<and> r_metadata y = None) \<and>
    (\<exists>y. get_record (i_state b'') 2 = Some y \<and> r_metadata y = Some [9])"
proof -
  obtain meta bs where built: "fst (build_snapshot demo_env (leader demo)) = (meta, bs)" by fastforce
  have st: "i_state (leader demo) = demo" by (simp add: leader_def)
  have dense: "dense_nodes demo" "dense_edges demo"
    using demo_no_dangling by (auto simp: demo_def dense_nodes_def dense_edges_def live_count_def)
  have ready: "snapshot_ready demo_env (leader demo)"
    using leader_ok [OF demo_inv] demo_payload demo_fits dense by (simp add: snapshot_ready_def st demo_env_def le_bincode_laws)
  obtain b' where inst: "install_snapshot demo_env meta bs new_node = (Ok (), b')"
    using install_built [OF ready refl refl built, of new_node] by blast
  obtain x where key: "ks_encrypted_keys (i_state (leader demo)) demo_key = Some [2]" "2 \<in> set [2 :: u32]" "get_record (i_state (leader demo)) 2 = Some x"
      "r_metadata x = Some [9]"
    by (simp add: st) (simp add: demo_def get_record_def slot_def)
  have e: "en_payload (entry_at 8 (Normal (request None 2 (ShredKey demo_key)))) = Normal (request None 2 (ShredKey demo_key))" by (simp add: entry_at_def)
  have ver: "version_ok (i_state (leader demo))" using demo_version by (simp add: st)
  from restored_follower_keeps_shredded [OF ready refl refl demo_env_sink demo_env_sink built inst key(1,2,3) ver e]
  obtain r a' r' b'' where run: "apply_entry demo_env (entry_at 8 (Normal (request None 2 (ShredKey demo_key)))) (leader demo) = (Ok r, a')" "a_rejected r = None"
    "apply_entry demo_env (entry_at 8 (Normal (request None 2 (ShredKey demo_key)))) b' = (Ok r', b'')" "a_rejected r' = None"
    "\<exists>y. get_record (i_state a') 2 = Some y \<and> shredded y \<and> r_metadata y = None" "get_record (i_state b'') 2 = Some x" by blast
  moreover have "\<exists>y. get_record (i_state b'') 2 = Some y \<and> r_metadata y = Some [9]" using run(6) key(4) by blast
  ultimately show ?thesis using built inst by blast
qed

end
