(* ===== verification/Raft_Audit.thy ===== *)
theory Raft_Audit
  imports Raft_Theorems
begin

text \<open>
  The audit log of a cluster node: the event log that the sink of \<open>valori-node/src/commit/audit.rs\<close> writes. When it replays to
  the state of the node, and when not.
\<close>

section \<open>The sink\<close>

definition audit_sink :: "wire_codec \<Rightarrow> EventLogAuditSink raft_env \<Rightarrow> bool" where
  "audit_sink c env \<longleftrightarrow> (\<forall>ev rid s. \<exists>now. v_record env ev rid s = audit_record c now ev rid s)"

definition audited :: "wire_codec \<Rightarrow> EventLogAuditSink \<Rightarrow> (bytes \<times> item list) list \<Rightarrow> item list \<Rightarrow> bool" where
  "audited c sink S items \<longleftrightarrow> log_inv c S (s_writer sink) items (length items) \<and> map fst S = s_sealed sink"

lemma audit_rotate_inv:
  assumes laws: "codec_laws c" and inv: "audited c sink S items"
  shows "\<exists>S' items'. audited c (audit_rotate c now sink) S' items' \<and> logged_events S' items' = logged_events S items"
proof (cases "audit_rotate c now sink = sink")
  case False
  let ?w = "s_writer sink"
  let ?cp = "Checkpoint (w_event_count ?w) (w_chain_head ?w) (now 1)"
  have log: "log_inv c S ?w items (length items)" "map fst S = s_sealed sink" using inv by (simp_all add: audited_def)
  have head: "length (w_chain_head ?w) = 32" using log_inv_segment [OF log(1)] segment_head [OF laws] by metis
  then have wf: "entry_wf ?cp" by simp
  obtain bs h where "encode_entry c VERSION_V4 (w_chain_head ?w) (now 2) None ?cp = Ok bs"
    "chain_advance c VERSION_V4 (w_chain_head ?w) (stamped (w_chain_head ?w) (now 2) None ?cp) = Ok h"
    using encode_checkpoint [OF laws head head] chain_entry_ok [OF laws wf] by metis
  then obtain w where rot: "rotate c (now 2) (Some ?cp) ?w = (Ok (w_written ?w), w)"
    by (auto simp: rotate_def Let_def log_sync_def)
  then have sink: "audit_rotate c now sink = sink\<lparr>s_writer := w, s_sealed := s_sealed sink @ [w_written ?w]\<rparr>"
    using False by (auto simp: audit_rotate_def Let_def split: option.splits)
  have "log_inv c (S @ [(w_written ?w, items)]) w [(now 2, None, ?cp)] 1"
    using rotate_inv [OF laws log(1) _ rot] wf by simp
  then show ?thesis
    using sink log(2) by (intro exI [of _ "S @ [(w_written ?w, items)]"] exI [of _ "[(now 2, None, ?cp)]"]) (simp add: audited_def logged_events_def)
qed (use inv in auto)

lemma audit_record_inv:
  assumes laws: "codec_laws c" and inv: "audited c sink S items" and wf: "item_wf (now 0, rid, Event e)"
    and run: "audit_record c now e rid sink = (Ok (), sink')"
  shows "\<exists>S' items'. audited c sink' S' items' \<and> logged_events S' items' = logged_events S items @ [(DEFAULT_NS, e)]"
proof -
  obtain w where w: "append_with_request_id c (now 0) (Event e) rid (s_writer sink) = (Ok (), w)" "sink' = audit_rotate c now (sink\<lparr>s_writer := w\<rparr>)"
    using run by (auto simp: audit_record_def split: prod.splits res.splits)
  have "log_inv c S w (items @ [(now 0, rid, Event e)]) (Suc (length items))"
    using append_inv [OF laws _ wf w(1), of S items "length items"] inv by (simp add: audited_def)
  then have "audited c (sink\<lparr>s_writer := w\<rparr>) S (items @ [(now 0, rid, Event e)])" using inv by (simp add: audited_def)
  from audit_rotate_inv [OF laws this, of now] w(2) show ?thesis by (auto simp: logged_events_def)
qed

lemma audit_record_ok:
  assumes "codec_laws c" "audited c sink S items" "item_wf (now 0, rid, Event e)" "check_metadata_cap (Event e) = Ok ()"
  shows "\<exists>sink'. audit_record c now e rid sink = (Ok (), sink')"
  using append_ok [OF assms(1) _ assms(3,4), of S "s_writer sink" items "length items"] assms(2) by (auto simp: audited_def audit_record_def)

section \<open>What the log holds\<close>

text \<open>Requests whose events the log can hold.\<close>

fun loggable :: "'m EntryPayload \<Rightarrow> bool" where
  "loggable (Normal req) \<longleftrightarrow> event_fits (q_event req) \<and> (case q_request_id req of Some i \<Rightarrow> length i = 16 | None \<Rightarrow> True)"
| "loggable _ \<longleftrightarrow> True"

definition accepted_events :: "'m Entry list \<Rightarrow> ClientResponse list \<Rightarrow> KernelEvent list" where
  "accepted_events es rs = concat (map (\<lambda>(e, r). case accepted e r of Some req \<Rightarrow> [q_event req] | None \<Rightarrow> []) (zip es rs))"

lemma accepted_events_Cons:
  "accepted_events (e # es) (r # rs) = (case accepted e r of Some req \<Rightarrow> [q_event req] | None \<Rightarrow> []) @ accepted_events es rs"
  by (simp add: accepted_events_def)

definition audit_holds :: "wire_codec \<Rightarrow> KernelEvent list \<Rightarrow> ('m, EventLogAuditSink) StateMachineInner \<Rightarrow> bool" where
  "audit_holds c evs a \<longleftrightarrow> i_replay_until a = None \<and>
     (\<exists>S items. audited c (i_audit a) S items \<and> logged_events S items = map (Pair DEFAULT_NS) evs)"

lemma apply_entry_audits:
  assumes laws: "codec_laws c" and env: "audit_sink c env" and inv: "audit_holds c evs a" and wf: "loggable (en_payload e)"
    and run: "apply_entry env e a = (Ok r, a')"
  shows "audit_holds c (evs @ (case accepted e r of Some req \<Rightarrow> [q_event req] | None \<Rightarrow> [])) a'"
proof -
  note eff = apply_entry_effect [OF run]
  have live: "i_replay_until a' = None" "\<not> in_replay (idx_of e) a"
    using eff inv by (auto simp: replay_step_def audit_holds_def in_replay_def)
  obtain S items where S: "audited c (i_audit a) S items" "logged_events S items = map (Pair DEFAULT_NS) evs"
    using inv by (auto simp: audit_holds_def)
  show ?thesis
  proof (cases "accepted e r")
    case None
    then have "i_audit a' = i_audit a" using eff by (simp add: entry_effect_def)
    then show ?thesis using None S live by (auto simp: audit_holds_def)
  next
    case (Some req)
    then have req: "en_payload e = Normal req" by (auto simp: accepted_def split: EntryPayload.splits if_splits)
    have "v_record env (q_event req) (q_request_id req) (i_audit a) = (Ok (), i_audit a')"
      using eff Some live(2) by (simp add: entry_effect_def)
    then obtain now where now: "audit_record c now (q_event req) (q_request_id req) (i_audit a) = (Ok (), i_audit a')"
      using env by (metis audit_sink_def)
    have "item_wf (now 0, q_request_id req, Event (q_event req))" using wf req by simp
    from audit_record_inv [OF laws S(1) this now] S(2) live(1) Some show ?thesis by (auto simp: audit_holds_def)
  qed
qed

lemma apply_loop_audits:
  assumes laws: "codec_laws c" and env: "audit_sink c env"
  shows "audit_holds c evs a \<Longrightarrow> \<forall>e \<in> set es. loggable (en_payload e) \<Longrightarrow> apply_loop env es a = (Ok rs, a') \<Longrightarrow>
    audit_holds c (evs @ accepted_events es rs) a'"
proof (induction es arbitrary: a rs evs)
  case Nil
  then show ?case by (simp add: accepted_events_def)
next
  case (Cons e es)
  obtain r a1 rs1 where A: "apply_entry env e a = (Ok r, a1)" "apply_loop env es a1 = (Ok rs1, a')" "rs = r # rs1"
    using Cons.prems(3) by (rule apply_loop_ConsE)
  show ?case
    using Cons.IH [OF apply_entry_audits [OF laws env Cons.prems(1) _ A(1)] _ A(2)] Cons.prems(2) A(3) by (simp add: accepted_events_Cons)
qed

definition audit_start :: "wire_codec \<Rightarrow> nat \<Rightarrow> u64 option \<Rightarrow> 'm \<Rightarrow> ('m, EventLogAuditSink) StateMachineInner" where
  "audit_start c dim limit m0 = sm_new \<lparr>s_writer = ok_value (log_open c None (Some 1)), s_rotation_bytes = limit, s_sealed = []\<rparr> dim m0"

abbreviation audit_files :: "('m, EventLogAuditSink) StateMachineInner \<Rightarrow> bytes list" where
  "audit_files a \<equiv> w_written (s_writer (i_audit a)) # s_sealed (i_audit a)"

lemma audit_start_holds: "audit_holds c [] (audit_start c dim limit m0)"
  using log_open_new [OF fresh_open] by (auto simp: audit_holds_def audit_start_def sm_new_def audited_def logged_events_def WIRE_MAX_DIM_def intro!: exI [of _ "[]"])

lemma audit_read:
  assumes laws: "codec_laws c" and holds: "audit_holds c evs a" and files: "mset files = mset (audit_files a)" "length (s_sealed (i_audit a)) < 2 ^ 32"
  shows "read_all_segments c None files = Ok (map (Pair DEFAULT_NS) evs)"
proof -
  let ?w = "s_writer (i_audit a)"
  obtain S items where S: "audited c (i_audit a) S items" "logged_events S items = map (Pair DEFAULT_NS) evs" using holds by (auto simp: audit_holds_def)
  then have log: "log_inv c S ?w items (length items)" "map fst S = s_sealed (i_audit a)" by (simp_all add: audited_def)
  have "length S < 2 ^ 32" using files(2) log(2) by (metis length_map)
  moreover have "mset files = mset (take (length (w_written ?w)) (w_written ?w) # map fst S)" using files(1) log(2) by simp
  ultimately have "read_all_segments c None files = Ok (logged_events S items)"
    using read_all_crash [OF laws log(1) synced_log [OF log(1)]] by (fastforce simp: logged_events_def)
  then show ?thesis using S(2) by simp
qed

lemma sm_apply_audits:
  assumes laws: "codec_laws c" and env: "audit_sink c env" and run: "sm_apply env es (audit_start c dim limit m0) = (Ok rs, a')"
    and wf: "\<forall>e \<in> set es. loggable (en_payload e)"
    and files: "mset files = mset (audit_files a')" "length (s_sealed (i_audit a')) < 2 ^ 32"
  shows "read_all_segments c None files = Ok (map (Pair DEFAULT_NS) (accepted_events es rs))"
proof -
  obtain x where x: "apply_loop env es (audit_start c dim limit m0) = (Ok rs, x)" "a' = persist_applied x" using run by (rule sm_applyE)
  have "audit_holds c (accepted_events es rs) x"
    using apply_loop_audits [OF laws env audit_start_holds wf x(1)] by simp
  from audit_read [OF laws this] files x(2) show ?thesis by simp
qed


section \<open>Recovery from the audit log\<close>

fun plain :: "KernelEvent \<Rightarrow> bool" where
  "plain (AutoCreateNamespace _) = False"
| "plain (DropNamespace _) = False"
| "plain _ = True"

lemma tried_plain: "plain (q_event req) \<Longrightarrow> tried req a = kernel_step (q_event req) (q_namespace_id req) (i_state a)"
  by (cases "q_event req") (simp_all add: tried_def)

lemma request_kernel:
  assumes run: "apply_request env idx req a = (Ok r, a')" and plain: "plain (q_event req)"
  shows "if skips req a then i_state a' = i_state a \<and> (a_deduplicated r \<or> a_rejected r \<noteq> None) else \<not> a_deduplicated r \<and>
    (case a_rejected r of None \<Rightarrow> apply_event_ns (q_event req) (q_namespace_id req) (i_state a) = (Ok (), i_state a')
     | Some rej \<Rightarrow> \<exists>err. rej = KernelRejected err \<and> apply_event_ns (q_event req) (q_namespace_id req) (i_state a) = (Err err, i_state a'))"
proof (cases "skips req a")
  case True
  then show ?thesis using apply_request_skips [OF True, of env idx] run by (auto simp: reply_def)
next
  case False
  then obtain rej a2 ns reg where A: "fst (tried req a) = Ok rej"
    "if rej = None then accept_request env idx (in_replay idx a) req (pre_alloc_id (q_event req) (i_state a)) (tried_state idx req a) = (Ok (), a2)
     else a2 = tried_state idx req a"
    "settled req (rej \<noteq> None) a (i_namespace_registry a2) = (ns, reg)" "a' = a2\<lparr>i_namespace_registry := reg\<rparr>"
    "r = answered env idx req rej (i_state a) ns a'" using run by (rule apply_request_OkE)
  have "i_state a2 = snd (tried req a)"
  proof (cases rej)
    case None
    then have "accept_request env idx (in_replay idx a) req (pre_alloc_id (q_event req) (i_state a)) (tried_state idx req a) = (Ok (), a2)"
      using A(2) by simp
    then show ?thesis by (rule accept_OkE) (simp split: option.splits)
  qed (use A(2) in simp)
  then have "tried req a = (Ok rej, i_state a')" using A(1,4) by (simp add: prod_eq_iff)
  then show ?thesis
    using False A(5) tried_plain [OF plain, of a]
    by (cases "apply_event_ns (q_event req) (q_namespace_id req) (i_state a)") (auto simp: kernel_step_def split: res.splits)
qed

text \<open>Requests of the default namespace, and replies that leave the dimension alone.\<close>

fun default_request :: "'m EntryPayload \<Rightarrow> bool" where
  "default_request (Normal req) \<longleftrightarrow> plain (q_event req) \<and> q_namespace_id req = DEFAULT_NS"
| "default_request _ \<longleftrightarrow> True"

definition sized :: "ClientResponse \<Rightarrow> bool" where
  "sized r \<longleftrightarrow> a_rejected r \<noteq> Some (KernelRejected MetadataTooLarge)"

lemma apply_entry_replays:
  assumes run: "apply_entry env e a = (Ok r, a')" and def: "default_request (en_payload e)" and dim: "sized r"
  shows "replay_loop (map (Pair DEFAULT_NS) (accepted_events [e] [r])) (i_state a) = Ok (i_state a')"
proof (cases "en_payload e")
  case (Normal req)
  then have "apply_request env (idx_of e) req (a\<lparr>i_last_applied := Some (en_log_id e)\<rparr>) = (Ok r, a')" "plain (q_event req)"
    using run def by (simp_all add: apply_entry_Normal)
  from request_kernel [OF this] show ?thesis
    using Normal def dim rejected_keeps_state
    by (fastforce simp: accepted_events_def accepted_def sized_def split: if_splits option.splits)
qed (use run in \<open>auto simp: apply_entry_def Let_def accepted_events_def accepted_def\<close>)

lemma apply_loop_replays:
  "apply_loop env es a = (Ok rs, a') \<Longrightarrow> \<forall>e \<in> set es. default_request (en_payload e) \<Longrightarrow> \<forall>r \<in> set rs. sized r \<Longrightarrow>
    replay_loop (map (Pair DEFAULT_NS) (accepted_events es rs)) (i_state a) = Ok (i_state a')"
proof (induction es arbitrary: a rs)
  case Nil
  then show ?case by (simp add: accepted_events_def)
next
  case (Cons e es)
  obtain r a1 rs1 where A: "apply_entry env e a = (Ok r, a1)" "apply_loop env es a1 = (Ok rs1, a')" "rs = r # rs1"
    using Cons.prems(1) by (rule apply_loop_ConsE)
  have "accepted_events (e # es) rs = accepted_events [e] [r] @ accepted_events es rs1" by (simp add: A(3) accepted_events_def)
  then show ?case
    using apply_entry_replays [OF A(1)] Cons.IH [OF A(2)] Cons.prems(2,3) A(3) by (simp add: replay_loop_append)
qed


lemma replay_drop_fails: "DropNamespace name \<in> set evs \<Longrightarrow> replay_loop (map (Pair DEFAULT_NS) evs) st \<noteq> Ok st'"
proof (induction evs arbitrary: st)
  case (Cons ev evs)
  have "apply_event_ns (DropNamespace name) DEFAULT_NS st = (Err InvalidOperation, st)"
    by (simp add: apply_event_ns_def apply_drop_namespace_def finish_def DEFAULT_NS_def)
  then show ?case using Cons by (auto split: prod.splits res.splits)
qed simp

text \<open>Once a namespace has been dropped, the audit log can no longer be replayed. The log does not record the namespace of an event, and
  the kernel refuses to drop the default one: recovery from the audit log of a node that accepted a \<open>DropNamespace\<close>
  request never returns a state.\<close>

theorem dropped_namespace_unrecoverable:
  assumes laws: "codec_laws c" and env: "audit_sink c env" and run: "sm_apply env es (audit_start c dim limit m0) = (Ok rs, a')"
    and wf: "\<forall>e \<in> set es. loggable (en_payload e)" and drop: "DropNamespace name \<in> set (accepted_events es rs)"
    and files: "mset files = mset (audit_files a')" "length (s_sealed (i_audit a')) < 2 ^ 32"
  shows "recover_from_event_log c files \<noteq> Ok (st, j, n)"
  using sm_apply_audits [OF laws env run wf files] replay_drop_fails [OF drop, of kernel_new]
  by (auto simp: recover_from_event_log_def replay_events_def)

text \<open>A node with a fresh audit log.\<close>

definition audit_env :: "EventLogAuditSink raft_env" where
  "audit_env = \<lparr>v_hash = v_hash demo_env, v_record = audit_record sample_codec (\<lambda>_. 5), v_clock = id, v_bincode = le_bincode\<rparr>"

lemma audit_env_sink: "audit_sink sample_codec audit_env"
  by (auto simp: audit_sink_def audit_env_def)

lemma audited_accepted:
  assumes laws: "codec_laws c" and env: "audit_sink c env" and inv: "audit_holds c evs a" and e: "en_payload e = Normal req" and wf: "loggable (Normal req :: 'm EntryPayload)"
    and cap: "check_metadata_cap (Event (q_event req)) = Ok ()" and new: "\<not> skips req a" and ok: "tried req a = (Ok None, st)"
  shows "\<exists>r a'. apply_entry env e a = (Ok r, a') \<and> a_rejected r = None \<and> accepted_events [e] [r] = [q_event req] \<and> i_state a' = st \<and>
    audit_holds c (evs @ [q_event req]) a' \<and>
    i_namespace_registry a' = snd (settled req False a (snd (snd (resolve_request (q_event req) (i_namespace_registry a)))))"
proof -
  obtain S items where S: "audited c (i_audit a) S items" using inv by (auto simp: audit_holds_def)
  obtain now where now: "v_record env (q_event req) (q_request_id req) (i_audit a) = audit_record c now (q_event req) (q_request_id req) (i_audit a)"
    using env by (metis audit_sink_def)
  have "item_wf (now 0, q_request_id req, Event (q_event req))" using wf by simp
  from audit_record_ok [where now = now, OF laws S this cap] have "fst (v_record env (q_event req) (q_request_id req) (i_audit a)) = Ok ()" using now by auto
  from entry_accepted [OF e new ok this]
  obtain r a' where run: "apply_entry env e a = (Ok r, a')" "\<not> a_deduplicated r" "a_rejected r = None" "i_state a' = st"
    "i_namespace_registry a' = snd (settled req False a (snd (snd (resolve_request (q_event req) (i_namespace_registry a)))))" by blast
  have acc: "accepted e r = Some req" using run(2,3) e by (simp add: accepted_def)
  have "audit_holds c (evs @ [q_event req]) a'"
    using apply_entry_audits [OF laws env inv _ run(1)] e wf acc by simp
  then show ?thesis using run acc by (auto simp: accepted_events_def)
qed

text \<open>A node that inserts a record, and one that creates and drops a namespace.\<close>

abbreviation one_entry :: "unit Entry list" where
  "one_entry \<equiv> [entry_at 1 (Normal first_request)]"

definition unrotated :: "('m, EventLogAuditSink) StateMachineInner \<Rightarrow> bool" where
  "unrotated a \<longleftrightarrow> s_rotation_bytes (i_audit a) = None \<and> s_sealed (i_audit a) = []"

lemma apply_entry_unrotated:
  assumes env: "audit_sink c env" and run: "apply_entry env e a = (Ok r, a')" and a: "unrotated a"
  shows "unrotated a'"
proof -
  have rec: "unrotated a'" if h: "audit_record c now ev rid (i_audit a) = (Ok (), i_audit a')" for now ev rid
  proof -
    obtain w where "i_audit a' = (i_audit a)\<lparr>s_writer := w\<rparr>"
      using h a by (auto simp: unrotated_def audit_record_def audit_rotate_def split: prod.splits res.splits intro: sym)
    then show ?thesis using a by (simp add: unrotated_def)
  qed
  show ?thesis
  proof (cases "accepted e r")
    case None
    then show ?thesis using apply_entry_effect [OF run] a by (simp add: entry_effect_def unrotated_def)
  next
    case (Some req)
    then have "i_audit a' = i_audit a \<or> v_record env (q_event req) (q_request_id req) (i_audit a) = (Ok (), i_audit a')"
      using apply_entry_effect [OF run] by (auto simp: entry_effect_def split: if_splits)
    then show ?thesis using rec env a unfolding audit_sink_def unrotated_def by metis
  qed
qed

lemma audit_first:
  "\<exists>r a'. sm_apply audit_env one_entry (audit_start sample_codec 0 None ()) = (Ok [r], a') \<and> a_rejected r = None \<and>
     accepted_events one_entry [r] = [first_insert] \<and> s_sealed (i_audit a') = []"
proof -
  let ?a = "audit_start sample_codec 0 None () :: (unit, EventLogAuditSink) StateMachineInner"
  let ?e = "entry_at 1 (Normal first_request) :: unit Entry"
  obtain k where k: "apply_event_ns (InsertRecord 0 [65536] None 0) 0 kernel_new = (Ok (), k)" by (simp add: kernel_eval)
  have e: "en_payload ?e = Normal first_request" "loggable (Normal first_request :: unit EntryPayload)" "q_event first_request = first_insert"
    by (simp_all add: entry_at_def first_request_def request_def)
  have new: "\<not> skips first_request ?a" "tried first_request ?a = (Ok None, k)"
    by (simp_all add: skips_def tried_def audit_start_def first_request_def request_def sm_new_def CURRENT_SCHEMA_VERSION_def
        kernel_with_dim_def first_insert_def kernel_step_def k)
  obtain r a' where run: "apply_entry audit_env ?e ?a = (Ok r, a')" "a_rejected r = None" "accepted_events [?e] [r] = [first_insert]"
    using audited_accepted [OF sample_codec_laws audit_env_sink audit_start_holds e(1,2) _ new] e(3) by auto
  have "unrotated ?a" by (simp add: unrotated_def audit_start_def sm_new_def)
  then have "s_sealed (i_audit a') = []" using apply_entry_unrotated [OF audit_env_sink run(1)] by (simp add: unrotated_def)
  then show ?thesis using run by (simp add: sm_apply_def)
qed



abbreviation docs :: rust_string where
  "docs \<equiv> ascii ''docs''"

abbreviation drop_entries :: "unit Entry list" where
  "drop_entries \<equiv> [entry_at 1 (Normal (request None 0 (AutoCreateNamespace docs))), entry_at 2 (Normal (request None 0 (DropNamespace docs)))]"

lemma docs_loggable [simp]: "event_fits (AutoCreateNamespace docs)" "event_fits (DropNamespace docs)"
  "check_metadata_cap (Event (AutoCreateNamespace docs)) = Ok ()" "check_metadata_cap (Event (DropNamespace docs)) = Ok ()"
  by (simp_all add: event_fits_def text_ok_def ascii_def utf8_valid.simps in_range_def DECODE_LIMIT_def check_metadata_cap_def)

lemma audit_drop:
  "\<exists>r r' a'. sm_apply audit_env drop_entries (audit_start sample_codec 0 None ()) = (Ok [r, r'], a') \<and>
     accepted_events drop_entries [r, r'] = [AutoCreateNamespace docs, DropNamespace docs] \<and> s_sealed (i_audit a') = []"
proof -
  let ?a = "audit_start sample_codec 0 None () :: (unit, EventLogAuditSink) StateMachineInner"
  let ?c = "request None 0 (AutoCreateNamespace docs)" and ?d = "request None 0 (DropNamespace docs)"
  have e: "en_payload (entry_at i (Normal q) :: unit Entry) = Normal q" for i q by (simp add: entry_at_def)
  have reg: "registry_create docs registry_new = (Some 1, \<lparr>cr_map = [(docs, 1)], cr_next_id = 2\<rparr>)" "docs \<noteq> default_name"
    by (simp_all add: registry_create_def registry_new_def default_name_def ascii_def MAX_COLLECTIONS_def word_le_nat_alt)
  have new: "\<not> skips ?c a" "\<not> skips ?d a" for a :: "(unit, EventLogAuditSink) StateMachineInner"
    by (simp_all add: skips_def request_def CURRENT_SCHEMA_VERSION_def)
  have ev: "q_event ?c = AutoCreateNamespace docs" "q_event ?d = DropNamespace docs" "loggable (Normal ?c :: unit EntryPayload)"
    "loggable (Normal ?d :: unit EntryPayload)" by (simp_all add: request_def)
  have settle: "snd (settled ?c False ?a (snd (snd (resolve_request (q_event ?c) (i_namespace_registry ?a))))) = \<lparr>cr_map = [(docs, 1)], cr_next_id = 2\<rparr>"
    by (simp add: request_def settled_def audit_start_def sm_new_def reg)
  have "tried ?c ?a = (Ok None, kernel_new\<lparr>ks_version := 1\<rparr>)"
    by (simp add: tried_def request_def audit_start_def sm_new_def reg kernel_step_def kernel_with_dim_def apply_create_namespace_def kernel_eval)
  from audited_accepted [OF sample_codec_laws audit_env_sink audit_start_holds e [of 1] ev(3) _ new(1) this]
  obtain r a1 where one: "apply_entry audit_env (entry_at 1 (Normal ?c)) ?a = (Ok r, a1)" "accepted_events [entry_at 1 (Normal ?c) :: unit Entry] [r] = [AutoCreateNamespace docs]"
    "i_state a1 = kernel_new\<lparr>ks_version := 1\<rparr>" "audit_holds sample_codec [AutoCreateNamespace docs] a1"
    "i_namespace_registry a1 = \<lparr>cr_map = [(docs, 1)], cr_next_id = 2\<rparr>"
    unfolding ev(1) settle [unfolded ev(1)] by auto
  have "kernel_inv (i_state a1)" "version_ok (i_state a1)"
    using reachable_inv [OF kernel_new_reachable] one(3) by (simp_all add: kernel_inv_version version_ok_def version_next_def)
  then obtain st where "apply_event_ns (DropNamespace docs) 1 (i_state a1) = (Ok (), st)"
    using apply_drop_namespace_ok [of "i_state a1" 1] apply_event_ns_arm by (fastforce simp: finish_def max_ns_compare)
  then have "tried ?d a1 = (Ok None, st)"
    using one(5) reg(2) by (simp add: tried_def request_def registry_resolve_def kernel_step_def)
  from audited_accepted [OF sample_codec_laws audit_env_sink one(4) e [of 2] ev(4) _ new(2) this]
  obtain r' a' where two: "apply_entry audit_env (entry_at 2 (Normal ?d)) a1 = (Ok r', a')" "accepted_events [entry_at 2 (Normal ?d) :: unit Entry] [r'] = [DropNamespace docs]"
    unfolding ev(2) by auto
  have "unrotated ?a" by (simp add: unrotated_def audit_start_def sm_new_def)
  then have "s_sealed (i_audit a') = []"
    using apply_entry_unrotated [OF audit_env_sink one(1)] apply_entry_unrotated [OF audit_env_sink two(1)] by (simp add: unrotated_def)
  then show ?thesis using one two by (simp add: sm_apply_def accepted_events_def)
qed

theorem dropped_namespace_unrecoverable_witness:
  "\<exists>r r' a'. sm_apply audit_env drop_entries (audit_start sample_codec 0 None ()) = (Ok [r, r'], a') \<and>
     recover_from_event_log sample_codec [w_written (s_writer (i_audit a'))] \<noteq> Ok (i_state a', journal_new, 0)"
proof -
  obtain r r' a' where run: "sm_apply audit_env drop_entries (audit_start sample_codec 0 None ()) = (Ok [r, r'], a')"
    "accepted_events drop_entries [r, r'] = [AutoCreateNamespace docs, DropNamespace docs]" "s_sealed (i_audit a') = []"
    using audit_drop by blast
  have "\<forall>e \<in> set drop_entries. loggable (en_payload e)" by (simp add: entry_at_def request_def)
  moreover have "DropNamespace docs \<in> set (accepted_events drop_entries [r, r'])" by (simp add: run(2))
  ultimately show ?thesis
    using dropped_namespace_unrecoverable [OF sample_codec_laws audit_env_sink run(1), of docs "[w_written (s_writer (i_audit a'))]" "i_state a'" journal_new 0] run
    by auto
qed

section \<open>Oversized metadata\<close>

text \<open>C39: An update with too much metadata stops the cluster. The kernel accepts metadata of any size in an update, and the audit log refuses
  more than \<open>METADATA_CAP\<close> bytes: a committed update of an existing record beyond that size makes the state machine fail
  after the kernel has applied it, on every node that applies it outside a replay.\<close>

theorem oversize_update_halts:
  assumes env: "audit_sink c env" and e: "en_payload e = Normal req" "q_event req = UpdateRecordMetadata i (Some md)"
    and big: "length md > METADATA_CAP" and new: "\<not> skips req a" "get_record (i_state a) i = Some x" "version_ok (i_state a)"
    and live: "\<not> in_replay (idx_of e) a"
  shows "\<exists>a'. apply_entry env e a = (Err (AuditFailed (LogWire (WMetadataTooLarge (length md)))), a') \<and>
    map_option r_metadata (get_record (i_state a') i) = Some (Some md)"
proof -
  let ?a = "a\<lparr>i_last_applied := Some (en_log_id e)\<rparr>"
  define st where "st = (i_state a)\<lparr>ks_records := upd_slot (\<lambda>r. r\<lparr>r_metadata := Some md\<rparr>) i (ks_records (i_state a)), ks_version := ks_version (i_state a) + 1\<rparr>"
  have "apply_event_ns (UpdateRecordMetadata i (Some md)) (q_namespace_id req) (i_state a) = (Ok (), st)"
    using new(2,3) by (auto simp: st_def apply_event_ns_def apply_update_metadata_def pool_update_metadata_def get_record_def finish_def version_ok_def
        version_next_def split: if_splits)
  then have t: "tried req ?a = (Ok None, st)" using e(2) by (simp add: tried_def kernel_step_def)
  have rec: "get_record st i = Some (x\<lparr>r_metadata := Some md\<rparr>)" using new(2) by (simp add: st_def get_record_def slot_simps)
  obtain now where now: "v_record env (q_event req) (q_request_id req) (i_audit a) = audit_record c now (q_event req) (q_request_id req) (i_audit a)"
    using env by (metis audit_sink_def)
  have "check_metadata_cap (Event (q_event req)) = Err (WMetadataTooLarge (length md))" using big e(2) by (simp add: check_metadata_cap_def)
  then have fail: "v_record env (q_event req) (q_request_id req) (i_audit a) = (Err (LogWire (WMetadataTooLarge (length md))), i_audit a)"
    unfolding now by (simp add: audit_record_def append_with_request_id_def encode_entry_def Let_def)
  have skip: "\<not> skips req ?a" using new(1) by simp
  have audit: "i_audit (remembered req (tried_state (idx_of e) req ?a)) = i_audit a" "i_state (remembered req (tried_state (idx_of e) req ?a)) = st"
    using t by (simp_all split: option.splits)
  have "apply_request env (idx_of e) req ?a = (Err (AuditFailed (LogWire (WMetadataTooLarge (length md)))),
      (remembered req (tried_state (idx_of e) req ?a))\<lparr>i_audit := i_audit a\<rparr>)"
    unfolding apply_request_runs [OF skip] t Let_def using live fail audit by (simp add: accept_request_def Let_def split_beta)
  then show ?thesis using rec audit(2) by (simp add: apply_entry_Normal [OF e(1)])
qed

theorem oversize_update_halts_witness:
  "\<exists>a'. apply_entry audit_env (entry_at 9 (Normal (request None 1 oversize_update)) :: unit Entry) ((audit_start sample_codec 2 None ())\<lparr>i_state := demo\<rparr>)
     = (Err (AuditFailed (LogWire (WMetadataTooLarge 65537))), a') \<and> map_option r_metadata (get_record (i_state a') 0) = Some (Some oversize)"
proof -
  let ?a = "(audit_start sample_codec 2 None ())\<lparr>i_state := demo\<rparr>" and ?req = "request None 1 oversize_update"
  have e: "en_payload (entry_at 9 (Normal ?req) :: unit Entry) = Normal ?req" "q_event ?req = UpdateRecordMetadata 0 (Some oversize)" "length oversize = 65537"
    "length oversize > METADATA_CAP"
    by (simp_all add: entry_at_def request_def oversize_update_def oversize_def METADATA_CAP_def)
  obtain x where x: "get_record (i_state ?a) 0 = Some x" by (simp add: demo_def get_record_def slot_def)
  have "\<not> skips ?req ?a" "version_ok (i_state ?a)" "\<not> in_replay (idx_of (entry_at 9 (Normal ?req) :: unit Entry)) ?a"
    using demo_version by (simp_all add: skips_def request_def CURRENT_SCHEMA_VERSION_def in_replay_def audit_start_def sm_new_def)
  from oversize_update_halts [OF audit_env_sink e(1,2,4) this(1) x this(2,3)] show ?thesis by (simp add: e(3))
qed

end
