(* ===== verification/Raft_Log.thy ===== *)
theory Raft_Log
  imports Raft_State
begin

text \<open>
  \<open>valori-consensus/src/log_store.rs\<close> and \<open>log_store_redb.rs\<close>: the Raft log in memory and in a redb database. Votes and the
  order of log ids are openraft's. A redb table is an ordered map from keys to bytes; transactions either commit or change nothing, and do
  not fail.
\<close>

section \<open>The log in memory\<close>

record ('m, 'v) LogStoreInner =
  ls_log :: "(u64 \<times> 'm Entry) list"
  ls_last_purged :: "LogId option"
  ls_vote :: "'v option"
  ls_committed :: "LogId option"

definition log_store_new :: "('m, 'v) LogStoreInner" where
  "log_store_new = \<lparr>ls_log = [], ls_last_purged = None, ls_vote = None, ls_committed = None\<rparr>"

definition entry_count :: "('m, 'v) LogStoreInner \<Rightarrow> nat" where
  "entry_count s = length (ls_log s)"

text \<open>Ranges of indexes; a range that ends before it starts is a panic of \<open>BTreeMap\<close>.\<close>

datatype Bound = Included u64 | Excluded u64 | Unbounded

fun in_bounds :: "Bound \<times> Bound \<Rightarrow> u64 \<Rightarrow> bool" where
  "in_bounds (lower, upper) i \<longleftrightarrow>
     (case lower of Included a \<Rightarrow> a \<le> i | Excluded a \<Rightarrow> a < i | Unbounded \<Rightarrow> True) \<and>
     (case upper of Included b \<Rightarrow> i \<le> b | Excluded b \<Rightarrow> i < b | Unbounded \<Rightarrow> True)"

fun range_ok :: "Bound \<times> Bound \<Rightarrow> bool" where
  "range_ok (Included a, Included b) \<longleftrightarrow> a \<le> b"
| "range_ok (Included a, Excluded b) \<longleftrightarrow> a \<le> b"
| "range_ok (Excluded a, Included b) \<longleftrightarrow> a \<le> b"
| "range_ok (Excluded a, Excluded b) \<longleftrightarrow> a < b"
| "range_ok _ \<longleftrightarrow> True"

definition try_get_log_entries :: "Bound \<times> Bound \<Rightarrow> ('m, 'v) LogStoreInner \<Rightarrow> (unit, 'm Entry list) res" where
  "try_get_log_entries r s =
     (if range_ok r then Ok (map snd (filter (\<lambda>p. in_bounds r (fst p)) (ls_log s))) else Panic)"

record LogState =
  lo_last_purged_log_id :: "LogId option"
  lo_last_log_id :: "LogId option"

definition get_log_state :: "('m, 'v) LogStoreInner \<Rightarrow> LogState" where
  "get_log_state s =
     \<lparr>lo_last_purged_log_id = ls_last_purged s,
      lo_last_log_id = (if ls_log s = [] then ls_last_purged s else Some (en_log_id (snd (last (ls_log s)))))\<rparr>"

definition save_vote :: "'v \<Rightarrow> ('m, 'v) LogStoreInner \<Rightarrow> ('m, 'v) LogStoreInner" where
  "save_vote v s = s\<lparr>ls_vote := Some v\<rparr>"

definition read_vote :: "('m, 'v) LogStoreInner \<Rightarrow> 'v option" where
  "read_vote s = ls_vote s"

definition save_committed :: "LogId option \<Rightarrow> ('m, 'v) LogStoreInner \<Rightarrow> ('m, 'v) LogStoreInner" where
  "save_committed c s = s\<lparr>ls_committed := c\<rparr>"

definition read_committed :: "('m, 'v) LogStoreInner \<Rightarrow> LogId option" where
  "read_committed s = ls_committed s"

definition append_entries :: "'m Entry list \<Rightarrow> ('m, 'v) LogStoreInner \<Rightarrow> ('m, 'v) LogStoreInner" where
  "append_entries es s = s\<lparr>ls_log := fold (\<lambda>e. btree_insert (l_index (en_log_id e)) e) es (ls_log s)\<rparr>"

text \<open>\<open>split_off\<close> removes the keys from the given one on.\<close>

definition truncate_log :: "LogId \<Rightarrow> ('m, 'v) LogStoreInner \<Rightarrow> ('m, 'v) LogStoreInner" where
  "truncate_log l s = s\<lparr>ls_log := filter (\<lambda>p. fst p < l_index l) (ls_log s)\<rparr>"

definition purge_log :: "(LogId \<Rightarrow> LogId \<Rightarrow> bool) \<Rightarrow> LogId \<Rightarrow> ('m, 'v) LogStoreInner \<Rightarrow> ('m, 'v) LogStoreInner" where
  "purge_log lt l s =
     s\<lparr>ls_last_purged := (if (case ls_last_purged s of None \<Rightarrow> True | Some p \<Rightarrow> lt p l) then Some l else ls_last_purged s),
       ls_log := filter (\<lambda>p. l_index l + 1 \<le> fst p) (ls_log s)\<rparr>"

section \<open>The log in a database\<close>

datatype RedbError = CodecError

record redb =
  rd_logs :: "(u64 \<times> bytes) list"
  rd_meta :: "string \<Rightarrow> bytes option"

text \<open>The serialisation of entries, votes and log ids.\<close>

record ('m, 'v) redb_codec =
  rc_enc_entry :: "'m Entry \<Rightarrow> bytes option"
  rc_dec_entry :: "bytes \<Rightarrow> 'm Entry option"
  rc_enc_vote :: "'v \<Rightarrow> bytes option"
  rc_dec_vote :: "bytes \<Rightarrow> 'v option"
  rc_enc_opt_id :: "LogId option \<Rightarrow> bytes option"
  rc_dec_opt_id :: "bytes \<Rightarrow> LogId option option"
  rc_enc_id :: "LogId \<Rightarrow> bytes option"
  rc_dec_id :: "bytes \<Rightarrow> LogId option"

definition KEY_VOTE :: string where "KEY_VOTE = ''vote''"
definition KEY_COMMITTED :: string where "KEY_COMMITTED = ''committed''"
definition KEY_LAST_PURGED :: string where "KEY_LAST_PURGED = ''last_purged''"

definition redb_open :: redb where
  "redb_open = \<lparr>rd_logs = [], rd_meta = Map.empty\<rparr>"

definition read_meta :: "(bytes \<Rightarrow> 'a option) \<Rightarrow> string \<Rightarrow> redb \<Rightarrow> (RedbError, 'a option) res" where
  "read_meta dec key s =
     (case rd_meta s key of
        None \<Rightarrow> Ok None
      | Some bs \<Rightarrow> (case dec bs of Some v \<Rightarrow> Ok (Some v) | None \<Rightarrow> Err CodecError))"

definition write_meta :: "('a \<Rightarrow> bytes option) \<Rightarrow> string \<Rightarrow> 'a \<Rightarrow> redb \<Rightarrow> (RedbError, unit) res \<times> redb" where
  "write_meta enc key v s =
     (case enc v of Some bs \<Rightarrow> (Ok (), s\<lparr>rd_meta := (rd_meta s)(key \<mapsto> bs)\<rparr>) | None \<Rightarrow> (Err CodecError, s))"

definition redb_entry_count :: "redb \<Rightarrow> nat" where
  "redb_entry_count s = length (rd_logs s)"

fun decode_all :: "(bytes \<Rightarrow> 'a option) \<Rightarrow> bytes list \<Rightarrow> (RedbError, 'a list) res" where
  "decode_all dec [] = Ok []"
| "decode_all dec (bs # bss) =
     (case dec bs of None \<Rightarrow> Err CodecError | Some x \<Rightarrow> res_bind (decode_all dec bss) (\<lambda>xs. Ok (x # xs)))"

definition redb_try_get_log_entries :: "('m, 'v) redb_codec \<Rightarrow> Bound \<times> Bound \<Rightarrow> redb \<Rightarrow> (RedbError, 'm Entry list) res" where
  "redb_try_get_log_entries c r s = decode_all (rc_dec_entry c) (map snd (filter (\<lambda>p. in_bounds r (fst p)) (rd_logs s)))"

definition redb_get_log_state :: "('m, 'v) redb_codec \<Rightarrow> redb \<Rightarrow> (RedbError, LogState) res" where
  "redb_get_log_state c s =
     res_bind (read_meta (rc_dec_id c) KEY_LAST_PURGED s) (\<lambda>last_purged.
     if rd_logs s = [] then Ok \<lparr>lo_last_purged_log_id = last_purged, lo_last_log_id = last_purged\<rparr>
     else case rc_dec_entry c (snd (last (rd_logs s))) of
         Some entry \<Rightarrow> Ok \<lparr>lo_last_purged_log_id = last_purged, lo_last_log_id = Some (en_log_id entry)\<rparr>
       | None \<Rightarrow> Err CodecError)"

definition redb_save_vote :: "('m, 'v) redb_codec \<Rightarrow> 'v \<Rightarrow> redb \<Rightarrow> (RedbError, unit) res \<times> redb" where
  "redb_save_vote c v s = write_meta (rc_enc_vote c) KEY_VOTE v s"

definition redb_read_vote :: "('m, 'v) redb_codec \<Rightarrow> redb \<Rightarrow> (RedbError, 'v option) res" where
  "redb_read_vote c s = read_meta (rc_dec_vote c) KEY_VOTE s"

definition redb_save_committed :: "('m, 'v) redb_codec \<Rightarrow> LogId option \<Rightarrow> redb \<Rightarrow> (RedbError, unit) res \<times> redb" where
  "redb_save_committed c committed s = write_meta (rc_enc_opt_id c) KEY_COMMITTED committed s"

definition redb_read_committed :: "('m, 'v) redb_codec \<Rightarrow> redb \<Rightarrow> (RedbError, LogId option) res" where
  "redb_read_committed c s =
     res_bind (read_meta (rc_dec_opt_id c) KEY_COMMITTED s) (\<lambda>x. Ok (case x of Some y \<Rightarrow> y | None \<Rightarrow> None))"

fun insert_entries :: "('m, 'v) redb_codec \<Rightarrow> 'm Entry list \<Rightarrow> (u64 \<times> bytes) list \<Rightarrow> (u64 \<times> bytes) list option" where
  "insert_entries c [] t = Some t"
| "insert_entries c (e # es) t =
     (case rc_enc_entry c e of None \<Rightarrow> None | Some bs \<Rightarrow> insert_entries c es (btree_insert (l_index (en_log_id e)) bs t))"

definition redb_append :: "('m, 'v) redb_codec \<Rightarrow> 'm Entry list \<Rightarrow> redb \<Rightarrow> (RedbError, unit) res \<times> redb" where
  "redb_append c es s =
     (case insert_entries c es (rd_logs s) of Some t \<Rightarrow> (Ok (), s\<lparr>rd_logs := t\<rparr>) | None \<Rightarrow> (Err CodecError, s))"

definition redb_truncate :: "LogId \<Rightarrow> redb \<Rightarrow> redb" where
  "redb_truncate l s = s\<lparr>rd_logs := filter (\<lambda>p. fst p < l_index l) (rd_logs s)\<rparr>"

definition redb_purge :: "('m, 'v) redb_codec \<Rightarrow> (LogId \<Rightarrow> LogId \<Rightarrow> bool) \<Rightarrow> LogId \<Rightarrow> redb \<Rightarrow> (RedbError, unit) res \<times> redb" where
  "redb_purge c lt l s =
     (case read_meta (rc_dec_id c) KEY_LAST_PURGED s of
        Ok current \<Rightarrow>
          (let flr = (case current of None \<Rightarrow> l | Some p \<Rightarrow> if lt p l then l else p) in
           case rc_enc_id c flr of
             Some bs \<Rightarrow> (Ok (), s\<lparr>rd_meta := (rd_meta s)(KEY_LAST_PURGED \<mapsto> bs), rd_logs := filter (\<lambda>p. l_index l < fst p) (rd_logs s)\<rparr>)
           | None \<Rightarrow> (Err CodecError, s))
      | Err e \<Rightarrow> (Err e, s) | Panic \<Rightarrow> (Panic, s) | Diverges \<Rightarrow> (Diverges, s))"

section \<open>The contract of a log store\<close>

text \<open>The entries of one interval of indexes.\<close>

definition log_holds :: "(u64 \<Rightarrow> 'm Entry option) \<Rightarrow> nat \<Rightarrow> 'm Entry list \<Rightarrow> bool" where
  "log_holds at n es \<longleftrightarrow> n + length es \<le> 2 ^ 64 \<and> (\<forall>i. at i = (if n \<le> unat i \<and> unat i < n + length es then Some (es ! (unat i - n)) else None)) \<and>
     (\<forall>k < length es. unat (l_index (en_log_id (es ! k))) = n + k)"

lemma find_indexed:
  assumes "\<forall>k < length es. unat (l_index (en_log_id (es ! k))) = n + k"
  shows "find (\<lambda>e. l_index (en_log_id e) = i) (rev es) = (if n \<le> unat i \<and> unat i < n + length es then Some (es ! (unat i - n)) else None)"
  using assms
proof (induction es rule: rev_induct)
  case (snoc e es)
  have e: "unat (l_index (en_log_id e)) = n + length es" using snoc.prems by (metis length_append_singleton lessI nth_append_length)
  have "\<forall>k < length es. unat (l_index (en_log_id (es ! k))) = n + k" using snoc.prems
    by (metis butlast_snoc length_append_singleton less_SucI nth_butlast)
  from snoc.IH [OF this] e show ?case by (auto simp: nth_append word_unat_eq_iff)
qed simp

text \<open>
  What openraft relies on, by the entry found at each index: appended entries are found, truncation removes the entries at and after an index,
  purging those up to an index, and the last log id is that of the entry with the greatest index or of the last purged one.
\<close>

locale raft_log_store =
  fixes inv :: "'s \<Rightarrow> bool" and look :: "'s \<Rightarrow> u64 \<Rightarrow> 'm Entry option" and purged :: "'s \<Rightarrow> LogId option" and last_id :: "'s \<Rightarrow> LogId option"
    and add :: "'m Entry list \<Rightarrow> 's \<Rightarrow> 's" and cut :: "LogId \<Rightarrow> 's \<Rightarrow> 's" and purge :: "LogId \<Rightarrow> 's \<Rightarrow> 's"
    and okay :: "'m Entry \<Rightarrow> bool"
  assumes inv_add: "inv s \<Longrightarrow> \<forall>e \<in> set es. okay e \<Longrightarrow> inv (add es s)"
    and inv_cut: "inv s \<Longrightarrow> inv (cut l s)" and inv_purge: "inv s \<Longrightarrow> l_index l \<noteq> - 1 \<Longrightarrow> inv (purge l s)"
    and look_add: "inv s \<Longrightarrow> \<forall>e \<in> set es. okay e \<Longrightarrow> look (add es s) i = (case find (\<lambda>e. l_index (en_log_id e) = i) (rev es) of Some e \<Rightarrow> Some e | None \<Rightarrow> look s i)"
    and look_cut: "inv s \<Longrightarrow> look (cut l s) i = (if i < l_index l then look s i else None)"
    and look_purge: "inv s \<Longrightarrow> l_index l \<noteq> - 1 \<Longrightarrow> look (purge l s) i = (if l_index l < i then look s i else None)"
    and last_some: "inv s \<Longrightarrow> look s i = Some e \<Longrightarrow> (\<And>j. look s j \<noteq> None \<Longrightarrow> j \<le> i) \<Longrightarrow> last_id s = Some (en_log_id e)"
    and last_none: "inv s \<Longrightarrow> (\<And>j. look s j = None) \<Longrightarrow> last_id s = purged s"
begin

lemma holds_add:
  assumes "inv s" "log_holds (look s) n es" "\<forall>k < length new. unat (l_index (en_log_id (new ! k))) = n + length es + k"
    "n + length es + length new \<le> 2 ^ 64" "\<forall>e \<in> set new. okay e"
  shows "log_holds (look (add new s)) n (es @ new)"
proof -
  have "look (add new s) i = (if n \<le> unat i \<and> unat i < n + length (es @ new) then Some ((es @ new) ! (unat i - n)) else None)" for i
    using assms look_add [OF assms(1,5), of i] find_indexed [OF assms(3), of i] by (auto simp: log_holds_def nth_append)
  then show ?thesis using assms by (auto simp: log_holds_def nth_append)
qed

lemma holds_cut:
  assumes "inv s" "log_holds (look s) n es" "n \<le> unat (l_index l)" "unat (l_index l) \<le> n + length es"
  shows "log_holds (look (cut l s)) n (take (unat (l_index l) - n) es)"
  using assms look_cut by (auto simp: log_holds_def word_less_nat_alt)

lemma holds_purge:
  assumes "inv s" "log_holds (look s) n es" "n \<le> unat (l_index l)" "unat (l_index l) < n + length es" "l_index l \<noteq> - 1"
  shows "log_holds (look (purge l s)) (Suc (unat (l_index l))) (drop (Suc (unat (l_index l)) - n) es)"
proof -
  let ?m = "Suc (unat (l_index l))"
  have "look (purge l s) i = (if ?m \<le> unat i \<and> unat i < ?m + length (drop (?m - n) es) then Some (drop (?m - n) es ! (unat i - ?m)) else None)" for i
    using assms look_purge [of s l i] by (auto simp: log_holds_def word_less_nat_alt)
  then show ?thesis using assms by (auto simp: log_holds_def)
qed

lemma holds_last:
  assumes "inv s" "log_holds (look s) n es"
  shows "last_id s = (if es = [] then purged s else Some (en_log_id (last es)))"
proof (cases "es = []")
  case False
  let ?i = "l_index (en_log_id (last es))"
  have i: "unat ?i = n + (length es - 1)" "length es \<noteq> 0" using assms False by (simp_all add: log_holds_def last_conv_nth)
  then have "look s ?i = Some (last es)" using assms False by (auto simp: log_holds_def last_conv_nth)
  moreover have "j \<le> ?i" if "look s j \<noteq> None" for j
    using that assms i by (auto simp: log_holds_def word_le_nat_alt split: if_splits)
  ultimately show ?thesis using last_some [of s ?i "last es"] assms False by simp
qed (use assms last_none in \<open>simp add: log_holds_def\<close>)

text \<open>A leader change: the entries from a conflicting index on are replaced.\<close>

lemma conflict_resolved:
  assumes "inv s" "log_holds (look s) n es" "n \<le> unat (l_index l)" "unat (l_index l) \<le> n + length es"
    "\<forall>k < length new. unat (l_index (en_log_id (new ! k))) = unat (l_index l) + k" "unat (l_index l) + length new \<le> 2 ^ 64"
    "\<forall>e \<in> set new. okay e"
  shows "log_holds (look (add new (cut l s))) n (take (unat (l_index l) - n) es @ new)"
proof -
  have "n + length (take (unat (l_index l) - n) es) = unat (l_index l)" using assms(3,4) by simp
  then show ?thesis using holds_add [OF inv_cut [OF assms(1)] holds_cut [OF assms(1-4)], of new] assms(5-7) by (simp add: add.assoc)
qed

end

section \<open>The log in memory keeps it\<close>

abbreviation held :: "('m, 'v) LogStoreInner \<Rightarrow> u64 \<Rightarrow> 'm Entry option" where
  "held s \<equiv> map_of (ls_log s)"

lemma fold_insert_ok: "btree_ok m \<Longrightarrow> btree_ok (fold (\<lambda>e. btree_insert (f e) (g e)) es m)"
  by (induction es arbitrary: m) simp_all

lemma map_of_fold_insert:
  "btree_ok m \<Longrightarrow> map_of (fold (\<lambda>e. btree_insert (f e) (g e)) es m) i = (case find (\<lambda>e. f e = i) (rev es) of Some e \<Rightarrow> Some (g e) | None \<Rightarrow> map_of m i)"
proof (induction es arbitrary: m rule: rev_induct)
  case (snoc e es)
  then show ?case using fold_insert_ok [OF snoc.prems, of f g es] by (auto simp: map_of_btree_insert split: option.splits)
qed simp

lemma less_plus_one: "l \<noteq> - 1 \<Longrightarrow> l + 1 \<le> i \<longleftrightarrow> l < (i :: u64)"
proof -
  assume l: "l \<noteq> - 1"
  then have "1 + l \<noteq> 0" by (metis add.commute add_eq_0_iff)
  then have "unat (l + 1) = unat l + 1" using unatSuc [of l] by (simp add: add.commute)
  then show ?thesis by (auto simp: word_le_nat_alt word_less_nat_alt)
qed

lemmas keys_below = btree_filter_ok [where P = "\<lambda>k. k < c" for c] map_of_filter_keys [where P = "\<lambda>k. k < c" for c]

interpretation mem: raft_log_store "\<lambda>s. btree_ok (ls_log s)" held ls_last_purged "\<lambda>s. lo_last_log_id (get_log_state s)"
  append_entries truncate_log "purge_log lt" "\<lambda>_. True" for lt
proof
  fix s :: "('m, 'v) LogStoreInner" and i e
  assume ok: "btree_ok (ls_log s)" and at: "held s i = Some e" and top: "\<And>j. held s j \<noteq> None \<Longrightarrow> j \<le> i"
  have ne: "ls_log s \<noteq> []" using at by auto
  have "fst (last (ls_log s)) \<le> i" using top btree_last_value [OF ok ne] by (metis option.distinct(1))
  moreover have "i \<le> fst (last (ls_log s))" using btree_last_key [OF ok ne] at by auto
  ultimately have "snd (last (ls_log s)) = e" using btree_last_value [OF ok ne] at by simp
  then show "lo_last_log_id (get_log_state s) = Some (en_log_id e)" using ne by (simp add: get_log_state_def)
next
  fix s :: "('m, 'v) LogStoreInner"
  assume "\<And>j. held s j = None"
  then have "ls_log s = []" by (cases "ls_log s") (auto, metis option.distinct(1))
  then show "lo_last_log_id (get_log_state s) = ls_last_purged s" by (simp add: get_log_state_def)
qed (simp_all add: append_entries_def truncate_log_def purge_log_def fold_insert_ok btree_filter_ok map_of_fold_insert map_of_filter_keys less_plus_one keys_below)

text \<open>Purging at the greatest index wraps around and removes nothing.\<close>

lemma purge_at_max: "l_index l = - 1 \<Longrightarrow> ls_log (purge_log lt l s) = ls_log s"
  by (simp add: purge_log_def)

section \<open>The log in a database keeps it\<close>

text \<open>The entries whose serialisation can be read back, and the laws of the codec.\<close>

definition storable :: "'m Entry \<Rightarrow> bool" where
  "storable e \<longleftrightarrow> (case en_payload e of Normal req \<Rightarrow> event_wf (q_event req) \<and> (case q_request_id req of Some i \<Rightarrow> length i = 16 | None \<Rightarrow> True) | _ \<Rightarrow> True)"

definition inverts :: "('a \<Rightarrow> bytes option) \<Rightarrow> (bytes \<Rightarrow> 'a option) \<Rightarrow> 'a \<Rightarrow> bool" where
  "inverts enc dec x \<longleftrightarrow> (\<exists>bs. enc x = Some bs \<and> dec bs = Some x)"

definition redb_laws :: "('m, 'v) redb_codec \<Rightarrow> bool" where
  "redb_laws c \<longleftrightarrow> (\<forall>e. storable e \<longrightarrow> inverts (rc_enc_entry c) (rc_dec_entry c) e) \<and> (\<forall>v. inverts (rc_enc_vote c) (rc_dec_vote c) v) \<and>
     (\<forall>x. inverts (rc_enc_opt_id c) (rc_dec_opt_id c) x) \<and> (\<forall>l. inverts (rc_enc_id c) (rc_dec_id c) l)"

definition enc_of :: "('m, 'v) redb_codec \<Rightarrow> 'm Entry \<Rightarrow> bytes" where
  "enc_of c e = the (rc_enc_entry c e)"

lemma enc_of: "redb_laws c \<Longrightarrow> storable e \<Longrightarrow> rc_enc_entry c e = Some (enc_of c e) \<and> rc_dec_entry c (enc_of c e) = Some e"
  by (auto simp: redb_laws_def inverts_def enc_of_def)

text \<open>A database that stores what a log in memory holds.\<close>

definition stores :: "('m, 'v) redb_codec \<Rightarrow> ('m, 'v) LogStoreInner \<Rightarrow> redb \<Rightarrow> bool" where
  "stores c m d \<longleftrightarrow> rd_logs d = map (map_prod id (enc_of c)) (ls_log m) \<and> (\<forall>e \<in> snd ` set (ls_log m). storable e) \<and>
     read_meta (rc_dec_id c) KEY_LAST_PURGED d = Ok (ls_last_purged m) \<and> redb_read_vote c d = Ok (ls_vote m) \<and> redb_read_committed c d = Ok (ls_committed m)"

lemma stores_open: "stores c log_store_new redb_open"
  by (simp add: stores_def log_store_new_def redb_open_def read_meta_def redb_read_vote_def redb_read_committed_def)

datatype ('m, 'v) log_op = Append "'m Entry list" | Truncate LogId | Purge LogId | SaveVote 'v | SaveCommitted "LogId option"

fun mem_op :: "(LogId \<Rightarrow> LogId \<Rightarrow> bool) \<Rightarrow> ('m, 'v) log_op \<Rightarrow> ('m, 'v) LogStoreInner \<Rightarrow> ('m, 'v) LogStoreInner" where
  "mem_op lt (Append es) s = append_entries es s"
| "mem_op lt (Truncate l) s = truncate_log l s"
| "mem_op lt (Purge l) s = purge_log lt l s"
| "mem_op lt (SaveVote v) s = save_vote v s"
| "mem_op lt (SaveCommitted x) s = save_committed x s"

fun redb_op :: "('m, 'v) redb_codec \<Rightarrow> (LogId \<Rightarrow> LogId \<Rightarrow> bool) \<Rightarrow> ('m, 'v) log_op \<Rightarrow> redb \<Rightarrow> (RedbError, unit) res \<times> redb" where
  "redb_op c lt (Append es) s = redb_append c es s"
| "redb_op c lt (Truncate l) s = (Ok (), redb_truncate l s)"
| "redb_op c lt (Purge l) s = redb_purge c lt l s"
| "redb_op c lt (SaveVote v) s = redb_save_vote c v s"
| "redb_op c lt (SaveCommitted x) s = redb_save_committed c x s"

fun op_ok :: "('m, 'v) log_op \<Rightarrow> bool" where
  "op_ok (Append es) \<longleftrightarrow> (\<forall>e \<in> set es. storable e)"
| "op_ok (Purge l) \<longleftrightarrow> l_index l \<noteq> - 1"
| "op_ok _ \<longleftrightarrow> True"

lemma keys_distinct [simp]: "KEY_VOTE \<noteq> KEY_COMMITTED" "KEY_VOTE \<noteq> KEY_LAST_PURGED" "KEY_COMMITTED \<noteq> KEY_LAST_PURGED"
  "KEY_COMMITTED \<noteq> KEY_VOTE" "KEY_LAST_PURGED \<noteq> KEY_VOTE" "KEY_LAST_PURGED \<noteq> KEY_COMMITTED"
  by (simp_all add: KEY_VOTE_def KEY_COMMITTED_def KEY_LAST_PURGED_def)

lemma insert_entries_stored:
  assumes "redb_laws c"
  shows "\<forall>e \<in> set es. storable e \<Longrightarrow> insert_entries c es (map (map_prod id (enc_of c)) m) =
    Some (map (map_prod id (enc_of c)) (fold (\<lambda>e. btree_insert (l_index (en_log_id e)) e) es m))"
  by (induction es arbitrary: m) (simp_all add: enc_of [OF assms] flip: btree_insert_map)

lemma values_of_insert: "snd ` set (btree_insert k v m) \<subseteq> insert v (snd ` set m)"
  by (induction k v m rule: btree_insert.induct) auto

lemma values_of_fold: "snd ` set (fold (\<lambda>e. btree_insert (f e) e) es m) \<subseteq> set es \<union> snd ` set m"
proof (induction es arbitrary: m)
  case (Cons e es)
  show ?case using Cons [of "btree_insert (f e) e m"] values_of_insert [of "f e" e m] by auto
qed simp

lemma op_stores:
  assumes laws: "redb_laws c" and s: "stores c m d" and ok: "op_ok opn"
  shows "\<exists>d'. redb_op c lt opn d = (Ok (), d') \<and> stores c (mem_op lt opn m) d'"
proof (cases opn)
  case (Append es)
  then have "insert_entries c es (rd_logs d) = Some (map (map_prod id (enc_of c)) (ls_log (append_entries es m)))"
    using insert_entries_stored [OF laws, of es "ls_log m"] ok s by (simp add: stores_def append_entries_def)
  moreover have "\<forall>e \<in> set es \<union> snd ` set (ls_log m). storable e" using ok s Append by (auto simp: stores_def)
  then have "\<forall>e \<in> snd ` set (ls_log (append_entries es m)). storable e"
    using values_of_fold [of "\<lambda>e. l_index (en_log_id e)" es "ls_log m"] by (simp add: append_entries_def) blast
  ultimately show ?thesis
    using s Append by (simp add: stores_def redb_append_def append_entries_def read_meta_def redb_read_vote_def redb_read_committed_def)
next
  case (Truncate l)
  then show ?thesis
    using s by (auto simp: stores_def redb_truncate_def truncate_log_def read_meta_def redb_read_vote_def redb_read_committed_def filter_map comp_def)
next
  case (Purge l)
  define flr where "flr = (case ls_last_purged m of None \<Rightarrow> l | Some p \<Rightarrow> if lt p l then l else p)"
  obtain bs where bs: "rc_enc_id c flr = Some bs" "rc_dec_id c bs = Some flr" using laws unfolding redb_laws_def inverts_def by blast
  have "(if case ls_last_purged m of None \<Rightarrow> True | Some p \<Rightarrow> lt p l then Some l else ls_last_purged m) = Some flr"
    by (auto simp: flr_def split: option.splits)
  moreover have "l_index l + 1 \<le> i \<longleftrightarrow> l_index l < i" for i using ok Purge by (simp add: less_plus_one)
  ultimately show ?thesis
    using s Purge bs by (auto simp: stores_def redb_purge_def purge_log_def flr_def [symmetric] read_meta_def redb_read_vote_def redb_read_committed_def
        filter_map comp_def Let_def)
next
  case (SaveVote v)
  obtain bs where "rc_enc_vote c v = Some bs" "rc_dec_vote c bs = Some v" using laws unfolding redb_laws_def inverts_def by blast
  then show ?thesis
    using s SaveVote by (auto simp: stores_def redb_save_vote_def write_meta_def save_vote_def read_meta_def redb_read_vote_def redb_read_committed_def)
next
  case (SaveCommitted x)
  obtain bs where "rc_enc_opt_id c x = Some bs" "rc_dec_opt_id c bs = Some x" using laws unfolding redb_laws_def inverts_def by blast
  then show ?thesis
    using s SaveCommitted by (auto simp: stores_def redb_save_committed_def write_meta_def save_committed_def read_meta_def redb_read_vote_def redb_read_committed_def)
qed

fun redb_ops :: "('m, 'v) redb_codec \<Rightarrow> (LogId \<Rightarrow> LogId \<Rightarrow> bool) \<Rightarrow> ('m, 'v) log_op list \<Rightarrow> redb \<Rightarrow> (RedbError, unit) res \<times> redb" where
  "redb_ops c lt [] d = (Ok (), d)"
| "redb_ops c lt (x # xs) d = (case redb_op c lt x d of (Ok _, d) \<Rightarrow> redb_ops c lt xs d | r \<Rightarrow> r)"

lemma ops_store:
  assumes laws: "redb_laws c"
  shows "stores c m d \<Longrightarrow> \<forall>x \<in> set xs. op_ok x \<Longrightarrow> \<exists>d'. redb_ops c lt xs d = (Ok (), d') \<and> stores c (fold (mem_op lt) xs m) d'"
proof (induction xs arbitrary: m d)
  case (Cons x xs)
  obtain d1 where "redb_op c lt x d = (Ok (), d1)" "stores c (mem_op lt x m) d1" using op_stores [OF laws Cons.prems(1), of x lt] Cons.prems(2) by auto
  then show ?case using Cons.IH [of "mem_op lt x m" d1] Cons.prems(2) by simp
qed simp

lemma decode_stored:
  assumes "redb_laws c" "\<forall>e \<in> snd ` set ps. storable e"
  shows "decode_all (rc_dec_entry c) (map (enc_of c \<circ> snd) ps) = Ok (map snd ps)"
  using assms(2) by (induction ps) (simp_all add: enc_of [OF assms(1)])

lemma stored_reads:
  assumes laws: "redb_laws c" and s: "stores c m d"
  shows "range_ok r \<Longrightarrow> redb_try_get_log_entries c r d = map_err (\<lambda>_. CodecError) (try_get_log_entries r m)"
    "redb_get_log_state c d = Ok (get_log_state m)" "redb_entry_count d = entry_count m"
proof -
  show "redb_try_get_log_entries c r d = map_err (\<lambda>_. CodecError) (try_get_log_entries r m)" if "range_ok r"
    using that s decode_stored [OF laws, of "filter (\<lambda>p. in_bounds r (fst p)) (ls_log m)"]
    by (auto simp: redb_try_get_log_entries_def try_get_log_entries_def stores_def filter_map comp_def)
  have "rc_dec_entry c (enc_of c (snd (last (ls_log m)))) = Some (snd (last (ls_log m)))" if "ls_log m \<noteq> []"
    using that s enc_of [OF laws] by (auto simp: stores_def)
  then show "redb_get_log_state c d = Ok (get_log_state m)"
    using s by (auto simp: redb_get_log_state_def get_log_state_def stores_def last_map)
  show "redb_entry_count d = entry_count m" using s by (simp add: redb_entry_count_def entry_count_def stores_def)
qed


text \<open>The database satisfies the contract because it stores a log that does.\<close>

definition redb_inv :: "('m, 'v) redb_codec \<Rightarrow> redb \<Rightarrow> bool" where
  "redb_inv c d \<longleftrightarrow> (\<exists>m. stores c m d \<and> btree_ok (ls_log m))"

definition redb_look :: "('m, 'v) redb_codec \<Rightarrow> redb \<Rightarrow> u64 \<Rightarrow> 'm Entry option" where
  "redb_look c d i = Option.bind (map_of (rd_logs d) i) (rc_dec_entry c)"

definition redb_state :: "('m, 'v) redb_codec \<Rightarrow> redb \<Rightarrow> LogState" where
  "redb_state c d = (case redb_get_log_state c d of Ok l \<Rightarrow> l | _ \<Rightarrow> \<lparr>lo_last_purged_log_id = None, lo_last_log_id = None\<rparr>)"

lemma map_of_stored: "map_of (map (map_prod id f) m) k = map_option f (map_of m k)"
  by (induction m) auto

lemma stored_look:
  assumes "redb_laws c" "stores c m d"
  shows "redb_look c d i = held m i"
proof (cases "held m i")
  case (Some e)
  then have "storable e" using assms(2) by (force simp: stores_def dest: map_of_SomeD)
  then show ?thesis using Some assms enc_of [OF assms(1)] by (simp add: redb_look_def stores_def map_of_stored)
qed (use assms in \<open>simp add: redb_look_def stores_def map_of_stored\<close>)

lemma redb_invE:
  assumes "redb_laws c" "redb_inv c d"
  obtains m where "stores c m d" "btree_ok (ls_log m)" "redb_look c d = held m" "redb_state c d = get_log_state m"
proof -
  obtain m where m: "stores c m d" "btree_ok (ls_log m)" using assms(2) by (auto simp: redb_inv_def)
  show thesis using that [OF m] stored_look [OF assms(1) m(1)] stored_reads(2) [OF assms(1) m(1)] by (auto simp: redb_state_def)
qed

locale redb_store =
  fixes c :: "('m, 'v) redb_codec" and lt :: "LogId \<Rightarrow> LogId \<Rightarrow> bool"
  assumes laws: "redb_laws c"
begin

lemma op_shown:
  assumes "redb_inv c d" "op_ok opn"
  obtains m where "redb_look c d = held m" "btree_ok (ls_log m)" "redb_look c (snd (redb_op c lt opn d)) = held (mem_op lt opn m)"
    "stores c (mem_op lt opn m) (snd (redb_op c lt opn d))"
proof -
  obtain m where m: "stores c m d" "btree_ok (ls_log m)" "redb_look c d = held m" "redb_state c d = get_log_state m" by (rule redb_invE [OF laws assms(1)])
  obtain d' where d': "redb_op c lt opn d = (Ok (), d')" "stores c (mem_op lt opn m) d'" using op_stores [OF laws m(1) assms(2)] by blast
  show thesis using that [OF m(3,2)] d' stored_look [OF laws d'(2)] by auto
qed

end

sublocale redb_store \<subseteq> db: raft_log_store "redb_inv c" "redb_look c" "\<lambda>d. lo_last_purged_log_id (redb_state c d)" "\<lambda>d. lo_last_log_id (redb_state c d)"
  "\<lambda>es d. snd (redb_append c es d)" redb_truncate "\<lambda>l d. snd (redb_purge c lt l d)" storable
proof
  fix d and es :: "'m Entry list" assume d: "redb_inv c d" and es: "\<forall>e \<in> set es. storable e"
  obtain m where m: "redb_look c d = held m" "btree_ok (ls_log m)" "redb_look c (snd (redb_op c lt (Append es) d)) = held (mem_op lt (Append es) m)"
    "stores c (mem_op lt (Append es) m) (snd (redb_op c lt (Append es) d))" using op_shown [OF d, of "Append es"] es by auto
  show "redb_inv c (snd (redb_append c es d))" using m mem.inv_add [of m es] by (auto simp: redb_inv_def)
  show "redb_look c (snd (redb_append c es d)) i = (case find (\<lambda>e. l_index (en_log_id e) = i) (rev es) of Some e \<Rightarrow> Some e | None \<Rightarrow> redb_look c d i)" for i
    using m mem.look_add [of m es i] by (simp split: option.splits)
next
  fix d and l :: LogId assume d: "redb_inv c d"
  obtain m where m: "redb_look c d = held m" "btree_ok (ls_log m)" "redb_look c (snd (redb_op c lt (Truncate l) d)) = held (mem_op lt (Truncate l) m)"
    "stores c (mem_op lt (Truncate l) m) (snd (redb_op c lt (Truncate l) d))" using op_shown [OF d, of "Truncate l"] by auto
  show "redb_inv c (redb_truncate l d)" using m mem.inv_cut [of m l] by (auto simp: redb_inv_def)
  show "redb_look c (redb_truncate l d) i = (if i < l_index l then redb_look c d i else None)" for i
    using m mem.look_cut [of m l i] by simp
next
  fix d and l :: LogId assume d: "redb_inv c d" and l: "l_index l \<noteq> - 1"
  obtain m where m: "redb_look c d = held m" "btree_ok (ls_log m)" "redb_look c (snd (redb_op c lt (Purge l) d)) = held (mem_op lt (Purge l) m)"
    "stores c (mem_op lt (Purge l) m) (snd (redb_op c lt (Purge l) d))" using op_shown [OF d, of "Purge l"] l by auto
  show "redb_inv c (snd (redb_purge c lt l d))" using m mem.inv_purge [where lt = lt and s = m and l = l] l by (auto simp: redb_inv_def)
  show "redb_look c (snd (redb_purge c lt l d)) i = (if l_index l < i then redb_look c d i else None)" for i
    using m mem.look_purge [where lt = lt and s = m and l = l and i = i] l by simp
next
  fix d i e assume d: "redb_inv c d" "redb_look c d i = Some e" and top: "\<And>j. redb_look c d j \<noteq> None \<Longrightarrow> j \<le> i"
  obtain m where m: "stores c m d" "btree_ok (ls_log m)" "redb_look c d = held m" "redb_state c d = get_log_state m" by (rule redb_invE [OF laws d(1)])
  then show "lo_last_log_id (redb_state c d) = Some (en_log_id e)" using mem.last_some [of m i e] d(2) top by simp
next
  fix d assume d: "redb_inv c d" and none: "\<And>j. redb_look c d j = None"
  obtain m where m: "stores c m d" "btree_ok (ls_log m)" "redb_look c d = held m" "redb_state c d = get_log_state m" by (rule redb_invE [OF laws d])
  then have "lo_last_log_id (get_log_state m) = ls_last_purged m" using mem.last_none [of m] none by simp
  then show "lo_last_log_id (redb_state c d) = lo_last_purged_log_id (redb_state c d)" using m(4) by (simp add: get_log_state_def)
qed

section \<open>Conflicts\<close>

context redb_store
begin

lemma tail_replaced:
  assumes inv: "redb_inv c d" and old: "log_holds (redb_look c d) n es"
    and l: "n \<le> unat (l_index l)" "unat (l_index l) \<le> n + length es"
    and new: "\<forall>k < length new. unat (l_index (en_log_id (new ! k))) = unat (l_index l) + k" "unat (l_index l) + length new \<le> 2 ^ 64"
      "\<forall>e \<in> set new. storable e" "new \<noteq> []"
  shows "\<exists>d'. redb_append c new (redb_truncate l d) = (Ok (), d') \<and> log_holds (redb_look c d') n (take (unat (l_index l) - n) es @ new) \<and>
    redb_get_log_state c d' = Ok \<lparr>lo_last_purged_log_id = lo_last_purged_log_id (redb_state c d), lo_last_log_id = Some (en_log_id (last new))\<rparr>"
proof -
  obtain m where m: "stores c m d" "btree_ok (ls_log m)" "redb_look c d = held m" "redb_state c d = get_log_state m" by (rule redb_invE [OF laws inv])
  let ?t = "redb_truncate l d"
  have "stores c (truncate_log l m) ?t" using op_stores [OF laws m(1), of "Truncate l"] by simp
  then obtain d' where d': "redb_append c new ?t = (Ok (), d')" "stores c (append_entries new (truncate_log l m)) d'"
    using op_stores [OF laws, of _ _ "Append new"] new(3) by fastforce
  have inv': "redb_inv c d'" using db.inv_add [OF db.inv_cut [OF inv, of l] new(3)] d'(1) by simp
  have holds: "log_holds (redb_look c d') n (take (unat (l_index l) - n) es @ new)"
    using db.conflict_resolved [OF inv old l new(1,2,3)] d'(1) by simp
  have "redb_get_log_state c d' = Ok (redb_state c d')" using stored_reads(2) [OF laws d'(2)] by (simp add: redb_state_def)
  moreover have "lo_last_purged_log_id (redb_state c d') = lo_last_purged_log_id (redb_state c d)"
    using stored_reads(2) [OF laws d'(2)] m(4) by (simp add: redb_state_def get_log_state_def append_entries_def truncate_log_def)
  moreover have "lo_last_log_id (redb_state c d') = Some (en_log_id (last new))"
    using db.holds_last [OF inv' holds] new(4) by simp
  ultimately show ?thesis using d'(1) holds by (intro exI [of _ d']) (simp add: LogState.equality)
qed

end

text \<open>A conflicting tail of the persistent log is replaced. When a database holds the entries of an interval of indexes, truncating it at an index
  of the interval and appending new entries from there on leaves exactly the old entries before the index followed by the new
  ones, and the last log id is that of the last of them.\<close>

theorem conflicting_tail_replaced:
  assumes laws: "redb_laws c" and inv: "redb_inv c d" and old: "log_holds (redb_look c d) n es"
    and l: "n \<le> unat (l_index l)" "unat (l_index l) \<le> n + length es"
    and new: "\<forall>k < length new. unat (l_index (en_log_id (new ! k))) = unat (l_index l) + k" "unat (l_index l) + length new \<le> 2 ^ 64"
      "\<forall>e \<in> set new. storable e" "new \<noteq> []"
  shows "\<exists>d'. redb_append c new (redb_truncate l d) = (Ok (), d') \<and> log_holds (redb_look c d') n (take (unat (l_index l) - n) es @ new) \<and>
    redb_get_log_state c d' = Ok \<lparr>lo_last_purged_log_id = lo_last_purged_log_id (redb_state c d), lo_last_log_id = Some (en_log_id (last new))\<rparr>"
  by (rule redb_store.tail_replaced [OF redb_store.intro [OF laws] inv old l new])

section \<open>A concrete codec\<close>

text \<open>The fields in the order of the structs, for a cluster whose memberships carry nothing and whose votes are terms.\<close>

definition enc_log_id :: "LogId \<Rightarrow> bytes" where
  "enc_log_id l = le64 (fst (l_leader l)) @ le64 (snd (l_leader l)) @ le64 (l_index l)"

definition dec_log_id :: "LogId decoder" where
  "dec_log_id bs =
     do { (t, bs) \<leftarrow> dec_u64 le_bincode bs; (n, bs) \<leftarrow> dec_u64 le_bincode bs; (i, bs) \<leftarrow> dec_u64 le_bincode bs;
          Some (\<lparr>l_leader = (t, n), l_index = i\<rparr>, bs) }"

definition enc_request :: "ClientRequest \<Rightarrow> bytes" where
  "enc_request q = encode_event le_bincode (q_event q) @ enc_option le_bincode (enc_key le_bincode) (q_request_id q) @
     [q_schema_version q] @ le16 (q_namespace_id q)"

definition dec_request :: "ClientRequest decoder" where
  "dec_request bs =
     do { (e, bs) \<leftarrow> decode_event le_bincode bs; (rid, bs) \<leftarrow> dec_option le_bincode (dec_key le_bincode) bs;
          (v, bs) \<leftarrow> dec_u8 le_bincode bs; (ns, bs) \<leftarrow> dec_u16 le_bincode bs;
          Some (\<lparr>q_event = e, q_request_id = rid, q_schema_version = v, q_namespace_id = ns\<rparr>, bs) }"

fun enc_entry_payload :: "unit EntryPayload \<Rightarrow> bytes" where
  "enc_entry_payload Blank = [0]"
| "enc_entry_payload (Membership _) = [1]"
| "enc_entry_payload (Normal q) = 2 # enc_request q"

definition dec_entry_payload :: "unit EntryPayload decoder" where
  "dec_entry_payload bs =
     do { (v, bs) \<leftarrow> dec_u8 le_bincode bs;
          if v = 0 then Some (Blank, bs) else if v = 1 then Some (Membership (), bs)
          else do { (q, bs) \<leftarrow> dec_request bs; Some (Normal q, bs) } }"

definition sample_redb :: "(unit, u64) redb_codec" where
  "sample_redb =
     \<lparr>rc_enc_entry = (\<lambda>e. Some (enc_log_id (en_log_id e) @ enc_entry_payload (en_payload e))),
      rc_dec_entry = (\<lambda>bs. do { (l, bs) \<leftarrow> dec_log_id bs; (p, _) \<leftarrow> dec_entry_payload bs; Some \<lparr>en_log_id = l, en_payload = p\<rparr> }),
      rc_enc_vote = (\<lambda>v. Some (le64 v)), rc_dec_vote = (\<lambda>bs. map_option fst (dec_u64 le_bincode bs)),
      rc_enc_opt_id = (\<lambda>x. Some (enc_option le_bincode enc_log_id x)),
      rc_dec_opt_id = (\<lambda>bs. map_option fst (dec_option le_bincode dec_log_id bs)),
      rc_enc_id = (\<lambda>l. Some (enc_log_id l)), rc_dec_id = (\<lambda>bs. map_option fst (dec_log_id bs))\<rparr>"

lemma le_fields: "le64 x = enc_u64 le_bincode x" "le16 y = enc_u16 le_bincode y" "[z] = enc_u8 le_bincode z" "z # bs = enc_u8 le_bincode z @ bs"
  by (simp_all add: le_bincode_def)

lemma log_id_codec: "dec_log_id (enc_log_id l @ r) = Some (l, r)"
  by (simp add: dec_log_id_def enc_log_id_def le_fields(1) bincode_lawsD [OF le_bincode_laws])

lemma request_codec:
  assumes "event_wf (q_event q)" "case q_request_id q of Some i \<Rightarrow> length i = 16 | None \<Rightarrow> True"
  shows "dec_request (enc_request q @ r) = Some (q, r)"
proof -
  note B = le_bincode_laws
  have rid: "dec_option le_bincode (dec_key le_bincode) (enc_option le_bincode (enc_key le_bincode) (q_request_id q) @ r') = Some (q_request_id q, r')" for r'
    using assms(2) by (intro option_roundtrip [OF B] key_roundtrip [OF B]) simp
  show ?thesis
    unfolding dec_request_def enc_request_def append.assoc le_fields(2,3)
    by (simp add: event_roundtrip_aux [OF B assms(1)] rid bincode_lawsD [OF B])
qed

lemma entry_payload_codec:
  assumes "storable \<lparr>en_log_id = l, en_payload = p\<rparr>"
  shows "dec_entry_payload (enc_entry_payload p @ r) = Some (p, r)"
  using assms by (cases p) (simp_all add: dec_entry_payload_def le_fields(3,4) storable_def request_codec bincode_lawsD [OF le_bincode_laws] del: append_Cons append.append_Nil)

lemma sample_redb_laws: "redb_laws sample_redb"
  unfolding redb_laws_def inverts_def
proof (intro conjI allI impI)
  fix e :: "unit Entry" assume "storable e"
  then have "dec_entry_payload (enc_entry_payload (en_payload e) @ []) = Some (en_payload e, [])" by (intro entry_payload_codec [of "en_log_id e"]) (simp add: storable_def)
  then show "\<exists>bs. rc_enc_entry sample_redb e = Some bs \<and> rc_dec_entry sample_redb bs = Some e"
    by (simp add: sample_redb_def log_id_codec)
next
  fix x show "\<exists>bs. rc_enc_opt_id sample_redb x = Some bs \<and> rc_dec_opt_id sample_redb bs = Some x"
    using option_roundtrip [OF le_bincode_laws, of x dec_log_id enc_log_id "[]"] log_id_codec by (simp add: sample_redb_def)
next
  fix v show "\<exists>bs. rc_enc_vote sample_redb v = Some bs \<and> rc_dec_vote sample_redb bs = Some v"
    using bincode_lawsD(4) [OF le_bincode_laws, of v "[]"] by (simp add: sample_redb_def le_fields(1))
next
  fix l show "\<exists>bs. rc_enc_id sample_redb l = Some bs \<and> rc_dec_id sample_redb bs = Some l"
    using log_id_codec [of l "[]"] by (simp add: sample_redb_def)
qed

interpretation sample: redb_store sample_redb lt for lt
  by unfold_locales (rule sample_redb_laws)

abbreviation blank_at :: "u64 \<Rightarrow> u64 \<Rightarrow> unit Entry" where
  "blank_at t i \<equiv> \<lparr>en_log_id = \<lparr>l_leader = (t, 1), l_index = i\<rparr>, en_payload = Blank\<rparr>"

abbreviation index_less :: "LogId \<Rightarrow> LogId \<Rightarrow> bool" where
  "index_less a b \<equiv> l_index a < l_index b"


theorem conflicting_tail_replaced_witness:
  "\<exists>d d'. redb_append sample_redb [blank_at 1 1, blank_at 1 2] redb_open = (Ok (), d) \<and>
     redb_append sample_redb [blank_at 2 2, blank_at 2 3] (redb_truncate (en_log_id (blank_at 2 2)) d) = (Ok (), d') \<and>
     log_holds (redb_look sample_redb d') 1 [blank_at 1 1, blank_at 2 2, blank_at 2 3]"
proof -
  let ?old = "[blank_at 1 1, blank_at 1 2]" and ?new = "[blank_at 2 2, blank_at 2 3]"
  have ok: "\<forall>e \<in> set ?old. storable e" "\<forall>e \<in> set ?new. storable e" by (simp_all add: storable_def)
  obtain d where d: "redb_append sample_redb ?old redb_open = (Ok (), d)" "stores sample_redb (append_entries ?old log_store_new) d"
    using op_stores [OF sample_redb_laws stores_open, of "Append ?old"] ok(1) by auto
  have inv: "redb_inv sample_redb d"
    using d(2) mem.inv_add [of "log_store_new :: (unit, u64) LogStoreInner" ?old] by (auto simp: redb_inv_def log_store_new_def btree_ok_def)
  have "redb_inv sample_redb redb_open" using stores_open [of sample_redb] by (force simp: redb_inv_def log_store_new_def btree_ok_def)
  moreover have "log_holds (redb_look sample_redb redb_open) 1 []" by (simp add: log_holds_def redb_look_def redb_open_def)
  ultimately have "log_holds (redb_look sample_redb d) 1 ?old"
    using sample.db.holds_add [of redb_open 1 "[]" ?old] ok(1) d(1)
    by (auto simp: less_Suc_eq)
  from conflicting_tail_replaced [OF sample_redb_laws inv this, of "en_log_id (blank_at 2 2)" ?new] ok(2) d(1)
  show ?thesis by (auto simp: less_Suc_eq)
qed

end
