(* ===== verification/Verifier.thy ===== *)
theory Verifier
  imports Log_Theorems Wire_Time
begin

text \<open>
  \<open>valori-verify/src/lib.rs\<close> and \<open>main.rs\<close>: the auditor, which replays one segment file into an empty kernel while it checks the
  hash chain, and reports a verdict. Messages are the values they are formatted from, paths are left out, and the clock is an
  argument. BLAKE3 is the hash of the wire codec.
\<close>

section \<open>Replaying a segment\<close>

datatype EntrySummary = NoEntry | EntryOf LogEntry

datatype Failure =
    ChainBroken (breach_at: u64) (byte_offset: nat) (breach_time: u64) (prior_entry: EntrySummary) (computed_head: bytes) (stored_prev: bytes)
  | DecodeFailed (event_no: u64) (byte_offset: nat) (bytes_remaining: nat)
  | EntryCapExceeded u64
  | ApplyFailed (event_no: u64) (byte_offset: nat) KernelError LogEntry

record ReplayOutcome =
  o_state :: KernelState
  o_events_applied :: u64
  o_checkpoints_seen :: u64
  o_chain_head :: bytes
  o_failure :: "Failure option"

datatype VerifyError = BadHeader WireError | BadExpectedHash | ChainBreak u64 nat | Rejected u64 KernelError LogEntry

definition MAX_ENTRIES_PER_SEGMENT :: u64 where "MAX_ENTRIES_PER_SEGMENT = 10000000"

fun replay_entry :: "LogEntry \<Rightarrow> KernelState \<Rightarrow> unit kres \<times> KernelState" where
  "replay_entry (Event e) st = apply_event e st"
| "replay_entry (EventNs ns e) st = apply_event_ns e ns st"
| "replay_entry _ st = (Ok (), st)"

fun count_replayed :: "LogEntry \<Rightarrow> ReplayOutcome \<Rightarrow> ReplayOutcome" where
  "count_replayed (Checkpoint _ _ _) out = out\<lparr>o_checkpoints_seen := o_checkpoints_seen out + 1\<rparr>"
| "count_replayed (Admin _) out = out"
| "count_replayed _ out = out\<lparr>o_events_applied := o_events_applied out + 1\<rparr>"

text \<open>The loop of \<open>replay\<close>; it keeps the bytes from the current offset on. The binary, unlike the library, bounds the number of
  entries.\<close>

partial_function (option) verify_loop :: "wire_codec \<Rightarrow> u64 option \<Rightarrow> SegmentHeader \<Rightarrow> bytes \<Rightarrow> nat \<Rightarrow> EntrySummary \<Rightarrow> u64
    \<Rightarrow> ReplayOutcome \<Rightarrow> (VerifyError, ReplayOutcome) res option" where
  "verify_loop c cap header rest offset prior decoded out =
     (if rest = [] then Some (Ok out)
      else if (case cap of Some m \<Rightarrow> m \<le> decoded | None \<Rightarrow> False)
      then Some (Ok (out\<lparr>o_failure := Some (EntryCapExceeded decoded)\<rparr>))
      else case decode_entry c (h_version header) rest of
        Ok p \<Rightarrow>
          (if d_prev_hash (fst p) \<noteq> o_chain_head out
           then Some (Ok (out\<lparr>o_failure := Some (ChainBroken (o_events_applied out + 1) (h_header_len header + (offset + snd p))
                  (d_wall_time_secs (fst p)) prior (o_chain_head out) (d_prev_hash (fst p)))\<rparr>))
           else case expect (chain_advance c (h_version header) (o_chain_head out) (fst p)) of
             Ok head \<Rightarrow>
               (case replay_entry (d_entry (fst p)) (o_state out) of
                  (Ok _, st) \<Rightarrow>
                    verify_loop c cap header (drop (snd p) rest) (offset + snd p) (EntryOf (d_entry (fst p))) (decoded + 1)
                      (count_replayed (d_entry (fst p)) (out\<lparr>o_state := st, o_chain_head := head\<rparr>))
                | (Err e, st) \<Rightarrow>
                    Some (Ok (out\<lparr>o_state := st, o_failure := Some (ApplyFailed (o_events_applied out + 1)
                      (h_header_len header + (offset + snd p)) e (d_entry (fst p)))\<rparr>))
                | (Panic, st) \<Rightarrow> Some Panic
                | (Diverges, st) \<Rightarrow> Some Diverges)
           | Err e \<Rightarrow> Some (Err e) | Panic \<Rightarrow> Some Panic | Diverges \<Rightarrow> Some Diverges)
      | Err e \<Rightarrow> Some (Ok (out\<lparr>o_failure := Some (DecodeFailed (o_events_applied out + 1) (h_header_len header + offset) (length rest))\<rparr>))
      | Panic \<Rightarrow> Some Panic
      | Diverges \<Rightarrow> Some Diverges)"

definition outcome_start :: "SegmentHeader \<Rightarrow> ReplayOutcome" where
  "outcome_start header =
     \<lparr>o_state = kernel_new, o_events_applied = 0, o_checkpoints_seen = 0, o_chain_head = h_prev_head header, o_failure = None\<rparr>"

definition verify_replay :: "wire_codec \<Rightarrow> bytes \<Rightarrow> SegmentHeader \<Rightarrow> (VerifyError, ReplayOutcome) res" where
  "verify_replay c body header = of_loop (verify_loop c None header body 0 NoEntry 0 (outcome_start header))"

definition main_replay :: "wire_codec \<Rightarrow> bytes \<Rightarrow> SegmentHeader \<Rightarrow> (VerifyError, ReplayOutcome) res" where
  "main_replay c body header =
     of_loop (verify_loop c (Some MAX_ENTRIES_PER_SEGMENT) header body 0 NoEntry 0 (outcome_start header))"

section \<open>Summaries\<close>

record LogSummary =
  su_chain_head :: bytes
  su_event_count :: u64
  su_state_hash :: bytes
  su_trailing_bytes :: nat

partial_function (option) log_loop :: "wire_codec \<Rightarrow> SegmentHeader \<Rightarrow> bytes \<Rightarrow> nat \<Rightarrow> bytes \<Rightarrow> u64 \<Rightarrow> KernelState
    \<Rightarrow> (VerifyError, LogSummary) res option" where
  "log_loop c header rest offset chain_head event_count st =
     (let summary = \<lparr>su_chain_head = chain_head, su_event_count = event_count, su_state_hash = hash_state_blake3 (blake3_of c) st,
                     su_trailing_bytes = length rest\<rparr> in
      if rest = [] then Some (Ok summary)
      else case decode_entry c (h_version header) rest of
        Ok p \<Rightarrow>
          (if d_prev_hash (fst p) \<noteq> chain_head then Some (Err (ChainBreak (event_count + 1) (h_header_len header + (offset + snd p))))
           else case expect (chain_advance c (h_version header) chain_head (fst p)) of
             Ok head \<Rightarrow>
               (case replay_entry (d_entry (fst p)) st of
                  (Ok _, st') \<Rightarrow>
                    log_loop c header (drop (snd p) rest) (offset + snd p) head
                      (if entry_events (d_entry (fst p)) = [] then event_count else event_count + 1) st'
                | (Err e, st') \<Rightarrow> Some (Err (Rejected (event_count + 1) e (d_entry (fst p))))
                | (Panic, st') \<Rightarrow> Some Panic
                | (Diverges, st') \<Rightarrow> Some Diverges)
           | Err e \<Rightarrow> Some (Err e) | Panic \<Rightarrow> Some Panic | Diverges \<Rightarrow> Some Diverges)
      | Err e \<Rightarrow> Some (Ok summary)
      | Panic \<Rightarrow> Some Panic
      | Diverges \<Rightarrow> Some Diverges)"

definition replay_log :: "wire_codec \<Rightarrow> bytes \<Rightarrow> (VerifyError, LogSummary) res" where
  "replay_log c bs =
     res_bind (map_err BadHeader (parse_header bs)) (\<lambda>header.
     of_loop (log_loop c header (drop (h_header_len header) bs) 0 (h_prev_head header) 0 kernel_new))"

section \<open>Reports\<close>

datatype Finding =
    NoFinding
  | Content string string string
  | ChainBreach Failure "(u64 \<times> EntrySummary) option"
  | Structural Failure u64
  | Semantic Failure u64

record Report =
  re_verdict :: string
  re_size_bytes :: nat
  re_format_version :: u32
  re_dim :: u32
  re_events_replayed :: u64
  re_checkpoints_seen :: u64
  re_state_hash :: string
  re_chain_head :: string
  re_expected_hash :: "string option"
  re_generated_at :: string
  re_generated_at_unix :: u64
  re_finding :: Finding

text \<open>The likely altered entry is the one before the breach, unless the breach is at the first.\<close>

fun finding_of :: "string option \<Rightarrow> string \<Rightarrow> ReplayOutcome \<Rightarrow> Finding" where
  "finding_of expected state_hash out =
     (case o_failure out of
        None \<Rightarrow>
          (case expected of
             Some x \<Rightarrow> if x \<noteq> state_hash then Content x state_hash (hex (o_chain_head out)) else NoFinding
           | None \<Rightarrow> NoFinding)
      | Some (ChainBroken at off t prior computed stored) \<Rightarrow>
          ChainBreach (ChainBroken at off t prior computed stored) (if at > 1 then Some (at - 1, prior) else None)
      | Some (DecodeFailed no off n) \<Rightarrow> Structural (DecodeFailed no off n) (o_events_applied out)
      | Some (EntryCapExceeded n) \<Rightarrow> Structural (EntryCapExceeded n) (o_events_applied out)
      | Some (ApplyFailed no off e x) \<Rightarrow> Semantic (ApplyFailed no off e x) (o_events_applied out))"

definition build_report :: "wire_codec \<Rightarrow> u64 \<Rightarrow> nat \<Rightarrow> SegmentHeader \<Rightarrow> string option \<Rightarrow> ReplayOutcome \<Rightarrow> string \<Rightarrow> Report" where
  "build_report c now size_bytes header expected out verdict =
     (let state_hash = hex (hash_state_blake3 (blake3_of c) (o_state out)) in
      \<lparr>re_verdict = verdict, re_size_bytes = size_bytes, re_format_version = h_version header, re_dim = h_dim header,
       re_events_replayed = o_events_applied out, re_checkpoints_seen = o_checkpoints_seen out, re_state_hash = state_hash,
       re_chain_head = hex (o_chain_head out), re_expected_hash = expected, re_generated_at = format_utc (unat now),
       re_generated_at_unix = now, re_finding = finding_of expected state_hash out\<rparr>)"

text \<open>The expected hash, as the user gives it. A letter outside ASCII never becomes a hexadecimal digit when it is made lower case.\<close>

definition is_ascii_hexdigit :: "nat \<Rightarrow> bool" where
  "is_ascii_hexdigit x \<longleftrightarrow> (48 \<le> x \<and> x \<le> 57) \<or> (65 \<le> x \<and> x \<le> 70) \<or> (97 \<le> x \<and> x \<le> 102)"

definition parse_expected :: "nat list option \<Rightarrow> (VerifyError, string option) res" where
  "parse_expected expected =
     (case expected of
        None \<Rightarrow> Ok None
      | Some h \<Rightarrow>
          (let h = to_ascii_lowercase (trim h) in
           if length h \<noteq> 64 \<or> \<not> list_all is_ascii_hexdigit h then Err BadExpectedHash else Ok (Some (map char_of h))))"

fun failure_verdict :: "Failure \<Rightarrow> string" where
  "failure_verdict (ChainBroken _ _ _ _ _ _) = ''tampered_chain''"
| "failure_verdict (DecodeFailed _ _ _) = ''tampered_structural''"
| "failure_verdict (EntryCapExceeded _) = ''tampered_structural''"
| "failure_verdict (ApplyFailed _ _ _ _) = ''tampered_semantic''"

definition verify_log_file :: "wire_codec \<Rightarrow> u64 \<Rightarrow> bytes \<Rightarrow> nat list option \<Rightarrow> (VerifyError, Report) res" where
  "verify_log_file c now bs expected_hash =
     res_bind (map_err BadHeader (parse_header bs)) (\<lambda>header.
     res_bind (parse_expected expected_hash) (\<lambda>expected.
     res_bind (verify_replay c (drop (h_header_len header) bs) header) (\<lambda>out.
     let state_hash = hex (hash_state_blake3 (blake3_of c) (o_state out));
         verdict = (case o_failure out of
             Some f \<Rightarrow> failure_verdict f
           | None \<Rightarrow> if expected \<noteq> None \<and> expected \<noteq> Some state_hash then ''tampered_content'' else ''verified'') in
     Ok (build_report c now (length bs) header expected out verdict))))"

text \<open>The binary: the exit code, and the report when the log was replayed.\<close>

definition verify_main :: "wire_codec \<Rightarrow> u64 \<Rightarrow> bytes option \<Rightarrow> nat list option \<Rightarrow> (VerifyError, nat \<times> Report option) res" where
  "verify_main c now input expected_hash =
     (case input of
        None \<Rightarrow> Ok (2, None)
      | Some bs \<Rightarrow>
          (case parse_header bs of
             Ok header \<Rightarrow>
               (case parse_expected expected_hash of
                  Ok expected \<Rightarrow>
                    res_bind (main_replay c (drop (h_header_len header) bs) header) (\<lambda>out.
                    let computed = hex (hash_state_blake3 (blake3_of c) (o_state out));
                        (code, verdict) = (case o_failure out of
                            Some f \<Rightarrow> (1, failure_verdict f)
                          | None \<Rightarrow>
                              (case expected of
                                 Some x \<Rightarrow> if x = computed then (0, ''verified'') else (1, ''tampered_content'')
                               | None \<Rightarrow> (0, ''no_expected_hash''))) in
                    Ok (code, Some (build_report c now (length bs) header expected out verdict)))
                | _ \<Rightarrow> Ok (2, None))
           | _ \<Rightarrow> Ok (2, None)))"

end
