(* ===== verification/Verifier_Theorems.thy ===== *)
theory Verifier_Theorems
  imports Verifier
begin

text \<open>The two replays of the auditor agree, and what its verdict means for the files that the event log writes.\<close>

section \<open>Summaries and reports\<close>

definition summary :: "wire_codec \<Rightarrow> nat \<Rightarrow> ReplayOutcome \<Rightarrow> LogSummary" where
  "summary c trailing out = \<lparr>su_chain_head = o_chain_head out, su_event_count = o_events_applied out,
     su_state_hash = hash_state_blake3 (blake3_of c) (o_state out), su_trailing_bytes = trailing\<rparr>"

definition summary_of :: "wire_codec \<Rightarrow> ReplayOutcome \<Rightarrow> (VerifyError, LogSummary) res" where
  "summary_of c out =
     (case o_failure out of
        Some (ChainBroken at off t prior computed stored) \<Rightarrow> Err (ChainBreak at off)
      | Some (ApplyFailed no off e x) \<Rightarrow> Err (Rejected no e x)
      | Some (DecodeFailed no off n) \<Rightarrow> Ok (summary c n out)
      | _ \<Rightarrow> Ok (summary c 0 out))"

lemma count_replayed_fields [simp]:
  "o_failure (count_replayed x out) = o_failure out" "o_state (count_replayed x out) = o_state out"
  "o_chain_head (count_replayed x out) = o_chain_head out"
  "o_events_applied (count_replayed x out) = (if entry_events x = [] then o_events_applied out else o_events_applied out + 1)"
  by (cases x; simp)+

lemma log_of_verify:
  assumes "verify_loop c cap hdr rest off prior n out = Some r" "cap = None" "o_failure out = None"
  shows "log_loop c hdr rest off (o_chain_head out) (o_events_applied out) (o_state out) = Some (res_bind r (summary_of c))"
proof -
  have "cap = None \<longrightarrow> o_failure out = None \<longrightarrow>
      log_loop c hdr rest off (o_chain_head out) (o_events_applied out) (o_state out) = Some (res_bind r (summary_of c))"
  proof (rule verify_loop.raw_induct [OF _ assms(1), where P = "\<lambda>c cap hdr rest off prior n out r. cap = None \<longrightarrow> o_failure out = None \<longrightarrow>
      log_loop c hdr rest off (o_chain_head out) (o_events_applied out) (o_state out) = Some (res_bind r (summary_of c))"], goal_cases)
    case (1 loop c cap hdr rest off prior n out r)
    show ?case
      using 1(2) by (subst log_loop.simps) (auto simp: summary_of_def summary_def Let_def dest!: 1(1) split: if_splits res.splits prod.splits)
  qed
  then show ?thesis using assms(2,3) by blast
qed

lemma verify_defined:
  assumes "log_loop c hdr rest off head k st = Some r"
  shows "\<exists>r. verify_loop c None hdr rest off prior n (out\<lparr>o_chain_head := head, o_events_applied := k, o_state := st\<rparr>) = Some r"
proof -
  have "\<forall>prior n out. o_chain_head out = head \<longrightarrow> o_events_applied out = k \<longrightarrow> o_state out = st \<longrightarrow>
      (\<exists>r. verify_loop c None hdr rest off prior n out = Some r)"
  proof (rule log_loop.raw_induct [OF _ assms, where P = "\<lambda>c hdr rest off head k st r. \<forall>prior n out.
      o_chain_head out = head \<longrightarrow> o_events_applied out = k \<longrightarrow> o_state out = st \<longrightarrow> (\<exists>r. verify_loop c None hdr rest off prior n out = Some r)"], goal_cases)
    case (1 loop c hdr rest off head k st r)
    show ?case
    proof (intro allI impI, rule ccontr)
      fix prior n out
      assume eq: "o_chain_head out = head" "o_events_applied out = k" "o_state out = st" and "\<not> (\<exists>r. verify_loop c None hdr rest off prior n out = Some r)"
      then have "verify_loop c None hdr rest off prior n out = None" by simp
      then obtain p h st' u where p: "rest \<noteq> []" "decode_entry c (h_version hdr) rest = Ok p" "d_prev_hash (fst p) = head"
          "expect (chain_advance c (h_version hdr) head (fst p)) = (Ok h :: (VerifyError, bytes) res)" "replay_entry (d_entry (fst p)) st = (Ok u, st')"
        and stuck: "verify_loop c None hdr (drop (snd p) rest) (off + snd p) (EntryOf (d_entry (fst p))) (n + 1)
          (count_replayed (d_entry (fst p)) (out\<lparr>o_state := st', o_chain_head := h\<rparr>)) = None"
        by (subst (asm) verify_loop.simps) (auto simp: eq split: if_splits res.splits prod.splits)
      have "loop c hdr (drop (snd p) rest) (off + snd p) h (if entry_events (d_entry (fst p)) = [] then k else k + 1) st' = Some r"
        using 1(2) p by (simp add: Let_def)
      from 1(1) [OF this, THEN spec, of "EntryOf (d_entry (fst p))", THEN spec, of "n + 1", THEN spec,
          of "count_replayed (d_entry (fst p)) (out\<lparr>o_state := st', o_chain_head := h\<rparr>)"]
      show False using stuck eq by (simp cong: if_cong)
    qed
  qed
  then show ?thesis by simp
qed

lemma log_verify_agree:
  "o_failure out = None \<Longrightarrow> of_loop (log_loop c hdr rest off (o_chain_head out) (o_events_applied out) (o_state out)) =
   res_bind (of_loop (verify_loop c None hdr rest off prior n out)) (summary_of c)"
  using log_of_verify [of c None hdr rest off prior n out] verify_defined [of c hdr rest off "o_chain_head out" "o_events_applied out" "o_state out" _ prior n out]
  by (cases "verify_loop c None hdr rest off prior n out"; cases "log_loop c hdr rest off (o_chain_head out) (o_events_applied out) (o_state out)") auto

text \<open>C22: The summary that anchors are made of and the report agree on every file. The two replay loops are separate code:
  \<open>replay_log\<close> refuses exactly the files that the report calls broken in the chain or rejected by the kernel, with the same entry
  numbers; it accepts the others with the same chain head, event count and state, counting as trailing the bytes from which the
  report calls the file structurally damaged; one panics or loops exactly when the other does.\<close>

theorem replay_log_agrees:
  "replay_log c bs = res_bind (map_err BadHeader (parse_header bs)) (\<lambda>hdr. res_bind (verify_replay c (drop (h_header_len hdr) bs) hdr) (summary_of c))"
proof -
  have "of_loop (log_loop c hdr rest 0 (h_prev_head hdr) 0 kernel_new) = res_bind (verify_replay c rest hdr) (summary_of c)" for hdr rest
    using log_verify_agree [of "outcome_start hdr" c hdr rest 0 NoEntry 0] by (simp add: verify_replay_def outcome_start_def)
  then show ?thesis by (simp add: replay_log_def)
qed

section \<open>Segments of the log\<close>

definition count_items :: "item list \<Rightarrow> ReplayOutcome \<Rightarrow> ReplayOutcome" where
  "count_items items = fold (\<lambda>(t, rid, x). count_replayed x) items"

lemma count_replayed_update [simp]:
  "count_replayed x (out\<lparr>o_state := st\<rparr>) = (count_replayed x out)\<lparr>o_state := st\<rparr>"
  "count_replayed x (out\<lparr>o_chain_head := h\<rparr>) = (count_replayed x out)\<lparr>o_chain_head := h\<rparr>"
  by (cases x; simp)+

lemma count_items_simps [simp]:
  "count_items [] out = out" "count_items ((t, rid, x) # items) out = count_items items (count_replayed x out)"
  by (simp_all add: count_items_def)

lemma count_items_fields [simp]:
  "o_failure (count_items items out) = o_failure out"
  "o_events_applied (count_items items out) = o_events_applied out + of_nat (length (items_events items))"
proof (induction items arbitrary: out)
  case (Cons p items)
  obtain t rid x where p: "p = (t, rid, x)" by (cases p) auto
  { case 1 show ?case using Cons.IH(1) by (simp add: p) }
  { case 2 show ?case using Cons.IH(2) by (cases x) (simp_all add: p) }
qed simp_all

lemma count_items_update:
  "count_items items (out\<lparr>o_state := st, o_chain_head := h\<rparr>) = (count_items items out)\<lparr>o_state := st, o_chain_head := h\<rparr>"
  by (induction items arbitrary: out) (auto simp: count_items_def)

lemma replay_loop_entry:
  "replay_loop (entry_events x @ evs) st =
     (case replay_entry x st of
        (Ok _, st') \<Rightarrow> replay_loop evs st' | (Err e, _) \<Rightarrow> Err (EventApplication e) | (Panic, _) \<Rightarrow> Panic | (Diverges, _) \<Rightarrow> Diverges)"
  by (cases x) (simp_all add: apply_event_def)

definition capped :: "u64 option \<Rightarrow> u64 \<Rightarrow> nat \<Rightarrow> bool" where
  "capped cap n k \<longleftrightarrow> (case cap of None \<Rightarrow> True | Some m \<Rightarrow> unat n + k \<le> unat m)"

lemma capped_Suc: "capped cap n (Suc k) \<Longrightarrow> capped cap (n + 1) k"
proof -
  have "unat (n + 1) \<le> unat n + 1" unfolding unat_word_ariths by (rule order_trans [OF mod_less_eq_dividend]) simp
  then show "capped cap n (Suc k) \<Longrightarrow> capped cap (n + 1) k" by (auto simp: capped_def split: option.splits)
qed

lemma verify_step:
  assumes laws: "codec_laws c" and v: "h_version hdr = VERSION_V4" and wf: "item_wf (t, rid, x)" "length (o_chain_head out) = 32"
    and b: "encode_entry c VERSION_V4 (o_chain_head out) t rid x = Ok b"
      "chain_advance c VERSION_V4 (o_chain_head out) (stamped (o_chain_head out) t rid x) = Ok h"
    and cap: "capped cap n (Suc k)"
  shows "verify_loop c cap hdr (b @ rest) off prior n out =
    (case replay_entry x (o_state out) of
       (Ok _, st) \<Rightarrow> verify_loop c cap hdr rest (off + length b) (EntryOf x) (n + 1) (count_replayed x (out\<lparr>o_state := st, o_chain_head := h\<rparr>))
     | (Err e, st) \<Rightarrow> Some (Ok (out\<lparr>o_state := st, o_failure := Some (ApplyFailed (o_events_applied out + 1) (h_header_len hdr + (off + length b)) e x)\<rparr>))
     | (Panic, st) \<Rightarrow> Some Panic | (Diverges, st) \<Rightarrow> Some Diverges)"
proof -
  note dec = decode_entry_encode [OF laws wf b(1)]
  have "\<not> (case cap of Some m \<Rightarrow> m \<le> n | None \<Rightarrow> False)"
    using cap by (auto simp: capped_def word_le_nat_alt split: option.splits)
  moreover have "d_prev_hash (stamped (o_chain_head out) t rid x) = o_chain_head out" "d_entry (stamped (o_chain_head out) t rid x) = x"
    by (simp_all add: stamped_def)
  ultimately show ?thesis
    using dec(1) [of rest] dec(2) b(2) by (subst verify_loop.simps) (simp add: v expect_def split: prod.splits res.splits)
qed

lemma verify_chained:
  assumes laws: "codec_laws c" and v: "h_version hdr = VERSION_V4"
  shows "items_wf items \<Longrightarrow> length (o_chain_head out) = 32 \<Longrightarrow> encode_log c (o_chain_head out) items = Ok (bs, h) \<Longrightarrow>
    capped cap n (length items) \<Longrightarrow>
    (case replay_loop (items_events items) (o_state out) of
       Ok st \<Rightarrow> \<exists>prior'. verify_loop c cap hdr (bs @ tail) off prior n out =
         verify_loop c cap hdr tail (off + length bs) prior' (n + of_nat (length items)) ((count_items items out)\<lparr>o_state := st, o_chain_head := h\<rparr>)
     | Err e \<Rightarrow> \<exists>out' f. verify_loop c cap hdr (bs @ tail) off prior n out = Some (Ok out') \<and> o_failure out' = Some f \<and>
         failure_verdict f = ''tampered_semantic''
     | Panic \<Rightarrow> verify_loop c cap hdr (bs @ tail) off prior n out = Some Panic
     | Diverges \<Rightarrow> verify_loop c cap hdr (bs @ tail) off prior n out = Some Diverges)"
proof (induction items arbitrary: out bs off prior n)
  case Nil
  then show ?case by (auto intro!: exI [of _ prior])
next
  case (Cons p items)
  obtain t rid x where p: "p = (t, rid, x)" by (cases p) auto
  obtain b h' bs' where b: "encode_entry c VERSION_V4 (o_chain_head out) t rid x = Ok b"
      "chain_advance c VERSION_V4 (o_chain_head out) (stamped (o_chain_head out) t rid x) = Ok h'" "encode_log c h' items = Ok (bs', h)" "bs = b @ bs'"
    using Cons.prems(3) p by auto
  have wf: "item_wf (t, rid, x)" "items_wf items" and cap: "capped cap n (Suc (length items))" using Cons.prems(1,4) p by auto
  note step = verify_step [OF laws v wf(1) Cons.prems(2) b(1,2) cap, of "bs' @ tail" off prior]
  obtain r st where run: "replay_entry x (o_state out) = (r, st)" by (cases "replay_entry x (o_state out)") auto
  let ?out = "count_replayed x (out\<lparr>o_state := st, o_chain_head := h'\<rparr>)"
  have len: "length (o_chain_head ?out) = 32" using chain_advance_length [OF laws b(2)] by simp
  show ?case
  proof (cases r)
    case (Ok u)
    then show ?thesis
      using Cons.IH [OF wf(2) len _ capped_Suc [OF cap], of bs' "off + length b" "EntryOf x"] b(3,4) step run
      by (simp add: p replay_loop_entry count_items_update add_ac split: res.splits)
  qed (use step run b(4) in \<open>auto simp: p replay_loop_entry\<close>)
qed

text \<open>What a replay of a segment file returns.\<close>

definition replay_result :: "wire_codec \<Rightarrow> item list \<Rightarrow> bytes \<Rightarrow> (VerifyError, ReplayOutcome) res \<Rightarrow> bool" where
  "replay_result c items h r \<longleftrightarrow>
     (case replay_events (items_events items) of
        Ok st \<Rightarrow> \<exists>out. r = Ok out \<and> o_failure out = None \<and> o_state out = st \<and> o_chain_head out = h \<and>
          o_events_applied out = of_nat (length (items_events items))
      | Err e \<Rightarrow> \<exists>out f. r = Ok out \<and> o_failure out = Some f \<and> failure_verdict f = ''tampered_semantic''
      | Panic \<Rightarrow> r = Panic
      | Diverges \<Rightarrow> r = Diverges)"

abbreviation v4_header :: "u32 \<Rightarrow> u32 \<Rightarrow> bytes \<Rightarrow> SegmentHeader" where
  "v4_header dim seq prev \<equiv> \<lparr>h_version = VERSION_V4, h_dim = dim, h_format_id = FORMAT_Q16_16, h_segment_seq = seq,
     h_prev_head = prev, h_header_len = 48\<rparr>"

lemma replay_segment:
  assumes laws: "codec_laws c" and seg: "segment c dim seq prev items file h" and dim: "dim_ok dim None"
  shows "parse_header file = Ok (v4_header dim seq prev)" "replay_result c items h (verify_replay c (drop 48 file) (v4_header dim seq prev))"
    "length items \<le> unat MAX_ENTRIES_PER_SEGMENT \<Longrightarrow> replay_result c items h (main_replay c (drop 48 file) (v4_header dim seq prev))"
proof -
  let ?hdr = "v4_header dim seq prev"
  obtain bs where bs: "length prev = 32" "items_wf items" "encode_log c prev items = Ok (bs, h)"
    "file = encode_header_v4 dim FORMAT_Q16_16 seq prev @ bs" using seg by (auto simp: segment_def)
  show "parse_header file = Ok ?hdr" using dim bs(1) by (simp add: bs(4) dim_ok_def parse_header_v4)
  have body: "drop 48 file = bs @ []" using bs(1,4) by simp
  have run: "replay_result c items h (of_loop (verify_loop c cap ?hdr (drop 48 file) 0 NoEntry 0 (outcome_start ?hdr)))"
    if cap: "capped cap 0 (length items)" for cap
    using verify_chained [OF laws _ bs(2) _ _ cap, of ?hdr "outcome_start ?hdr" bs h "[]" 0 NoEntry] bs(1,3)
    unfolding body replay_result_def replay_events_def
    by (auto simp: outcome_start_def verify_loop.simps [of _ _ _ "[]"] split: res.splits)
  show "replay_result c items h (verify_replay c (drop 48 file) ?hdr)"
    using run [of None] by (simp add: verify_replay_def capped_def)
  show "replay_result c items h (main_replay c (drop 48 file) ?hdr)" if "length items \<le> unat MAX_ENTRIES_PER_SEGMENT"
    using run [of "Some MAX_ENTRIES_PER_SEGMENT"] that by (simp add: main_replay_def capped_def)
qed

text \<open>C21: The verdict on a segment file that the log wrote depends on whether its events replay from an empty kernel. If they
  do, the report has the hash of the resulting state, the chain head of the writer and the number of events, and the verdict
  says whether the state hash is the expected one; the binary then exits with 0 exactly if no other hash was expected. If the kernel
  rejects one of them, as happens for the later segments of a rotated log, the untampered file is called semantically tampered.\<close>

theorem verify_decides_segment:
  assumes "codec_laws c" "segment c dim seq prev items file h" "dim_ok dim None" "parse_expected expected = Ok x"
    "length items \<le> unat MAX_ENTRIES_PER_SEGMENT"
  shows "case replay_events (items_events items) of
      Ok st \<Rightarrow>
        let state_hash = hex (hash_state_blake3 (blake3_of c) st); good = (x = None \<or> x = Some state_hash) in
        (\<exists>r. verify_log_file c now file expected = Ok r \<and> re_verdict r = (if good then ''verified'' else ''tampered_content'') \<and>
           re_state_hash r = state_hash \<and> re_chain_head r = hex h \<and> re_events_replayed r = of_nat (length (items_events items))) \<and>
        (\<exists>r. verify_main c now (Some file) expected = Ok (if good then 0 else 1, Some r))
    | Err e \<Rightarrow>
        (\<exists>r. verify_log_file c now file expected = Ok r \<and> re_verdict r = ''tampered_semantic'') \<and>
        (\<exists>r. verify_main c now (Some file) expected = Ok (1, Some r) \<and> re_verdict r = ''tampered_semantic'')
    | Panic \<Rightarrow> verify_log_file c now file expected = Panic
    | Diverges \<Rightarrow> verify_log_file c now file expected = Diverges"
proof -
  note seg = replay_segment [OF assms(1-3)]
  note run = seg(2) seg(3) [OF assms(5)]
  show ?thesis
  proof (cases "replay_events (items_events items)")
    case (Ok st)
    obtain out out' where
        "verify_replay c (drop 48 file) (v4_header dim seq prev) = Ok out" "main_replay c (drop 48 file) (v4_header dim seq prev) = Ok out'"
        "o_failure out = None" "o_failure out' = None" "o_state out = st" "o_state out' = st" "o_chain_head out = h"
        "o_events_applied out = of_nat (length (items_events items))"
      using run Ok by (auto simp: replay_result_def)
    then show ?thesis
      by (cases x) (simp_all add: Ok verify_log_file_def verify_main_def seg(1) assms(4) build_report_def Let_def)
  next
    case (Err e)
    obtain out out' f f' where
        "verify_replay c (drop 48 file) (v4_header dim seq prev) = Ok out" "main_replay c (drop 48 file) (v4_header dim seq prev) = Ok out'"
        "o_failure out = Some f" "o_failure out' = Some f'" "failure_verdict f = ''tampered_semantic''" "failure_verdict f' = ''tampered_semantic''"
      using run Err by (auto simp: replay_result_def)
    then show ?thesis
      by (simp add: Err verify_log_file_def verify_main_def seg(1) assms(4) build_report_def Let_def)
  qed (use run in \<open>simp_all add: replay_result_def verify_log_file_def seg(1) assms(4)\<close>)
qed

lemma one_segment:
  assumes laws: "codec_laws c" and x: "item_wf (t, rid, x)" "check_metadata_cap x = Ok ()" and prev: "length prev = 32"
  shows "\<exists>file h. segment c dim seq prev [(t, rid, x)] file h"
proof -
  have "segment c dim seq prev [] (encode_header_v4 dim FORMAT_Q16_16 seq prev) prev" using prev by (simp add: segment_def)
  moreover obtain bs where "encode_entry c VERSION_V4 prev t rid x = Ok bs" using encode_entry_ok [OF laws x(1) prev x(2)] by blast
  moreover obtain h where "chain_advance c VERSION_V4 prev (stamped prev t rid x) = Ok h" using chain_entry_ok [OF laws, of x prev t rid] x(1) by auto
  ultimately show ?thesis using segment_snoc [OF _ x(1)] by fastforce
qed

theorem verify_decides_segment_witness:
  "\<exists>first head second h r r'. segment sample_codec 1 0 (replicate 32 0) [(5, None, Event first_insert)] first head \<and>
     segment sample_codec 1 1 head [(6, None, Event second_insert)] second h \<and>
     verify_log_file sample_codec 9 first None = Ok r \<and> re_verdict r = ''verified'' \<and>
     verify_log_file sample_codec 9 second None = Ok r' \<and> re_verdict r' = ''tampered_semantic''"
proof -
  obtain first head where first: "segment sample_codec 1 0 (replicate 32 0) [(5, None, Event first_insert)] first head"
    using one_segment [OF sample_codec_laws, of 5 None "Event first_insert" "replicate 32 0" 1 0] by auto
  obtain second h where second: "segment sample_codec 1 1 head [(6, None, Event second_insert)] second h"
    using one_segment [OF sample_codec_laws, of 6 None "Event second_insert" head 1 1] segment_head [OF sample_codec_laws first] by auto
  have dim: "dim_ok 1 None" by (simp add: dim_ok_def WIRE_MAX_DIM_def)
  have x: "parse_expected None = Ok None" by (simp add: parse_expected_def)
  obtain st where ok: "replay_events [(DEFAULT_NS, first_insert)] = Ok st"
    by (simp add: replay_events_def first_insert_def kernel_eval DEFAULT_NS_def)
  have bad: "replay_events [(DEFAULT_NS, second_insert)] = Err (EventApplication InvalidOperation)"
    by (simp add: replay_events_def second_insert_def kernel_eval DEFAULT_NS_def)
  obtain r where "verify_log_file sample_codec 9 first None = Ok r" "re_verdict r = ''verified''"
    using verify_decides_segment [OF sample_codec_laws first dim x, of 9] ok by (auto simp: MAX_ENTRIES_PER_SEGMENT_def Let_def)
  moreover obtain r' where "verify_log_file sample_codec 9 second None = Ok r'" "re_verdict r' = ''tampered_semantic''"
    using verify_decides_segment [OF sample_codec_laws second dim x, of 9] bad by (auto simp: MAX_ENTRIES_PER_SEGMENT_def)
  ultimately show ?thesis using first second by blast
qed

end
