(* ===== verification/Anchor.thy ===== *)
theory Anchor
  imports Verifier_Theorems
begin

text \<open>
  \<open>valori-verify/src/anchor.rs\<close> and \<open>bin/valori_anchor.rs\<close>: signed anchors, which commit to the chain head, the event count and the
  state hash of a log. Ed25519 is a parameter, texts are lists of Unicode code points, and a file of JSON is the value
  that is parsed from it; \<open>None\<close> stands for a file that cannot be read or parsed.
\<close>

section \<open>Hexadecimal texts\<close>

type_synonym utext = "nat list"

definition to_hex :: "bytes \<Rightarrow> utext" where
  "to_hex bs = codepoints (hex bs)"

text \<open>The number of bytes of a character in UTF-8.\<close>

definition utf8_width :: "nat \<Rightarrow> nat" where
  "utf8_width x = (if x < 128 then 1 else if x < 2048 then 2 else if x < 65536 then 3 else 4)"

datatype AnchorError = OddLength | InvalidDigit | MissingField string | NotHex string | WrongSize string | InvalidKey | BadSignature

text \<open>The text is cut into slices of two bytes, and a slice that ends within a character is a panic. A slice that is one character of
  two bytes has no digits.\<close>

fun hex_pairs :: "utext \<Rightarrow> (AnchorError, bytes) res" where
  "hex_pairs [] = Ok []"
| "hex_pairs [a] = (if utf8_width a = 2 then Err InvalidDigit else Panic)"
| "hex_pairs (a # b # s) =
     (if utf8_width a = 2 then Err InvalidDigit
      else if utf8_width a \<noteq> 1 \<or> utf8_width b \<noteq> 1 then Panic
      else case from_str_radix16 [char_of a, char_of b] of
          Some v \<Rightarrow> res_bind (hex_pairs s) (\<lambda>bs. Ok (ucast v # bs))
        | None \<Rightarrow> Err InvalidDigit)"

definition from_hex :: "utext \<Rightarrow> (AnchorError, bytes) res" where
  "from_hex s = (if odd (sum_list (map utf8_width s)) then Err OddLength else hex_pairs s)"

section \<open>Anchors\<close>

datatype Value = Number u64 | Text utext | Object "(string \<times> Value) list" | Other

fun json_get :: "Value \<Rightarrow> string \<Rightarrow> Value option" where
  "json_get (Object members) key = map_of members key"
| "json_get _ key = None"

definition json_hex :: "Value \<Rightarrow> string \<Rightarrow> (AnchorError, bytes) res" where
  "json_hex v key = (case json_get v key of Some (Text s) \<Rightarrow> map_err (\<lambda>_. NotHex key) (from_hex s) | _ \<Rightarrow> Err (MissingField key))"

definition json_u64 :: "Value \<Rightarrow> string \<Rightarrow> (AnchorError, u64) res" where
  "json_u64 v key = (case json_get v key of Some (Number n) \<Rightarrow> Ok n | _ \<Rightarrow> Err (MissingField key))"

text \<open>Ed25519, with keys and signatures as their bytes.\<close>

record ed25519 =
  ed_public :: "bytes \<Rightarrow> bytes"
  ed_sign :: "bytes \<Rightarrow> bytes \<Rightarrow> bytes"
  ed_valid_key :: "bytes \<Rightarrow> bool"
  ed_verify :: "bytes \<Rightarrow> bytes \<Rightarrow> bytes \<Rightarrow> bool"

record AnchorPayload =
  ap_chain_head :: bytes
  ap_event_count :: u64
  ap_state_hash :: bytes
  ap_anchored_at_unix :: u64

definition ANCHOR_DOMAIN_SEP :: bytes where
  "ANCHOR_DOMAIN_SEP = ascii ''valori-anchor-v1'' @ [0]"

definition anchor_message :: "AnchorPayload \<Rightarrow> bytes" where
  "anchor_message p = ANCHOR_DOMAIN_SEP @ ap_chain_head p @ le64 (ap_event_count p) @ ap_state_hash p @ le64 (ap_anchored_at_unix p)"

definition sign_to_json :: "ed25519 \<Rightarrow> AnchorPayload \<Rightarrow> bytes \<Rightarrow> utext option \<Rightarrow> Value" where
  "sign_to_json E p signing_key note =
     Object ((case note of Some n \<Rightarrow> [(''note'', Text n)] | None \<Rightarrow> []) @
       [(''schema_version'', Number 1), (''chain_head'', Text (to_hex (ap_chain_head p))), (''event_count'', Number (ap_event_count p)),
        (''state_hash'', Text (to_hex (ap_state_hash p))), (''anchored_at'', Text (codepoints (format_utc (unat (ap_anchored_at_unix p))))),
        (''anchored_at_unix'', Number (ap_anchored_at_unix p)), (''public_key_ed25519'', Text (to_hex (ed_public E signing_key))),
        (''signature_ed25519'', Text (to_hex (ed_sign E signing_key (anchor_message p))))])"

definition sized_bytes :: "nat \<Rightarrow> string \<Rightarrow> bytes \<Rightarrow> (AnchorError, bytes) res" where
  "sized_bytes n key bs = (if length bs = n then Ok bs else Err (WrongSize key))"

definition verify_json :: "ed25519 \<Rightarrow> Value \<Rightarrow> (AnchorError, AnchorPayload \<times> bytes) res" where
  "verify_json E v =
     res_bind (json_hex v ''chain_head'') (\<lambda>chain_head.
     res_bind (json_hex v ''state_hash'') (\<lambda>state_hash.
     res_bind (json_hex v ''public_key_ed25519'') (\<lambda>pk.
     res_bind (json_hex v ''signature_ed25519'') (\<lambda>sig.
     res_bind (json_u64 v ''event_count'') (\<lambda>event_count.
     res_bind (json_u64 v ''anchored_at_unix'') (\<lambda>anchored_at_unix.
     res_bind (sized_bytes 32 ''chain_head'' chain_head) (\<lambda>chain_head.
     res_bind (sized_bytes 32 ''state_hash'' state_hash) (\<lambda>state_hash.
     res_bind (sized_bytes 32 ''public_key_ed25519'' pk) (\<lambda>pk.
     res_bind (sized_bytes 64 ''signature_ed25519'' sig) (\<lambda>sig.
     let payload = \<lparr>ap_chain_head = chain_head, ap_event_count = event_count, ap_state_hash = state_hash, ap_anchored_at_unix = anchored_at_unix\<rparr> in
     if \<not> ed_valid_key E pk then Err InvalidKey
     else if \<not> ed_verify E pk (anchor_message payload) sig then Err BadSignature
     else Ok (payload, pk)))))))))))"

section \<open>Keys and commands\<close>

definition load_signing_key :: "utext \<Rightarrow> (AnchorError, bytes) res" where
  "load_signing_key s = res_bind (from_hex (trim s)) (sized_bytes 32 ''signing_key'')"

definition load_verifying_key :: "ed25519 \<Rightarrow> utext \<Rightarrow> (AnchorError, bytes) res" where
  "load_verifying_key E s =
     res_bind (from_hex (trim s)) (\<lambda>bs. res_bind (sized_bytes 32 ''public_key'' bs) (\<lambda>bs. if ed_valid_key E bs then Ok bs else Err InvalidKey))"

text \<open>The exit code of \<open>create\<close> and the anchor that it writes; the key is generated elsewhere, and its file holds its hexadecimal text.\<close>

definition cmd_create :: "wire_codec \<Rightarrow> ed25519 \<Rightarrow> u64 \<Rightarrow> bytes option \<Rightarrow> utext option \<Rightarrow> utext option \<Rightarrow> (AnchorError, nat \<times> Value option) res" where
  "cmd_create c E now log key note =
     (case key of
        None \<Rightarrow> Ok (1, None)
      | Some key_text \<Rightarrow>
          (case load_signing_key key_text of
             Ok signing_key \<Rightarrow>
               (case log of
                  None \<Rightarrow> Ok (1, None)
                | Some bs \<Rightarrow>
                    (case replay_log c bs of
                       Ok s \<Rightarrow>
                         Ok (0, Some (sign_to_json E \<lparr>ap_chain_head = su_chain_head s, ap_event_count = su_event_count s,
                           ap_state_hash = su_state_hash s, ap_anchored_at_unix = now\<rparr> signing_key note))
                     | Err _ \<Rightarrow> Ok (1, None) | Panic \<Rightarrow> Panic | Diverges \<Rightarrow> Diverges))
           | Err _ \<Rightarrow> Ok (1, None) | Panic \<Rightarrow> Panic | Diverges \<Rightarrow> Diverges))"

definition check_anchor :: "wire_codec \<Rightarrow> AnchorPayload \<Rightarrow> bytes option \<Rightarrow> (AnchorError, nat) res" where
  "check_anchor c p log =
     (case log of
        None \<Rightarrow> Ok 1
      | Some bs \<Rightarrow>
          (case replay_log c bs of
             Ok s \<Rightarrow> Ok (if su_chain_head s = ap_chain_head p \<and> su_state_hash s = ap_state_hash p \<and> su_event_count s = ap_event_count p then 0 else 1)
           | Err _ \<Rightarrow> Ok 1 | Panic \<Rightarrow> Panic | Diverges \<Rightarrow> Diverges))"

definition cmd_verify :: "wire_codec \<Rightarrow> ed25519 \<Rightarrow> bytes option \<Rightarrow> Value option \<Rightarrow> utext option option \<Rightarrow> bool \<Rightarrow> (AnchorError, nat) res" where
  "cmd_verify c E log anchor trusted_key trust_embedded =
     (if trusted_key = None \<and> \<not> trust_embedded then Ok 2
      else case anchor of
          None \<Rightarrow> Ok 1
        | Some v \<Rightarrow>
            (case verify_json E v of
               Ok (p, vk) \<Rightarrow>
                 (case trusted_key of
                    None \<Rightarrow> check_anchor c p log
                  | Some None \<Rightarrow> Ok 1
                  | Some (Some key_text) \<Rightarrow>
                      (case load_verifying_key E key_text of
                         Ok trusted \<Rightarrow> if trusted \<noteq> vk then Ok 1 else check_anchor c p log
                       | Err _ \<Rightarrow> Ok 1 | Panic \<Rightarrow> Panic | Diverges \<Rightarrow> Diverges))
             | Err _ \<Rightarrow> Ok 1 | Panic \<Rightarrow> Panic | Diverges \<Rightarrow> Diverges))"

end
