(* ===== verification/Anchor_Theorems.thy ===== *)
theory Anchor_Theorems
  imports Anchor "HOL-Library.Sublist"
begin

text \<open>What an anchor says about a log: the entries it binds, and the changes it does not see.\<close>

section \<open>Round trips\<close>

lemma hex_Cons [simp]: "hex [] = []" "hex (b # bs) = hex_nat 2 (unat b) @ hex bs"
  by (simp_all add: hex_def)

lemma hex_nat_2: "hex_nat 2 x = [hex_digit (x div 16 mod 16), hex_digit (x mod 16)]"
  by (simp add: numeral_2_eq_2)

lemma codepoints_append [simp]: "codepoints (s @ t) = codepoints s @ codepoints t"
  by (simp add: codepoints_def)

lemma width_hex [simp]: "utf8_width (of_char (hex_digit (x mod 16))) = 1"
  using hex_digit_props [of "x mod 16"] by (simp add: utf8_width_def)

lemma radix_pair: "from_str_radix16 [hex_digit (unat (b :: u8) div 16 mod 16), hex_digit (unat b mod 16)] = Some (ucast b)"
proof -
  have "digits_value 0 (hex_nat 2 (unat b)) = Some (unat b)" using digits_value_hex_nat [of 2 "unat b"] unat_bounds [of b] by simp
  moreover have "hex_digit (unat b div 16 mod 16) \<noteq> CHR ''+''" using hex_digit_props [of "unat b div 16 mod 16"] by simp
  moreover have "unat b < 2 ^ 64" using unat_bounds [of b] by simp
  ultimately show ?thesis by (simp add: from_str_radix16_def hex_nat_2 del: digits_value.simps)
qed

lemma ucast_u8 [simp]: "ucast (ucast (b :: u8) :: u64) = b"
  by transfer simp

lemma hex_pairs_hex: "hex_pairs (codepoints (hex bs)) = Ok bs"
proof (induction bs)
  case (Cons b bs)
  then show ?case by (simp add: hex_nat_2 codepoints_def radix_pair)
qed (simp add: codepoints_def)

lemma even_hex: "even (sum_list (map utf8_width (codepoints (hex bs))))"
  by (induction bs) (simp_all add: hex_nat_2 codepoints_def)

lemma from_to_hex [simp]: "from_hex (to_hex bs) = Ok bs"
  by (simp add: from_hex_def to_hex_def even_hex hex_pairs_hex)

lemma trim_no_space: "(\<And>x. x \<in> set s \<Longrightarrow> \<not> is_whitespace x) \<Longrightarrow> trim s = s"
  using dropWhile_eq_self_iff [of is_whitespace s] dropWhile_eq_self_iff [of is_whitespace "rev s"]
  by (cases "s = []") (auto simp: trim_def hd_rev)

lemma trim_hex [simp]: "trim (to_hex bs) = to_hex bs"
proof (rule trim_no_space)
  fix x assume "x \<in> set (to_hex bs)"
  then obtain k where "x = of_char (hex_digit (k mod 16))"
    by (auto simp: to_hex_def codepoints_def hex_def hex_nat_2)
  moreover have "\<forall>d \<in> set [0..<16]. \<not> is_whitespace (of_char (hex_digit d))"
    by (simp add: upt_rec hex_digit_def is_whitespace_def)
  ultimately show "\<not> is_whitespace x" by auto
qed

text \<open>What the anchors rely on of Ed25519: public keys and signatures have their sizes, and a signature verifies.\<close>

definition ed_laws :: "ed25519 \<Rightarrow> bool" where
  "ed_laws E \<longleftrightarrow> (\<forall>sk m. length sk = 32 \<longrightarrow> length (ed_public E sk) = 32 \<and> ed_valid_key E (ed_public E sk) \<and>
     length (ed_sign E sk m) = 64 \<and> ed_verify E (ed_public E sk) m (ed_sign E sk m))"

lemma signed_fields:
  "json_hex (sign_to_json E p sk nt) ''chain_head'' = Ok (ap_chain_head p)"
  "json_hex (sign_to_json E p sk nt) ''state_hash'' = Ok (ap_state_hash p)"
  "json_hex (sign_to_json E p sk nt) ''public_key_ed25519'' = Ok (ed_public E sk)"
  "json_hex (sign_to_json E p sk nt) ''signature_ed25519'' = Ok (ed_sign E sk (anchor_message p))"
  "json_u64 (sign_to_json E p sk nt) ''event_count'' = Ok (ap_event_count p)"
  "json_u64 (sign_to_json E p sk nt) ''anchored_at_unix'' = Ok (ap_anchored_at_unix p)"
  by (cases nt; simp add: json_hex_def json_u64_def sign_to_json_def)+

lemma verify_signed:
  assumes "ed_laws E" "length sk = 32" "length (ap_chain_head p) = 32" "length (ap_state_hash p) = 32"
  shows "verify_json E (sign_to_json E p sk nt) = Ok (p, ed_public E sk)"
  using assms by (cases p) (simp add: verify_json_def signed_fields sized_bytes_def ed_laws_def Let_def del: res_bind_Ok_iff)

section \<open>The entries of a file\<close>

text \<open>The entries that decode one after the other from the start, up to bytes that do not.\<close>

inductive decodes :: "wire_codec \<Rightarrow> bytes \<Rightarrow> DecodedEntry list \<Rightarrow> bool" for c where
  stop: "bs = [] \<or> decode_entry c VERSION_V4 bs = Err e \<Longrightarrow> decodes c bs []"
| step: "bs \<noteq> [] \<Longrightarrow> decode_entry c VERSION_V4 bs = Ok (d, n) \<Longrightarrow> decodes c (drop n bs) ds \<Longrightarrow> decodes c bs (d # ds)"

definition log_entries :: "wire_codec \<Rightarrow> bytes \<Rightarrow> DecodedEntry list \<Rightarrow> bool" where
  "log_entries c file ds \<longleftrightarrow> (\<exists>hdr. parse_header file = Ok hdr \<and> h_version hdr = VERSION_V4 \<and> decodes c (drop (h_header_len hdr) file) ds)"

definition decoded_events :: "DecodedEntry list \<Rightarrow> (u16 \<times> KernelEvent) list" where
  "decoded_events ds = concat (map (\<lambda>d. entry_events (d_entry d)) ds)"

inductive_cases decodesE: "decodes c bs ds"

lemma decodes_unique: "decodes c bs ds \<Longrightarrow> decodes c bs ds' \<Longrightarrow> ds = ds'"
proof (induction arbitrary: ds' rule: decodes.induct)
  case (stop bs e)
  from stop(2) show ?case by (rule decodesE) (use stop(1) in auto)
next
  case (step bs d n ds)
  from step(5) show ?case
  proof (rule decodesE)
    fix d' n' es assume "ds' = d' # es" "decode_entry c VERSION_V4 bs = Ok (d', n')" "decodes c (drop n' bs) es"
    then show ?thesis using step(2) step(4) [of es] by simp
  qed (use step(1,2) in auto)
qed

lemma log_loop_entries:
  assumes "log_loop c hdr rest off head k st = Some (Ok s)" "h_version hdr = VERSION_V4"
  shows "\<exists>ds st'. decodes c rest ds \<and> linked c head ds (su_chain_head s) \<and> su_event_count s = k + of_nat (length (decoded_events ds)) \<and>
    replay_loop (decoded_events ds) st = Ok st' \<and> su_state_hash s = hash_state_blake3 (blake3_of c) st'"
proof -
  have "\<forall>s. r = Ok s \<longrightarrow> h_version hdr = VERSION_V4 \<longrightarrow> (\<exists>ds st'. decodes c rest ds \<and> linked c head ds (su_chain_head s) \<and>
      su_event_count s = k + of_nat (length (decoded_events ds)) \<and>
      replay_loop (decoded_events ds) st = Ok st' \<and> su_state_hash s = hash_state_blake3 (blake3_of c) st')"
    if "log_loop c hdr rest off head k st = Some r" for r
  proof (rule log_loop.raw_induct [OF _ that, where P = "\<lambda>c hdr rest off head k st r. \<forall>s. r = Ok s \<longrightarrow> h_version hdr = VERSION_V4 \<longrightarrow>
      (\<exists>ds st'. decodes c rest ds \<and> linked c head ds (su_chain_head s) \<and> su_event_count s = k + of_nat (length (decoded_events ds)) \<and>
      replay_loop (decoded_events ds) st = Ok st' \<and> su_state_hash s = hash_state_blake3 (blake3_of c) st')"], intro allI impI, goal_cases)
    case (1 loop c hdr rest off head k st r s)
    note v = 1(4) and body = 1(2) and r = 1(3)
    consider e where "rest = [] \<or> decode_entry c VERSION_V4 rest = Err e" "su_chain_head s = head" "su_event_count s = k"
        "su_state_hash s = hash_state_blake3 (blake3_of c) st"
      | p h u st' where "rest \<noteq> []" "decode_entry c VERSION_V4 rest = Ok p" "d_prev_hash (fst p) = head"
          "expect (chain_advance c VERSION_V4 head (fst p)) = (Ok h :: (VerifyError, bytes) res)" "replay_entry (d_entry (fst p)) st = (Ok u, st')"
          "loop c hdr (drop (snd p) rest) (off + snd p) h (if entry_events (d_entry (fst p)) = [] then k else k + 1) st' = Some r"
      using body r v by (auto simp: Let_def split: if_splits res.splits prod.splits)
    then show ?case
    proof cases
      case 1
      then show ?thesis by (intro exI [of _ "[]"] exI [of _ st]) (auto simp: decoded_events_def intro: decodes.stop)
    next
      case 2
      from 1(1) [OF 2(6)] r v obtain ds st2 where ds: "decodes c (drop (snd p) rest) ds" "linked c h ds (su_chain_head s)"
          "su_event_count s = (if entry_events (d_entry (fst p)) = [] then k else k + 1) + of_nat (length (decoded_events ds))"
          "replay_loop (decoded_events ds) st' = Ok st2" "su_state_hash s = hash_state_blake3 (blake3_of c) st2" by blast
      have "chain_advance c VERSION_V4 head (fst p) = Ok h" using 2(4) by (auto simp: expect_def split: res.splits)
      moreover have "decodes c rest (fst p # ds)" using decodes.step [OF 2(1), of _ "fst p" "snd p"] 2(2) ds(1) by simp
      moreover have "replay_loop (decoded_events (fst p # ds)) st = Ok st2"
        using ds(4) 2(5) by (simp add: decoded_events_def replay_loop_entry)
      moreover have "su_event_count s = k + of_nat (length (decoded_events (fst p # ds)))"
        using ds(3) by (cases "d_entry (fst p)") (simp_all add: decoded_events_def)
      ultimately show ?thesis using ds(2,5) 2(3) by (intro exI [of _ "fst p # ds"] exI [of _ st2]) auto
    qed
  qed
  from this [OF assms(1)] assms(2) show ?thesis by blast
qed

section \<open>What an anchor binds\<close>

text \<open>Two chains that end in the same head: one continues the other backwards, or the hashed strings collide.\<close>

lemma linked_suffix:
  assumes laws: "codec_laws c" and len: "length head = 32" "length head' = 32"
  shows "linked c head ds h \<Longrightarrow> linked c head' ds' h \<Longrightarrow> decoded_wf ds \<Longrightarrow> decoded_wf ds' \<Longrightarrow>
    suffix ds ds' \<or> suffix ds' ds \<or> clash (blake3_of c) (chain_inputs c ds) (chain_inputs c ds')"
proof (induction ds arbitrary: ds' h rule: rev_induct)
  case (snoc d ds)
  show ?case
  proof (cases ds' rule: rev_cases)
    case ds': (snoc es e)
    have d: "linked c head ds (d_prev_hash d)" "chain_advance c VERSION_V4 (d_prev_hash d) d = Ok h"
      and e: "linked c head' es (d_prev_hash e)" "chain_advance c VERSION_V4 (d_prev_hash e) e = Ok h"
      using snoc.prems(1,2) by (auto simp: ds' linked_snoc)
    have wf: "decoded_wf [d]" "decoded_wf [e]" "decoded_wf ds" "decoded_wf es"
      using snoc.prems(3,4) by (simp_all add: ds' decoded_wf_def)
    have sub: "chain_inputs c ds \<subseteq> chain_inputs c (ds @ [d])" "chain_inputs c [d] \<subseteq> chain_inputs c (ds @ [d])"
      "chain_inputs c es \<subseteq> chain_inputs c ds'" "chain_inputs c [e] \<subseteq> chain_inputs c ds'"
      by (simp_all only: ds' chain_inputs_append Un_upper1 Un_upper2)
    have "length (d_prev_hash d) = length (d_prev_hash e)" using linked_head [OF laws len(1) d(1)] linked_head [OF laws len(2) e(1)] by simp
    from link_binding [OF laws wf(1,2) this d(2) e(2)] show ?thesis
    proof
      assume eq: "d = e"
      then have "suffix ds es \<or> suffix es ds \<or> clash (blake3_of c) (chain_inputs c ds) (chain_inputs c es)"
        using snoc.IH [OF d(1) _ wf(3,4)] e(1) by simp
      then show ?thesis using eq clash_mono [OF _ sub(1,3)] by (auto simp: ds')
    qed (use clash_mono [OF _ sub(2,4)] in blast)
  qed simp
qed simp

lemma parse_header_prev: "parse_header bs = Ok hdr \<Longrightarrow> length (h_prev_head hdr) = 32"
  by (auto simp: parse_header_def HEADER_SIZE_V3_def Let_def split: if_splits)

lemma replay_log_entries:
  assumes laws: "codec_laws c" and run: "replay_log c file = Ok s" and ds: "log_entries c file ds"
  obtains prev where "length prev = 32" "linked c prev ds (su_chain_head s)" "length (su_chain_head s) = 32" "length (su_state_hash s) = 32"
    "su_event_count s = of_nat (length (decoded_events ds))"
proof -
  obtain hdr where hdr: "parse_header file = Ok hdr" "h_version hdr = VERSION_V4" "decodes c (drop (h_header_len hdr) file) ds"
    using ds by (auto simp: log_entries_def)
  have "log_loop c hdr (drop (h_header_len hdr) file) 0 (h_prev_head hdr) 0 kernel_new = Some (Ok s)"
    using run hdr(1) by (cases "log_loop c hdr (drop (h_header_len hdr) file) 0 (h_prev_head hdr) 0 kernel_new") (auto simp: replay_log_def)
  from log_loop_entries [OF this hdr(2)] decodes_unique [OF hdr(3)]
  show thesis
    using that [OF parse_header_prev [OF hdr(1)]] linked_head [OF laws parse_header_prev [OF hdr(1)]] codec_laws_chain(2) [OF laws]
    by (auto simp: hash_state_blake3_def)
qed

lemma created_anchor:
  assumes laws: "codec_laws c" "ed_laws E" and run: "cmd_create c E now (Some file) (Some key) nt = Ok (0, Some anchor)"
    and ds: "log_entries c file ds"
  obtains s sk where "load_signing_key key = Ok sk" "replay_log c file = Ok s"
    "verify_json E anchor = Ok (\<lparr>ap_chain_head = su_chain_head s, ap_event_count = su_event_count s,
       ap_state_hash = su_state_hash s, ap_anchored_at_unix = now\<rparr>, ed_public E sk)"
proof -
  obtain sk s where sk: "load_signing_key key = Ok sk" "replay_log c file = Ok s"
    and anchor: "anchor = sign_to_json E \<lparr>ap_chain_head = su_chain_head s, ap_event_count = su_event_count s,
       ap_state_hash = su_state_hash s, ap_anchored_at_unix = now\<rparr> sk nt"
    using run by (auto simp: cmd_create_def split: res.splits)
  have "length sk = 32" using sk(1) by (auto simp: load_signing_key_def sized_bytes_def split: if_splits)
  moreover obtain "length (su_chain_head s) = 32" "length (su_state_hash s) = 32" by (rule replay_log_entries [OF laws(1) sk(2) ds])
  ultimately show thesis using that [OF sk] verify_signed [OF laws(2)] by (simp add: anchor)
qed

text \<open>C23: An anchor binds the events of a log. If an anchor was created for one file and another file passes verification against it, then
  both files hold the same events in the same order, and their entries are the same except that one of them may have further entries without events
  in front; or the hashed strings of the two files contain a collision.\<close>

theorem anchor_binds_log:
  assumes laws: "codec_laws c" "ed_laws E" and created: "cmd_create c E now (Some file) (Some key) nt = Ok (0, Some anchor)"
    and verified: "cmd_verify c E (Some file') (Some anchor) trusted trust_embedded = Ok 0"
    and ds: "log_entries c file ds" "decoded_wf ds" "length (decoded_events ds) < 2 ^ 64"
    and ds': "log_entries c file' ds'" "decoded_wf ds'" "length (decoded_events ds') < 2 ^ 64"
  shows "decoded_events ds = decoded_events ds' \<and> (suffix ds ds' \<or> suffix ds' ds) \<or>
    clash (blake3_of c) (chain_inputs c ds) (chain_inputs c ds')"
proof -
  obtain s sk where s: "replay_log c file = Ok s"
    and p: "verify_json E anchor = Ok (\<lparr>ap_chain_head = su_chain_head s, ap_event_count = su_event_count s,
       ap_state_hash = su_state_hash s, ap_anchored_at_unix = now\<rparr>, ed_public E sk)"
    by (rule created_anchor [OF laws created ds(1)])
  obtain s' where s': "replay_log c file' = Ok s'" "su_chain_head s' = su_chain_head s" "su_event_count s' = su_event_count s"
    using verified by (auto simp: cmd_verify_def p check_anchor_def split: if_splits option.splits res.splits)
  obtain prev where prev: "length prev = 32" "linked c prev ds (su_chain_head s)" "su_event_count s = of_nat (length (decoded_events ds))"
    by (rule replay_log_entries [OF laws(1) s ds(1)])
  obtain prev' where prev': "length prev' = 32" "linked c prev' ds' (su_chain_head s)" "su_event_count s' = of_nat (length (decoded_events ds'))"
    using s'(2) by (metis replay_log_entries [OF laws(1) s'(1) ds'(1)])
  have "length (decoded_events ds) = length (decoded_events ds')"
    using prev(3) prev'(3) s'(3) ds(3) ds'(3) by (simp add: word_of_nat_eq_iff take_bit_nat_eq_self)
  moreover have "decoded_events (xs @ ys) = decoded_events xs @ decoded_events ys" for xs ys by (simp add: decoded_events_def)
  ultimately have "suffix ds ds' \<or> suffix ds' ds \<Longrightarrow> decoded_events ds = decoded_events ds'" by (auto simp: suffix_def)
  then show ?thesis using linked_suffix [OF laws(1) prev(1) prev'(1) prev(2) prev'(2) ds(2) ds'(2)] by blast
qed

section \<open>What an anchor does not see\<close>

lemma decodes_chained:
  assumes laws: "codec_laws c" and junk: "junk = [] \<or> decode_entry c VERSION_V4 junk = Err e"
  shows "items_wf items \<Longrightarrow> length head = 32 \<Longrightarrow> encode_log c head items = Ok (bs, h) \<Longrightarrow> decodes c (bs @ junk) (chained c head items)"
proof (induction items arbitrary: head bs)
  case Nil
  then show ?case using junk by (auto intro: decodes.stop)
next
  case (Cons x items)
  obtain t rid e where x: "x = (t, rid, e)" by (cases x) auto
  obtain b h' bs' where b: "encode_entry c VERSION_V4 head t rid e = Ok b"
      "chain_advance c VERSION_V4 head (stamped head t rid e) = Ok h'" "encode_log c h' items = Ok (bs', h)" "bs = b @ bs'"
    using Cons.prems(3) x by auto
  have wf: "item_wf (t, rid, e)" "items_wf items" using Cons.prems(1) x by auto
  note dec = decode_entry_encode [OF laws wf(1) Cons.prems(2) b(1)]
  have "decodes c (bs' @ junk) (chained c h' items)" using Cons.IH [OF wf(2) chain_advance_length [OF laws b(2)] b(3)] .
  then show ?case using decodes.step [of "b @ bs' @ junk" c "stamped head t rid e" "length b"] dec b by (simp add: x)
qed

lemma segment_log_entries:
  assumes laws: "codec_laws c" and seg: "segment c dim seq prev items file h" and dim: "dim_ok dim None"
    and junk: "junk = [] \<or> decode_entry c VERSION_V4 junk = Err e"
  shows "log_entries c (file @ junk) (chained c prev items)"
proof -
  obtain bs where bs: "length prev = 32" "items_wf items" "encode_log c prev items = Ok (bs, h)"
    "file = encode_header_v4 dim FORMAT_Q16_16 seq prev @ bs" using seg by (auto simp: segment_def)
  show ?thesis
    using decodes_chained [OF laws junk bs(2,1,3)] dim bs(1) by (simp add: log_entries_def bs(4) parse_header_v4 dim_ok_def)
qed

lemma replay_log_segment:
  assumes laws: "codec_laws c" and seg: "segment c dim seq prev items file h" and dim: "dim_ok dim None"
    and junk: "junk = [] \<or> decode_entry c VERSION_V4 junk = Err e" and run: "replay_events (items_events items) = Ok st"
  shows "replay_log c (file @ junk) = Ok \<lparr>su_chain_head = h, su_event_count = of_nat (length (items_events items)),
    su_state_hash = hash_state_blake3 (blake3_of c) st, su_trailing_bytes = length junk\<rparr>"
proof -
  let ?hdr = "v4_header dim seq prev"
  obtain bs where bs: "length prev = 32" "items_wf items" "encode_log c prev items = Ok (bs, h)"
    "file = encode_header_v4 dim FORMAT_Q16_16 seq prev @ bs" using seg by (auto simp: segment_def)
  have hdr: "parse_header (file @ junk) = Ok ?hdr" "drop 48 (file @ junk) = bs @ junk"
    using dim bs(1) by (simp_all add: bs(4) parse_header_v4 dim_ok_def)
  obtain prior where chain: "verify_loop c None ?hdr (bs @ junk) 0 NoEntry 0 (outcome_start ?hdr) =
      verify_loop c None ?hdr junk (length bs) prior (of_nat (length items)) ((count_items items (outcome_start ?hdr))\<lparr>o_state := st, o_chain_head := h\<rparr>)"
    using verify_chained [OF laws _ bs(2), of ?hdr "outcome_start ?hdr" bs h None 0 junk 0 NoEntry] bs(1,3) run
    by (auto simp: outcome_start_def replay_events_def capped_def)
  have "of_loop (log_loop c ?hdr (bs @ junk) 0 prev 0 kernel_new) =
      res_bind (of_loop (verify_loop c None ?hdr (bs @ junk) 0 NoEntry 0 (outcome_start ?hdr))) (summary_of c)"
    using log_verify_agree [of "outcome_start ?hdr" c ?hdr "bs @ junk" 0 NoEntry 0] by (simp add: outcome_start_def)
  also have "\<dots> = Ok \<lparr>su_chain_head = h, su_event_count = of_nat (length (items_events items)),
    su_state_hash = hash_state_blake3 (blake3_of c) st, su_trailing_bytes = length junk\<rparr>"
    unfolding chain using junk
    by (subst verify_loop.simps) (auto simp: summary_of_def summary_def outcome_start_def)
  finally show ?thesis by (simp add: replay_log_def hdr del: drop_append)
qed

text \<open>C40: An anchor does not see every change of a file. Take a segment whose first entries record no event, and an
  anchor created for it. Without those entries, with another dimension and sequence number in the header, and followed by bytes that are no entry,
  the file still passes verification against the anchor and the trusted key.\<close>

theorem anchor_misses_changes:
  assumes laws: "codec_laws c" "ed_laws E" and seg: "segment c dim seq prev (front @ items) file h" "items_events front = []"
    and dims: "dim_ok dim None" "dim_ok dim' None" and run: "replay_events (items_events items) = Ok st"
    and junk: "junk = [] \<or> decode_entry c VERSION_V4 junk = Err e"
    and created: "cmd_create c E now (Some file) (Some key) nt = Ok (0, Some anchor)" "load_signing_key key = Ok sk"
  shows "\<exists>prev' file'. segment c dim' seq' prev' items file' h \<and>
    cmd_verify c E (Some (file' @ junk)) (Some anchor) (Some (Some (to_hex (ed_public E sk)))) False = Ok 0"
proof -
  obtain bs where bs: "length prev = 32" "items_wf (front @ items)" "encode_log c prev (front @ items) = Ok (bs, h)"
    using seg by (auto simp: segment_def)
  obtain b1 h1 b2 where parts: "encode_log c prev front = Ok (b1, h1)" "encode_log c h1 items = Ok (b2, h)"
    using bs(3) by (auto simp: encode_log_append)
  let ?file = "encode_header_v4 dim' FORMAT_Q16_16 seq' h1 @ b2"
  have seg': "segment c dim' seq' h1 items ?file h"
    using bs(2) parts encode_log_head [OF laws(1) bs(1) parts(1)] by (auto simp: segment_def)
  have old: "replay_log c (file @ []) = Ok \<lparr>su_chain_head = h, su_event_count = of_nat (length (items_events items)),
      su_state_hash = hash_state_blake3 (blake3_of c) st, su_trailing_bytes = 0\<rparr>"
    using replay_log_segment [OF laws(1) seg(1) dims(1), of "[]"] run seg(2) by simp
  note new = replay_log_segment [OF laws(1) seg' dims(2) junk run]
  have "log_entries c file (chained c prev (front @ items))" using segment_log_entries [OF laws(1) seg(1) dims(1), of "[]"] by simp
  then obtain s where s: "replay_log c file = Ok s"
    "verify_json E anchor = Ok (\<lparr>ap_chain_head = su_chain_head s, ap_event_count = su_event_count s,
       ap_state_hash = su_state_hash s, ap_anchored_at_unix = now\<rparr>, ed_public E sk)"
    by (rule created_anchor [OF laws created(1)]) (use created(2) in auto)
  have "length sk = 32" using created(2) by (auto simp: load_signing_key_def sized_bytes_def split: if_splits)
  then have "load_verifying_key E (to_hex (ed_public E sk)) = Ok (ed_public E sk)"
    using laws(2) by (simp add: load_verifying_key_def sized_bytes_def ed_laws_def)
  then have "cmd_verify c E (Some (?file @ junk)) (Some anchor) (Some (Some (to_hex (ed_public E sk)))) False = Ok 0"
    using s old new by (simp add: cmd_verify_def check_anchor_def)
  then show ?thesis using seg' by blast
qed

section \<open>An example\<close>

definition sample_ed :: ed25519 where
  "sample_ed = \<lparr>ed_public = id, ed_sign = (\<lambda>sk m. replicate 64 0), ed_valid_key = (\<lambda>_. True), ed_verify = (\<lambda>_ _ _. True)\<rparr>"

abbreviation sample_key :: bytes where
  "sample_key \<equiv> replicate 32 7"

abbreviation left :: LogEntry where
  "left \<equiv> Admin (NodeLeft 3 (replicate 16 0))"

lemma sample_ed_laws: "ed_laws sample_ed"
  by (simp add: ed_laws_def sample_ed_def)

lemma load_sample_key: "load_signing_key (to_hex sample_key) = Ok sample_key"
  by (simp add: load_signing_key_def sized_bytes_def)

lemma sample_segment:
  obtains log h where "segment sample_codec 1 0 (replicate 32 0) [(4, None, left), (5, None, Event first_insert)] log h"
proof -
  obtain f h where one: "segment sample_codec 1 0 (replicate 32 0) [(4, None, left)] f h"
    using one_segment [OF sample_codec_laws, of 4 None left "replicate 32 0" 1 0] by (auto simp: check_metadata_cap_def)
  have "item_wf (5, None, Event first_insert)" by simp
  moreover obtain bs where "encode_entry sample_codec VERSION_V4 h 5 None (Event first_insert) = Ok bs"
    using encode_entry_ok [OF sample_codec_laws, of 5 None "Event first_insert" h] segment_head [OF sample_codec_laws one] by auto
  moreover obtain h' where "chain_advance sample_codec VERSION_V4 h (stamped h 5 None (Event first_insert)) = Ok h'"
    using chain_entry_ok [OF sample_codec_laws, of "Event first_insert" h 5 None] by auto
  ultimately show thesis using that segment_snoc [OF one] by fastforce
qed

lemma sample_replay: "\<exists>st. replay_events [(DEFAULT_NS, first_insert)] = Ok st"
  by (simp add: replay_events_def first_insert_def kernel_eval DEFAULT_NS_def)

lemma sample_create:
  assumes "segment sample_codec 1 0 (replicate 32 0) [(4, None, left), (5, None, Event first_insert)] log h"
  obtains anchor where "cmd_create sample_codec sample_ed 9 (Some log) (Some (to_hex sample_key)) None = Ok (0, Some anchor)"
proof -
  have dim: "dim_ok 1 None" by (simp add: dim_ok_def WIRE_MAX_DIM_def)
  obtain st where "replay_events [(DEFAULT_NS, first_insert)] = Ok st" using sample_replay by blast
  then have "\<exists>s. replay_log sample_codec log = Ok s"
    using replay_log_segment [OF sample_codec_laws assms dim, of "[]"] by simp
  then show thesis using that by (auto simp: cmd_create_def load_sample_key)
qed

lemma sample_junk: "decode_entry sample_codec VERSION_V4 [1] = Err Truncated"
  by (simp add: decode_entry_def sample_codec_def unframe_def)

theorem anchor_misses_changes_witness:
  "\<exists>log anchor prev' log' h. segment sample_codec 1 0 (replicate 32 0) [(4, None, left), (5, None, Event first_insert)] log h \<and>
     cmd_create sample_codec sample_ed 9 (Some log) (Some (to_hex sample_key)) None = Ok (0, Some anchor) \<and>
     segment sample_codec 2 1 prev' [(5, None, Event first_insert)] log' h \<and>
     cmd_verify sample_codec sample_ed (Some (log' @ [1])) (Some anchor) (Some (Some (to_hex sample_key))) False = Ok 0"
proof -
  obtain log h where seg: "segment sample_codec 1 0 (replicate 32 0) [(4, None, left), (5, None, Event first_insert)] log h"
    by (rule sample_segment)
  obtain anchor where create: "cmd_create sample_codec sample_ed 9 (Some log) (Some (to_hex sample_key)) None = Ok (0, Some anchor)"
    by (rule sample_create [OF seg])
  obtain st where run: "replay_events (items_events [(5, None, Event first_insert)]) = Ok st" using sample_replay by auto
  have dims: "dim_ok 1 None" "dim_ok 2 None" by (simp_all add: dim_ok_def WIRE_MAX_DIM_def)
  have "segment sample_codec 1 0 (replicate 32 0) ([(4, None, left)] @ [(5, None, Event first_insert)]) log h" using seg by simp
  moreover have "items_events [(4, None, left)] = []" "ed_public sample_ed sample_key = sample_key" by (simp_all add: sample_ed_def)
  ultimately show ?thesis
    using anchor_misses_changes [OF sample_codec_laws sample_ed_laws _ _ dims run disjI2 [OF sample_junk] create load_sample_key, of 0 "replicate 32 0"
      "[(4, None, left)]" h 1] seg create by (metis (no_types, lifting))
qed

theorem anchor_binds_log_witness:
  "\<exists>log anchor ds. log_entries sample_codec log ds \<and> decoded_events ds = [(DEFAULT_NS, first_insert)] \<and>
     cmd_create sample_codec sample_ed 9 (Some log) (Some (to_hex sample_key)) None = Ok (0, Some anchor) \<and>
     log_entries sample_codec (log @ [1]) ds \<and> cmd_verify sample_codec sample_ed (Some (log @ [1])) (Some anchor) None True = Ok 0 \<and>
     (decoded_events ds = decoded_events ds \<and> (suffix ds ds \<or> suffix ds ds) \<or>
      clash (blake3_of sample_codec) (chain_inputs sample_codec ds) (chain_inputs sample_codec ds))"
proof -
  let ?items = "[(4, None, left), (5, None, Event first_insert)]"
  obtain log h where seg: "segment sample_codec 1 0 (replicate 32 0) ?items log h" by (rule sample_segment)
  obtain anchor where create: "cmd_create sample_codec sample_ed 9 (Some log) (Some (to_hex sample_key)) None = Ok (0, Some anchor)"
    by (rule sample_create [OF seg])
  let ?ds = "chained sample_codec (replicate 32 0) ?items"
  have dim: "dim_ok 1 None" by (simp add: dim_ok_def WIRE_MAX_DIM_def)
  obtain st where run: "replay_events (items_events ?items) = Ok st" using sample_replay by auto
  have ds: "log_entries sample_codec log ?ds" "log_entries sample_codec (log @ [1]) ?ds"
    using segment_log_entries [OF sample_codec_laws seg dim, of "[]"] segment_log_entries [OF sample_codec_laws seg dim disjI2 [OF sample_junk]] by simp_all
  have "encode_log sample_codec (replicate 32 0) ?items \<in> range Ok" using seg by (auto simp: segment_def)
  then have evs: "decoded_events ?ds = [(DEFAULT_NS, first_insert)]" and wf: "decoded_wf ?ds"
    by (auto simp: decoded_events_def decoded_wf_def stamped_def)
  obtain s where "replay_log sample_codec log = Ok s"
    "verify_json sample_ed anchor = Ok (\<lparr>ap_chain_head = su_chain_head s, ap_event_count = su_event_count s,
       ap_state_hash = su_state_hash s, ap_anchored_at_unix = 9\<rparr>, ed_public sample_ed sample_key)"
    by (rule created_anchor [OF sample_codec_laws sample_ed_laws create ds(1)]) (auto simp: load_sample_key)
  then have verify: "cmd_verify sample_codec sample_ed (Some (log @ [1])) (Some anchor) None True = Ok 0"
    using replay_log_segment [OF sample_codec_laws seg dim disjI2 [OF sample_junk] run] replay_log_segment [OF sample_codec_laws seg dim _ run, of "[]"]
    by (simp add: cmd_verify_def check_anchor_def)
  have "length (decoded_events ?ds) < 2 ^ 64" unfolding evs by simp
  from anchor_binds_log [OF sample_codec_laws sample_ed_laws create verify ds(1) wf this ds(2) wf this]
  show ?thesis using ds create verify evs by blast
qed

text \<open>Texts that \<open>from_hex\<close> was not meant for: a character of two bytes at an odd position is a panic, and a sign is read as part of a
  number.\<close>

lemma from_hex_odd_texts: "from_hex [97, 233, 98] = Panic" "from_hex (codepoints ''+f'') = Ok [15]"
proof -
  have "char_of (43 :: nat) = CHR ''+''" "char_of (102 :: nat) = CHR ''f''"
    using char_of_char [of "CHR ''+''", where 'a = nat] char_of_char [of "CHR ''f''", where 'a = nat] by (simp_all del: char_of_char)
  then show "from_hex [97, 233, 98] = Panic" "from_hex (codepoints ''+f'') = Ok [15]"
    by (simp_all add: from_hex_def utf8_width_def codepoints_def from_str_radix16_def digit_value_def)
qed

end
