(* ===== verification/Spec2Isabelle.thy ===== *)
theory Spec2Isabelle
  imports Kernel_Theorems Snapshot_Theorems Hash_Theorems Wire_Time Log_Theorems Raft_Snapshot Raft_Audit Raft_Log Anchor_Theorems
begin

text \<open>
  A verification of the Valori kernel and of the event log that makes it durable.

  \<^bold>\<open>The program.\<close> Valori is a deterministic vector store. Its kernel (\<open>crates/valori-kernel\<close>) is a state machine: all
  changes go through \<open>apply_event_ns\<close>, which applies one event to records, graph nodes and edges in up to 1024 namespaces.
  Vectors are fixed-point, so that replicas compute the same distances. A state can be written as a snapshot, hashed, and
  proved about. Around the kernel, \<open>crates/valori-wire\<close> defines the bytes of the event log and the hash chain
  over its entries, and \<open>crates/valori-storage/src/events\<close> writes the log, rotates its segments, replays it into a fresh kernel,
  and commits events to kernel, log and journal. The servers, the consensus layer and the clients call these.

  \<^bold>\<open>Conventions.\<close> The model is of the release build: arithmetic on machine integers wraps and they are words;
  \<open>usize\<close> values are natural numbers. An operation returns a \<open>res\<close>: a value, an error, \<open>Panic\<close> or
  \<open>Diverges\<close>. Operations that change a state return it beside the outcome, also on errors. A loop that follows links or consumes
  input with a decoder is a \<open>partial_function (option)\<close>, and not to return is \<open>Diverges\<close>; there is no fuel. That such a loop
  returns is part of the theorems that use it.

  \<^bold>\<open>The theories.\<close>
  \<^item> \<open>Prelude\<close>: words, outcomes, slot vectors and byte encodings.
  \<^item> \<open>Valori_Core\<close>: \<open>valori-core\<close> (identifiers, kinds, versions) and the configuration, errors and fixed-point operations of the kernel.
  \<^item> \<open>Vec_Math\<close>: \<open>math/l2.rs\<close> and \<open>math/dot.rs\<close> for each target; the vector paths compute the exact value within stated bounds.
  \<^item> \<open>Ns_List\<close>, \<open>Record_Pool\<close>, \<open>Graph\<close>: the intrusive lists of \<open>state/kernel.rs\<close>, \<open>storage\<close> and \<open>graph\<close>. The
    locales \<open>links\<close> and \<open>adjacency\<close> state what a linked list over a pool needs; records, nodes, outgoing and
    incoming edges interpret them.
  \<^item> \<open>Vector_Index\<close>: \<open>index\<close>; the locale \<open>vector_index\<close> is the contract of an index, which the brute-force index, the
    binary-quantization index and the dispatch between them interpret.
  \<^item> \<open>Kernel_Event\<close>: \<open>event.rs\<close>, the events and their serialisation over the primitives of \<open>bincode\<close>.
  \<^item> \<open>Kernel_State\<close>: \<open>state/kernel.rs\<close>, one definition per event, query and maintenance operation.
  \<^item> \<open>Kernel_Inv\<close>, \<open>Kernel_Steps\<close>, \<open>Kernel_Props\<close>, \<open>Kernel_Search\<close>, \<open>Kernel_Rebuild\<close>: the invariant, that every event
    returns and keeps it, the searches, the checker and the rebuilding of the lists.
  \<^item> \<open>Kernel_Spec\<close>: an abstract kernel of finite maps, which \<open>apply_event_ns\<close> refines.
  \<^item> \<open>Kernel_Demo\<close>, \<open>Kernel_Theorems\<close>: sample states, and the theorems about the kernel.
  \<^item> \<open>Snapshot\<close>, \<open>Snapshot_Props\<close>, \<open>Snapshot_Safe\<close>, \<open>Snapshot_Theorems\<close>: \<open>snapshot/encode.rs\<close> and \<open>decode.rs\<close>; which snapshots are
    restored and to what, and what the decoder does on any bytes.
  \<^item> \<open>State_Hash\<close>, \<open>Hash_Theorems\<close>: \<open>snapshot/blake3.rs\<close>, \<open>verify.rs\<close> and \<open>proof.rs\<close>; what hashes, proofs and receipts bind.
  \<^item> \<open>Wire\<close>, \<open>Wire_Time\<close>: \<open>valori-wire/src/lib.rs\<close>; headers, entries, the chain, and the rendering of dates.
  \<^item> \<open>Event_Log\<close>, \<open>Event_Log_Props\<close>: \<open>event_log.rs\<close>; a file is its bytes and the length that is synced, and a crash keeps
    any prefix that contains the synced part.
  \<^item> \<open>Event_Store\<close>, \<open>Event_Store_Props\<close>: \<open>event_journal.rs\<close>, \<open>event_replay.rs\<close> and \<open>event_commit.rs\<close>.
  \<^item> \<open>Sample_Codec\<close>, \<open>Log_Theorems\<close>: a concrete serialisation, and the theorems about log, recovery and committer.

  \<^bold>\<open>What the theorems show.\<close> The kernel never panics or loops on safe events and keeps its invariant; it implements the abstract
  kernel; its searches are exact; dropped namespaces, shredded keys and deleted ids stay gone. Snapshots without gaps are restored;
  the decoder is total. Acknowledged log entries survive a crash, recovery returns the committed events up to the write
  buffer, and the final head of a segment binds its contents. Several theorems state where the code does not do
  what it means to: deleting a soft-deleted record again, snapshots after deletions, shredding after a
  restore, a crafted snapshot, empty metadata, batches beside buffered events, failed flushes, torn tails, leap days.

  \<^bold>\<open>Parameters and hypotheses.\<close> \<open>bincode_laws\<close> says that the primitive decoders of \<open>bincode\<close> invert its encoders. The record
  \<open>wire_codec\<close> holds the serialisation of log entries, CRC-32 and BLAKE3; \<open>codec_laws\<close> says that an entry whose variable parts
  take at most half of \<open>DECODE_LIMIT\<close> is serialised, read back from any extension and reported incomplete on every proper prefix,
  that the hashed form of an entry determines it, and that a hash has 32 bytes. Nothing is assumed of collisions:
  the binding theorems exhibit one instead. Each law has a concrete instance. The clock is an argument.

  \<^bold>\<open>Not modelled.\<close> Failures of the file system, the scan of the directory for segments and the names of archived
  ones (the files are an argument), subscribers of the journal, conversions from and to floats. The crates that are
  servers, asynchronous tasks or clients of services (\<open>valori-node\<close>, \<open>valori-consensus\<close>, \<open>valori-daemon\<close>, \<open>valori-mcp\<close>, \<open>valori-cli\<close>,
  \<open>valori-ffi\<close>, \<open>valori-ingest\<close>, \<open>valori-rag\<close>, \<open>valori-models\<close>, \<open>valori-effect\<close>, \<open>valori-planner\<close>, \<open>valori-metadata\<close>,
  \<open>valori-engine\<close>), the approximate indexes and re-rankers on floats (\<open>valori-index\<close>, \<open>valori-search\<close>), the choice of a
  recovery path (\<open>valori-state\<close>), the auditor (\<open>valori-verify\<close>) and the legacy write-ahead log.
\<close>

end
